(* ===== verification/Prelude.thy ===== *)
theory Prelude
  imports Main "HOL-Library.Word" "HOL-Library.List_Lexorder" "HOL-Library.Sublist"
begin

text \<open>
  What every component shares: the machine integer types of the Rust code, its error type
  (\<open>src/err.rs\<close>), the result type with its bind, little-endian bytes of a word
  (\<open>to_le_bytes\<close> and \<open>from_le_bytes\<close> of the standard library) and the generic facts on
  prefixes of byte strings that the codecs use.
\<close>

unbundle bit_operations_syntax

named_theorems codec_simps \<open>equations of encoders and decoders\<close>
named_theorems result_simps \<open>equations of the result type\<close>

subsection \<open>Machine integers and byte strings\<close>

type_synonym byte = "8 word"
type_synonym u16 = "16 word"
type_synonym u32 = "32 word"
type_synonym u64 = "64 word"
type_synonym bytes = "byte list"

subsection \<open>Errors as values\<close>

text \<open>
  The kinds of \<open>std::io::Error\<close> the code tells apart: it matches on \<open>UnexpectedEof\<close>, it
  makes \<open>NotFound\<close> itself; every other one carries its message.
\<close>

datatype io_error = UnexpectedEof | NotFound | OtherIo string

datatype db_error =
    Io io_error
  | KeyNotFound string
  | DirectoryNotFound string
  | ManifestNotFound
  | ManifestReadError string
  | ManifestCorrupted
  | WriterPanic
  | DataCorrupted string
  | Unimplemented string

type_synonym 'a result = "db_error + 'a"

text \<open>The \<open>?\<close> operator: an error returns early, a value is passed on.\<close>

definition and_then :: "('e + 'a) \<Rightarrow> ('a \<Rightarrow> 'e + 'b) \<Rightarrow> 'e + 'b" where
  "and_then r f = (case r of Inl e \<Rightarrow> Inl e | Inr x \<Rightarrow> f x)"

lemma and_then_simps [simp, result_simps]:
  "and_then (Inl e) f = Inl e"
  "and_then (Inr x) f = f x"
  by (simp_all add: and_then_def)

lemma and_then_Inr_iff [result_simps]:
  "and_then r f = Inr y \<longleftrightarrow> (\<exists>x. r = Inr x \<and> f x = Inr y)"
  by (cases r) auto

lemma and_then_Inl_iff [result_simps]:
  "and_then r f = Inl e \<longleftrightarrow> r = Inl e \<or> (\<exists>x. r = Inr x \<and> f x = Inl e)"
  by (cases r) auto

lemma and_then_cong [fundef_cong]:
  "r = r' \<Longrightarrow> (\<And>x. r' = Inr x \<Longrightarrow> f x = g x) \<Longrightarrow> and_then r f = and_then r' g"
  by (cases r') auto

lemma and_then_assoc: "and_then (and_then r f) g = and_then r (\<lambda>x. and_then (f x) g)"
  by (cases r) auto

subsection \<open>Loops that may panic\<close>

text \<open>
  A panic (an index out of range, a division by zero) is \<open>None\<close>. \<open>ofold f xs s\<close> runs the
  body \<open>f\<close> for every element of \<open>xs\<close> and stops at the first panic.
\<close>

fun ofold :: "('x \<Rightarrow> 's \<Rightarrow> 's option) \<Rightarrow> 'x list \<Rightarrow> 's \<Rightarrow> 's option" where
  "ofold f [] s = Some s"
| "ofold f (x # xs) s = Option.bind (f x s) (ofold f xs)"

lemma ofold_append: "ofold f (xs @ ys) s = Option.bind (ofold f xs s) (ofold f ys)"
  by (induction xs arbitrary: s) (auto split: Option.bind_split)

text \<open>An invariant under which the body never panics holds at the end of the loop.\<close>

lemma ofold_invariant:
  assumes "\<And>x s. x \<in> set xs \<Longrightarrow> I s \<Longrightarrow> \<exists>s'. f x s = Some s' \<and> I s'" and "I s"
  shows "\<exists>s'. ofold f xs s = Some s' \<and> I s'"
  using assms
proof (induction xs arbitrary: s)
  case Nil
  then show ?case by simp
next
  case (Cons x xs)
  from Cons.prems obtain s1 where "f x s = Some s1" "I s1" by fastforce
  with Cons show ?case by fastforce
qed

lemma ofold_preserves:
  assumes "\<And>x s s'. f x s = Some s' \<Longrightarrow> P s \<Longrightarrow> P s'" and "ofold f xs s = Some s'" and "P s"
  shows "P s'"
  using assms(2,3)
  by (induction xs arbitrary: s) (auto simp: bind_eq_Some_conv intro: assms(1))

subsection \<open>Little-endian bytes of a word\<close>

fun to_le :: "nat \<Rightarrow> 'a::len word \<Rightarrow> bytes" where
  "to_le 0 w = []"
| "to_le (Suc n) w = ucast w # to_le n (drop_bit 8 w)"

fun from_le :: "bytes \<Rightarrow> 'a::len word" where
  "from_le [] = 0"
| "from_le (b # bs) = ucast b OR push_bit 8 (from_le bs)"

lemma length_to_le [simp]: "length (to_le n w) = n"
  by (induction n arbitrary: w) auto

lemma drop_to_le: "drop m (to_le n w) = to_le (n - m) (drop_bit (8 * m) w)"
proof (induction n arbitrary: m w)
  case 0
  show ?case by simp
next
  case (Suc n)
  then show ?case by (cases m) (simp_all add: drop_bit_drop_bit add.commute)
qed

lemma from_le_to_le: "from_le (to_le n w) = take_bit (8 * n) (w :: 'a::len word)"
proof (induction n arbitrary: w)
  case 0
  show ?case by simp
next
  case (Suc n)
  show ?case
    by (rule bit_eqI) (auto simp: Suc.IH bit_simps)
qed

lemma from_le_to_le_16 [simp]: "from_le (to_le 2 (w :: u16)) = w"
  by (simp add: from_le_to_le take_bit_word_eq_self)

lemma from_le_to_le_32 [simp]: "from_le (to_le 4 (w :: u32)) = w"
  by (simp add: from_le_to_le take_bit_word_eq_self)

lemma from_le_to_le_64 [simp]: "from_le (to_le 8 (w :: u64)) = w"
  by (simp add: from_le_to_le take_bit_word_eq_self)

lemma bit_from_le: "bit (from_le bs :: 'a::len word) n \<Longrightarrow> n < 8 * length bs"
proof (induction bs arbitrary: n)
  case Nil
  then show ?case by simp
next
  case (Cons b bs)
  then show ?case
    by (force simp: bit_simps dest: bit_imp_le_length [where w = b])
qed

lemma to_le_from_le:
  "8 * length bs \<le> LENGTH('a) \<Longrightarrow> to_le (length bs) (from_le bs :: 'a::len word) = bs"
proof (induction bs)
  case Nil
  show ?case by simp
next
  case (Cons b bs)
  have low: "ucast (ucast b OR push_bit 8 (from_le bs :: 'a word)) = b"
    using Cons.prems by (intro bit_eqI) (auto simp: bit_simps)
  have high: "drop_bit 8 (ucast b OR push_bit 8 (from_le bs :: 'a word)) = from_le bs"
    using Cons.prems
    by (intro bit_eqI)
      (auto simp: bit_simps dest: bit_imp_le_length [where w = b] bit_from_le)
  show ?case using Cons by (simp add: low high del: drop_bit_or)
qed

subsection \<open>Strict prefixes of byte strings\<close>

text \<open>
  A torn write leaves a strict prefix of what was written. A strict prefix of \<open>a @ b\<close> ends
  inside \<open>a\<close>, or holds the whole of \<open>a\<close> and ends inside \<open>b\<close>.
\<close>

lemma strict_prefix_append_cases:
  assumes "strict_prefix p (a @ b)"
  obtains (inside) "strict_prefix p a" | (after) q where "p = a @ q" "strict_prefix q b"
proof (cases "strict_prefix p a")
  case True
  then show thesis by (rule inside)
next
  case False
  with assms have "p = a \<or> (\<exists>q. p = a @ q \<and> prefix q b)" and "p \<noteq> a @ b"
    by (auto simp: strict_prefix_def prefix_append)
  then obtain q where "p = a @ q" "prefix q b" "p \<noteq> a @ b"
    by (metis Nil_prefix append_Nil2)
  then show thesis by (intro after [of q]) (auto simp: strict_prefix_def)
qed

lemma strict_prefix_length: "strict_prefix p xs \<Longrightarrow> length p < length xs"
  by (rule prefix_length_less)

lemma strict_prefix_Nil_iff [simp]: "strict_prefix p [] \<longleftrightarrow> False"
  by simp

lemma list_all_concat: "list_all P (concat bs) \<longleftrightarrow> (\<forall>b \<in> set bs. list_all P b)"
  by (auto simp: list_all_iff)

subsection \<open>Numbers that fit a word\<close>

lemma unat_of_nat_16: "n < 2 ^ 16 \<Longrightarrow> unat (of_nat n :: u16) = n"
  by (simp add: unat_of_nat take_bit_eq_mod)

lemma unat_of_nat_32: "n < 2 ^ 32 \<Longrightarrow> unat (of_nat n :: u32) = n"
  by (simp add: unat_of_nat take_bit_eq_mod)

lemma unat_u32_less: "unat (w :: u32) < 2 ^ 32"
  using unsigned_less [of w, where ?'a = nat] by simp

lemma unat_u64_less: "unat (w :: u64) < 2 ^ 64"
  using unsigned_less [of w, where ?'a = nat] by simp

lemma unat_of_nat_64: "n < 2 ^ 64 \<Longrightarrow> unat (of_nat n :: u64) = n"
  by (simp add: unat_of_nat take_bit_eq_mod)

end
