(* ===== verification/Loggable.thy ===== *)
theory Loggable
  imports Prelude
begin

text \<open>
  The trait \<open>Loggable\<close> of \<open>src/data_stores/mod.rs\<close> and its implementations for the primitive
  types, for \<open>Vec<T>\<close> and for \<open>String\<close>. An encoder is a function to bytes (a writer into a
  buffer does not fail). A decoder takes the bytes that are left in the reader and returns the
  value with the bytes that are left after it, or the error. The locale \<open>codec\<close> is the contract
  all implementations share: what was encoded decodes to itself with the rest untouched, a
  strict prefix of an encoding is an unexpected end of file, and a decoder reads forward.
\<close>

subsection \<open>The reader\<close>

definition read_exact :: "nat \<Rightarrow> bytes \<Rightarrow> (bytes \<times> bytes) result" where
  "read_exact n bs = (if length bs < n then Inl (Io UnexpectedEof) else Inr (take n bs, drop n bs))"

lemma read_exact_append [codec_simps]: "length p = n \<Longrightarrow> read_exact n (p @ rest) = Inr (p, rest)"
  by (simp add: read_exact_def)

lemma read_exact_short [codec_simps]: "length p < n \<Longrightarrow> read_exact n p = Inl (Io UnexpectedEof)"
  by (simp add: read_exact_def)

lemma read_exact_Inr:
  "read_exact n bs = Inr (p, rest) \<Longrightarrow> bs = p @ rest \<and> length p = n"
  by (auto simp: read_exact_def split: if_splits)

subsection \<open>Primitive implementations\<close>

definition u8_encode :: "byte \<Rightarrow> bytes" where
  "u8_encode b = [b]"

definition u8_decode :: "bytes \<Rightarrow> (byte \<times> bytes) result" where
  "u8_decode bs = and_then (read_exact 1 bs) (\<lambda>(buf, rest). Inr (buf ! 0, rest))"

definition u16_encode :: "u16 \<Rightarrow> bytes" where
  "u16_encode w = to_le 2 w"

definition u16_decode :: "bytes \<Rightarrow> (u16 \<times> bytes) result" where
  "u16_decode bs = and_then (read_exact 2 bs) (\<lambda>(buf, rest). Inr (from_le buf, rest))"

definition u32_encode :: "u32 \<Rightarrow> bytes" where
  "u32_encode w = to_le 4 w"

definition u32_decode :: "bytes \<Rightarrow> (u32 \<times> bytes) result" where
  "u32_decode bs = and_then (read_exact 4 bs) (\<lambda>(buf, rest). Inr (from_le buf, rest))"

definition u64_encode :: "u64 \<Rightarrow> bytes" where
  "u64_encode w = to_le 8 w"

definition u64_decode :: "bytes \<Rightarrow> (u64 \<times> bytes) result" where
  "u64_decode bs = and_then (read_exact 8 bs) (\<lambda>(buf, rest). Inr (from_le buf, rest))"

lemma length_encode [simp]:
  "length (u8_encode b) = 1" "length (u16_encode h) = 2"
  "length (u32_encode w) = 4" "length (u64_encode d) = 8"
  by (simp_all add: u8_encode_def u16_encode_def u32_encode_def u64_encode_def)

subsection \<open>Vectors\<close>

text \<open>Format: the length as a \<open>u32\<close> (\<open>self.len() as u32\<close> truncates), then the items.\<close>

definition vec_encode :: "('a \<Rightarrow> bytes) \<Rightarrow> 'a list \<Rightarrow> bytes" where
  "vec_encode enc xs = u32_encode (of_nat (length xs)) @ concat (map enc xs)"

fun decode_items :: "(bytes \<Rightarrow> ('a \<times> bytes) result) \<Rightarrow> nat \<Rightarrow> bytes \<Rightarrow> ('a list \<times> bytes) result" where
  "decode_items dec 0 bs = Inr ([], bs)"
| "decode_items dec (Suc n) bs =
     and_then (dec bs) (\<lambda>(x, bs1).
     and_then (decode_items dec n bs1) (\<lambda>(xs, bs2). Inr (x # xs, bs2)))"

definition vec_decode :: "(bytes \<Rightarrow> ('a \<times> bytes) result) \<Rightarrow> bytes \<Rightarrow> ('a list \<times> bytes) result" where
  "vec_decode dec bs = and_then (u32_decode bs) (\<lambda>(len, rest). decode_items dec (unat len) rest)"

subsection \<open>The contract of an encoder and its decoder\<close>

locale codec =
  fixes enc :: "'a \<Rightarrow> bytes"
    and dec :: "bytes \<Rightarrow> ('a \<times> bytes) result"
    and ok :: "'a \<Rightarrow> bool"
  assumes dec_enc: "ok x \<Longrightarrow> dec (enc x @ rest) = Inr (x, rest)"
    and dec_short: "ok x \<Longrightarrow> strict_prefix p (enc x) \<Longrightarrow> dec p = Inl (Io UnexpectedEof)"
    and dec_forward: "dec bs = Inr (x, rest) \<Longrightarrow> suffix rest bs \<and> length rest < length bs"
begin

lemma dec_enc_exact: "ok x \<Longrightarrow> dec (enc x) = Inr (x, [])"
  using dec_enc [of x "[]"] by simp

lemma enc_nonempty: "ok x \<Longrightarrow> enc x \<noteq> []"
  using dec_enc_exact [of x] dec_forward [of "enc x" x "[]"] by auto

lemma enc_inj:
  assumes "ok x" "ok y" "enc x = enc y"
  shows "x = y"
  using assms by (metis dec_enc_exact Inr_inject prod.inject)

text \<open>No encoding is a strict prefix of another: a log of them parses in one way only.\<close>

lemma enc_prefix_free: "ok x \<Longrightarrow> ok y \<Longrightarrow> \<not> strict_prefix (enc x) (enc y)"
  using dec_enc_exact [of x] dec_short [of y "enc x"] by auto

text \<open>What a decoder does with a torn encoding that has more behind it.\<close>

lemma dec_torn:
  assumes "ok x" "strict_prefix p (enc x @ r)"
  shows "dec p = Inl (Io UnexpectedEof) \<or> (\<exists>q. dec p = Inr (x, q) \<and> strict_prefix q r)"
  using assms(2)
proof (cases rule: strict_prefix_append_cases)
  case inside
  then show ?thesis using dec_short [OF assms(1)] by blast
next
  case (after q)
  then show ?thesis using dec_enc [OF assms(1)] by blast
qed

lemma dec_shorter: "dec bs = Inr (x, rest) \<Longrightarrow> length rest < length bs"
  using dec_forward by blast

lemma decode_items_enc:
  "list_all ok xs \<Longrightarrow> decode_items dec (length xs) (concat (map enc xs) @ rest) = Inr (xs, rest)"
  by (induction xs) (auto simp: dec_enc)

lemma decode_items_short:
  "list_all ok xs \<Longrightarrow> strict_prefix p (concat (map enc xs)) \<Longrightarrow>
   decode_items dec (length xs) p = Inl (Io UnexpectedEof)"
proof (induction xs arbitrary: p)
  case Nil
  then show ?case by simp
next
  case (Cons x xs)
  from Cons.prems(2) have "strict_prefix p (enc x @ concat (map enc xs))" by simp
  then show ?case
  proof (cases rule: strict_prefix_append_cases)
    case inside
    with Cons.prems(1) show ?thesis by (simp add: dec_short [OF _ inside])
  next
    case (after q)
    with Cons show ?thesis by (simp add: dec_enc)
  qed
qed

lemma decode_items_suffix: "decode_items dec n bs = Inr (xs, rest) \<Longrightarrow> suffix rest bs \<and> length xs = n"
proof (induction n arbitrary: bs xs)
  case 0
  then show ?case by simp
next
  case (Suc n)
  then show ?case
    by (fastforce simp: and_then_Inr_iff dest: dec_forward intro: suffix_order.trans)
qed

end

text \<open>
  A codec whose values are stored in vectors: it gives the codec \<open>vec\<close> of the vectors of at
  most \<open>2 ^ 32 - 1\<close> items.
\<close>

locale item_codec = codec

sublocale item_codec \<subseteq> vec: codec "vec_encode enc" "vec_decode dec" "\<lambda>xs. length xs < 2 ^ 32 \<and> list_all ok xs"
proof unfold_locales
  fix xs :: "'a list" and rest
  assume "length xs < 2 ^ 32 \<and> list_all ok xs"
  then show "vec_decode dec (vec_encode enc xs @ rest) = Inr (xs, rest)"
    by (simp add: vec_decode_def vec_encode_def read_exact_append u32_decode_def u32_encode_def decode_items_enc unat_of_nat_32)
next
  fix xs :: "'a list" and p
  assume ok: "length xs < 2 ^ 32 \<and> list_all ok xs" and p: "strict_prefix p (vec_encode enc xs)"
  from p have "strict_prefix p (u32_encode (of_nat (length xs)) @ concat (map enc xs))"
    by (simp add: vec_encode_def)
  then show "vec_decode dec p = Inl (Io UnexpectedEof)"
  proof (cases rule: strict_prefix_append_cases)
    case inside
    then have "length p < 4" by (auto dest: strict_prefix_length)
    then show ?thesis by (simp add: vec_decode_def u32_decode_def read_exact_short)
  next
    case (after q)
    with ok show ?thesis
      by (simp add: vec_decode_def u32_decode_def u32_encode_def read_exact_append
          decode_items_short unat_of_nat_32)
  qed
next
  fix bs xs rest
  assume "vec_decode dec bs = Inr (xs, rest)"
  then obtain n where "4 \<le> length bs" and items: "decode_items dec n (drop 4 bs) = Inr (xs, rest)"
    by (auto simp: vec_decode_def u32_decode_def read_exact_def and_then_Inr_iff split: if_splits)
  from decode_items_suffix [OF items] have rest: "suffix rest (drop 4 bs)" by simp
  then have "suffix rest bs" using suffix_drop suffix_order.trans by blast
  moreover from suffix_length_le [OF rest] \<open>4 \<le> length bs\<close> have "length rest < length bs"
    by simp
  ultimately show "suffix rest bs \<and> length rest < length bs" ..
qed

text \<open>The four primitives satisfy it, for every value.\<close>

interpretation u8: item_codec u8_encode u8_decode "\<lambda>_. True"
  by unfold_locales
    (auto simp: u8_encode_def u8_decode_def read_exact_def and_then_Inr_iff suffix_drop
      split: if_splits dest: strict_prefix_length)

interpretation u16: item_codec u16_encode u16_decode "\<lambda>_. True"
  by unfold_locales
    (auto simp: u16_encode_def u16_decode_def read_exact_def and_then_Inr_iff suffix_drop
      split: if_splits dest: strict_prefix_length)

interpretation u32: item_codec u32_encode u32_decode "\<lambda>_. True"
  by unfold_locales
    (auto simp: u32_encode_def u32_decode_def read_exact_def and_then_Inr_iff suffix_drop
      split: if_splits dest: strict_prefix_length)

interpretation u64: item_codec u64_encode u64_decode "\<lambda>_. True"
  by unfold_locales
    (auto simp: u64_encode_def u64_decode_def read_exact_def and_then_Inr_iff suffix_drop
      split: if_splits dest: strict_prefix_length)

lemmas primitive_codecs [codec_simps] =
  u8.dec_enc [OF TrueI] u16.dec_enc [OF TrueI] u32.dec_enc [OF TrueI] u64.dec_enc [OF TrueI]
  u8.dec_enc_exact [OF TrueI] u16.dec_enc_exact [OF TrueI]
  u32.dec_enc_exact [OF TrueI] u64.dec_enc_exact [OF TrueI]

lemmas primitive_short [codec_simps] =
  u8.dec_short [OF TrueI] u16.dec_short [OF TrueI] u32.dec_short [OF TrueI] u64.dec_short [OF TrueI]

lemma vec_u8_items [codec_simps]: "concat (map u8_encode bs) = bs"
  by (induction bs) (simp_all add: u8_encode_def)

subsection \<open>Two values one after the other\<close>

definition pair_encode :: "('a \<Rightarrow> bytes) \<Rightarrow> ('b \<Rightarrow> bytes) \<Rightarrow> 'a \<times> 'b \<Rightarrow> bytes" where
  "pair_encode enc1 enc2 xy = enc1 (fst xy) @ enc2 (snd xy)"

definition pair_decode ::
  "(bytes \<Rightarrow> ('a \<times> bytes) result) \<Rightarrow> (bytes \<Rightarrow> ('b \<times> bytes) result) \<Rightarrow>
   bytes \<Rightarrow> (('a \<times> 'b) \<times> bytes) result" where
  "pair_decode dec1 dec2 bs =
     and_then (dec1 bs) (\<lambda>(x, bs1). and_then (dec2 bs1) (\<lambda>(y, bs2). Inr ((x, y), bs2)))"

locale codec_pair = left: codec enc1 dec1 ok1 + right: codec enc2 dec2 ok2
  for enc1 :: "'a \<Rightarrow> bytes" and dec1 and ok1 and enc2 :: "'b \<Rightarrow> bytes" and dec2 and ok2

sublocale codec_pair \<subseteq> pair: codec "pair_encode enc1 enc2" "pair_decode dec1 dec2" "\<lambda>(x, y). ok1 x \<and> ok2 y"
proof unfold_locales
  fix xy :: "'a \<times> 'b" and rest
  assume "case xy of (x, y) \<Rightarrow> ok1 x \<and> ok2 y"
  then show "pair_decode dec1 dec2 (pair_encode enc1 enc2 xy @ rest) = Inr (xy, rest)"
    by (auto simp: pair_encode_def pair_decode_def left.dec_enc right.dec_enc)
next
  fix xy :: "'a \<times> 'b" and p
  assume ok: "case xy of (x, y) \<Rightarrow> ok1 x \<and> ok2 y" and "strict_prefix p (pair_encode enc1 enc2 xy)"
  then have "strict_prefix p (enc1 (fst xy) @ enc2 (snd xy))" by (simp add: pair_encode_def)
  then show "pair_decode dec1 dec2 p = Inl (Io UnexpectedEof)"
  proof (cases rule: strict_prefix_append_cases)
    case inside
    with ok show ?thesis by (auto simp: pair_decode_def left.dec_short [OF _ inside])
  next
    case (after q)
    with ok show ?thesis
      by (auto simp: pair_decode_def left.dec_enc right.dec_short [OF _ after(2)])
  qed
next
  fix bs xy rest
  assume "pair_decode dec1 dec2 bs = Inr (xy, rest)"
  then obtain x y bs1 where d1: "dec1 bs = Inr (x, bs1)" and d2: "dec2 bs1 = Inr (y, rest)"
    by (auto simp: pair_decode_def and_then_Inr_iff)
  from left.dec_forward [OF d1] right.dec_forward [OF d2]
  show "suffix rest bs \<and> length rest < length bs" by (auto intro: suffix_order.trans)
qed

subsection \<open>A struct encoded as the tuple of its fields\<close>

locale codec_iso = codec enc dec ok
  for enc :: "'a \<Rightarrow> bytes" and dec and ok +
  fixes pack :: "'a \<Rightarrow> 'b"
    and fields :: "'b \<Rightarrow> 'a"
    and sok :: "'b \<Rightarrow> bool"
    and senc :: "'b \<Rightarrow> bytes"
    and sdec :: "bytes \<Rightarrow> ('b \<times> bytes) result"
  assumes pack_fields: "pack (fields y) = y"
    and sok_fields: "sok y \<Longrightarrow> ok (fields y)"
    and senc_eq: "senc y = enc (fields y)"
    and sdec_eq: "sdec bs = and_then (dec bs) (\<lambda>(x, rest). Inr (pack x, rest))"

sublocale codec_iso \<subseteq> struct: item_codec senc sdec sok
proof unfold_locales
  fix y rest
  assume "sok y"
  then show "sdec (senc y @ rest) = Inr (y, rest)"
    by (simp add: sdec_eq senc_eq dec_enc sok_fields pack_fields)
next
  fix y p
  assume "sok y" "strict_prefix p (senc y)"
  then have "dec p = Inl (Io UnexpectedEof)"
    by (intro dec_short [of "fields y"]) (simp_all add: senc_eq sok_fields)
  then show "sdec p = Inl (Io UnexpectedEof)" by (simp add: sdec_eq)
next
  fix bs y rest
  assume "sdec bs = Inr (y, rest)"
  then obtain x where "dec bs = Inr (x, rest)" by (auto simp: sdec_eq and_then_Inr_iff)
  then show "suffix rest bs \<and> length rest < length bs" by (rule dec_forward)
qed

subsection \<open>Strings\<close>

text \<open>
  The bytes \<open>String::from_utf8\<close> accepts: the well-formed sequences of the Unicode standard
  (no overlong forms, no surrogates, nothing above U+10FFFF).
\<close>

definition utf8_cont :: "byte \<Rightarrow> bool" where
  "utf8_cont b \<longleftrightarrow> 0x80 \<le> b \<and> b \<le> 0xBF"

fun utf8_valid :: "bytes \<Rightarrow> bool" where
  "utf8_valid [] = True"
| "utf8_valid (a # r) =
    (if a \<le> 0x7F then utf8_valid r
     else (case r of
       [] \<Rightarrow> False
     | b # r2 \<Rightarrow>
         (if 0xC2 \<le> a \<and> a \<le> 0xDF then utf8_cont b \<and> utf8_valid r2
          else (case r2 of
            [] \<Rightarrow> False
          | c # r3 \<Rightarrow>
              (if 0xE0 \<le> a \<and> a \<le> 0xEF then
                 utf8_cont b \<and> (a = 0xE0 \<longrightarrow> 0xA0 \<le> b) \<and> (a = 0xED \<longrightarrow> b \<le> 0x9F)
                   \<and> utf8_cont c \<and> utf8_valid r3
               else (case r3 of
                 [] \<Rightarrow> False
               | d # r4 \<Rightarrow>
                   0xF0 \<le> a \<and> a \<le> 0xF4 \<and> utf8_cont b \<and> (a = 0xF0 \<longrightarrow> 0x90 \<le> b)
                     \<and> (a = 0xF4 \<longrightarrow> b \<le> 0x8F) \<and> utf8_cont c \<and> utf8_cont d
                     \<and> utf8_valid r4))))))"

lemma utf8_valid_ascii: "list_all (\<lambda>b. b \<le> 0x7F) bs \<Longrightarrow> utf8_valid bs"
  by (induction bs) auto

definition string_encode :: "bytes \<Rightarrow> bytes" where
  "string_encode s = vec_encode u8_encode s"

definition string_decode :: "bytes \<Rightarrow> (bytes \<times> bytes) result" where
  "string_decode bs =
     and_then (vec_decode u8_decode bs) (\<lambda>(s, rest).
       if utf8_valid s then Inr (s, rest) else Inl ManifestCorrupted)"

interpretation str: codec string_encode string_decode "\<lambda>s. length s < 2 ^ 32 \<and> utf8_valid s"
proof unfold_locales
  fix s rest
  assume "length s < 2 ^ 32 \<and> utf8_valid s"
  then show "string_decode (string_encode s @ rest) = Inr (s, rest)"
    by (simp add: string_decode_def string_encode_def u8.vec.dec_enc list_all_iff)
next
  fix s p
  assume "length s < 2 ^ 32 \<and> utf8_valid s" "strict_prefix p (string_encode s)"
  then have "vec_decode u8_decode p = Inl (Io UnexpectedEof)"
    by (intro u8.vec.dec_short [of s]) (simp_all add: string_encode_def list_all_iff)
  then show "string_decode p = Inl (Io UnexpectedEof)"
    by (simp add: string_decode_def)
next
  fix bs s rest
  assume "string_decode bs = Inr (s, rest)"
  then show "suffix rest bs \<and> length rest < length bs"
    by (auto simp: string_decode_def and_then_Inr_iff split: if_splits dest: u8.vec.dec_forward)
qed

end
