(* ===== verification/Keys.thy ===== *)
theory Keys
  imports Loggable
begin

text \<open>
  The internal key of \<open>src/data_stores/key.rs\<close>: the bytes of the user's key with the log
  sequence number (LSN) of the write, its order and its encoding. The order sorts by bytes
  ascending and, for the same bytes, by LSN descending, so the newest version of a key comes
  first; the type becomes a \<open>linorder\<close> by it.
\<close>

subsection \<open>The key and its order\<close>

datatype key = Key (lsn: u64) (kbytes: bytes)

definition key_new :: "bytes \<Rightarrow> u64 \<Rightarrow> key" where
  "key_new bs l = Key l bs"

definition key_update_lsn :: "key \<Rightarrow> u64 \<Rightarrow> key" where
  "key_update_lsn k l = Key l (kbytes k)"

lemma key_new_sel [simp]: "lsn (key_new bs l) = l" "kbytes (key_new bs l) = bs"
  by (simp_all add: key_new_def)

lemma key_update_lsn_sel [simp]:
  "lsn (key_update_lsn k l) = l" "kbytes (key_update_lsn k l) = kbytes k"
  by (simp_all add: key_update_lsn_def)

text \<open>\<open>std::cmp::Ordering\<close>, and \<open>cmp\<close> of the totally ordered types of the library.\<close>

datatype ordering = Less | Equal | Greater

definition cmp :: "'a::linorder \<Rightarrow> 'a \<Rightarrow> ordering" where
  "cmp x y = (if x < y then Less else if x = y then Equal else Greater)"

definition key_cmp :: "key \<Rightarrow> key \<Rightarrow> ordering" where
  "key_cmp k1 k2 =
     (case cmp (kbytes k1) (kbytes k2) of
        Equal \<Rightarrow> cmp (lsn k2) (lsn k1)
      | other \<Rightarrow> other)"

definition key_partial_cmp :: "key \<Rightarrow> key \<Rightarrow> ordering option" where
  "key_partial_cmp k1 k2 = Some (key_cmp k1 k2)"

definition key_eq :: "key \<Rightarrow> key \<Rightarrow> bool" where
  "key_eq k1 k2 \<longleftrightarrow> kbytes k1 = kbytes k2 \<and> lsn k1 = lsn k2"

lemma key_eq_iff: "key_eq k1 k2 \<longleftrightarrow> k1 = k2"
  by (cases k1; cases k2) (auto simp: key_eq_def)

text \<open>The comparison operators of the language are defined from \<open>partial_cmp\<close>.\<close>

instantiation key :: linorder
begin

definition less_eq_key :: "key \<Rightarrow> key \<Rightarrow> bool" where
  "less_eq_key k1 k2 \<longleftrightarrow> key_partial_cmp k1 k2 \<in> {Some Less, Some Equal}"

definition less_key :: "key \<Rightarrow> key \<Rightarrow> bool" where
  "less_key k1 k2 \<longleftrightarrow> key_partial_cmp k1 k2 = Some Less"

instance
proof
  fix x y z :: key
  show "x < y \<longleftrightarrow> x \<le> y \<and> \<not> y \<le> x" "x \<le> x" "x \<le> y \<or> y \<le> x"
    by (auto simp: less_key_def less_eq_key_def key_partial_cmp_def key_cmp_def cmp_def)
  show "x \<le> y \<Longrightarrow> y \<le> z \<Longrightarrow> x \<le> z" "x \<le> y \<Longrightarrow> y \<le> x \<Longrightarrow> x = y"
    by (auto simp: less_eq_key_def key_partial_cmp_def key_cmp_def cmp_def key.expand split: if_splits)
qed

end

lemma key_le_iff:
  "k1 \<le> k2 \<longleftrightarrow> kbytes k1 < kbytes k2 \<or> kbytes k1 = kbytes k2 \<and> lsn k2 \<le> lsn k1"
  by (auto simp: less_eq_key_def key_partial_cmp_def key_cmp_def cmp_def)

lemma key_less_iff:
  "k1 < k2 \<longleftrightarrow> kbytes k1 < kbytes k2 \<or> kbytes k1 = kbytes k2 \<and> lsn k2 < lsn k1"
  by (auto simp: less_key_def key_partial_cmp_def key_cmp_def cmp_def)

lemma key_cmp_eq_cmp: "key_cmp k1 k2 = cmp k1 k2"
  by (cases k1; cases k2) (auto simp: key_cmp_def cmp_def key_less_iff)

lemma key_le_bytes: "k1 \<le> k2 \<Longrightarrow> kbytes k1 \<le> kbytes k2"
  by (auto simp: key_le_iff)

text \<open>
  The keys between \<open>Key::new(bs, u64::MAX)\<close> and \<open>Key::new(bs, 0)\<close> are exactly the versions
  of \<open>bs\<close>: the range every lookup scans.
\<close>

lemma key_range_iff: "key_new bs (-1) \<le> k \<and> k \<le> key_new bs 0 \<longleftrightarrow> kbytes k = bs"
  by (auto simp: key_le_iff)

lemma key_max_le_iff: "key_new bs (-1) \<le> k \<longleftrightarrow> bs \<le> kbytes k"
  by (auto simp: key_le_iff)

subsection \<open>Encoding\<close>

definition key_encode :: "key \<Rightarrow> bytes" where
  "key_encode k = u64_encode (lsn k) @ u16_encode (of_nat (length (kbytes k))) @ kbytes k"

definition key_decode :: "bytes \<Rightarrow> (key \<times> bytes) result" where
  "key_decode bs =
     and_then (u64_decode bs) (\<lambda>(l, bs1).
     and_then (u16_decode bs1) (\<lambda>(key_len, bs2).
     and_then (read_exact (unat key_len) bs2) (\<lambda>(key_bytes, bs3).
       Inr (Key l key_bytes, bs3))))"

definition key_ok :: "key \<Rightarrow> bool" where
  "key_ok k \<longleftrightarrow> length (kbytes k) < 2 ^ 16"

lemma length_key_encode: "length (key_encode k) = 10 + length (kbytes k)"
  by (simp add: key_encode_def)

text \<open>
  What comes back for any key at all: the length field is \<open>self.bytes.len() as u16\<close>, so only
  the length modulo \<open>2 ^ 16\<close> is written and the bytes beyond it stay in the reader.
\<close>

lemma key_decode_encode_any:
  "key_decode (key_encode k @ rest) =
     (let n = length (kbytes k) mod 2 ^ 16
      in Inr (Key (lsn k) (take n (kbytes k)), drop n (kbytes k) @ rest))"
proof -
  have n: "unat (of_nat (length (kbytes k)) :: u16) = length (kbytes k) mod 2 ^ 16"
    by (simp add: unat_of_nat take_bit_eq_mod)
  moreover have "length (kbytes k) mod 2 ^ 16 \<le> length (kbytes k)" by (rule mod_less_eq_dividend)
  ultimately show ?thesis
    by (simp add: key_decode_def key_encode_def codec_simps read_exact_def Let_def not_less)
qed

lemma key_decode_suffix:
  assumes "key_decode bs = Inr (k, rest)"
  shows "suffix rest bs \<and> length rest + 10 \<le> length bs"
proof -
  let ?n = "unat (from_le (take 2 (drop 8 bs)) :: u16) + 10"
  from assms have "?n \<le> length bs" and "rest = drop ?n bs"
    by (auto simp: key_decode_def u64_decode_def u16_decode_def read_exact_def and_then_Inr_iff
        split: if_splits)
  then show ?thesis by (auto simp: suffix_drop)
qed

interpretation key: item_codec key_encode key_decode key_ok
proof unfold_locales
  fix k rest
  assume "key_ok k"
  then show "key_decode (key_encode k @ rest) = Inr (k, rest)"
    by (simp add: key_decode_encode_any key_ok_def)
next
  fix k p
  assume ok: "key_ok k" and "strict_prefix p (key_encode k)"
  then have "strict_prefix p (u64_encode (lsn k) @ u16_encode (of_nat (length (kbytes k))) @ kbytes k)"
    by (simp add: key_encode_def)
  then show "key_decode p = Inl (Io UnexpectedEof)"
  proof (cases rule: strict_prefix_append_cases)
    case inside
    then show ?thesis by (simp add: key_decode_def u64.dec_short [OF TrueI inside])
  next
    case (after q)
    note q = after
    from q(2) show ?thesis
    proof (cases rule: strict_prefix_append_cases)
      case inside
      with q show ?thesis by (simp add: key_decode_def codec_simps u16.dec_short [OF TrueI inside])
    next
      case (after r)
      with q ok show ?thesis
        by (simp add: key_decode_def codec_simps read_exact_short key_ok_def unat_of_nat_16
            strict_prefix_length)
    qed
  qed
next
  fix bs k rest
  assume "key_decode bs = Inr (k, rest)"
  from key_decode_suffix [OF this] show "suffix rest bs \<and> length rest < length bs" by simp
qed

subsection \<open>Properties\<close>

text \<open>C24: In any collection of internal keys the keys between \<open>(bs, u64::MAX)\<close> and \<open>(bs, 0)\<close> are exactly the
  versions of \<open>bs\<close>, and where the collection is sorted they come with the newest LSN first: why a
  range scan from that bound finds the newest version in its first step.\<close>

theorem key_range_newest_first:
  assumes "sorted ks"
  shows "filter (\<lambda>k. key_new bs (-1) \<le> k \<and> k \<le> key_new bs 0) ks = filter (\<lambda>k. kbytes k = bs) ks
    \<and> sorted_wrt (\<lambda>k k'. lsn k' \<le> lsn k) (filter (\<lambda>k. kbytes k = bs) ks)"
proof
  show "filter (\<lambda>k. key_new bs (-1) \<le> k \<and> k \<le> key_new bs 0) ks = filter (\<lambda>k. kbytes k = bs) ks"
    by (simp only: key_range_iff)
  from assms show "sorted_wrt (\<lambda>k k'. lsn k' \<le> lsn k) (filter (\<lambda>k. kbytes k = bs) ks)"
    by (induction ks) (auto simp: key_le_iff)
qed

theorem key_range_newest_first_witness:
  "filter (\<lambda>k. key_new [2] (-1) \<le> k \<and> k \<le> key_new [2] 0) [Key 9 [1], Key 8 [2], Key 3 [2], Key 1 [2, 0]]
     = [Key 8 [2], Key 3 [2]]"
  using key_range_newest_first [of "[Key 9 [1], Key 8 [2], Key 3 [2], Key 1 [2, 0]]" "[2]"]
  by (simp add: key_le_iff)

text \<open>A key is read back from its encoding as it was, with the reader at the byte behind it, exactly when
  it is shorter than 65536 bytes: the length is written as 16 bits, so of a longer key only the
  length modulo 65536 comes back and its other bytes are taken for what follows.\<close>

theorem key_roundtrip_iff_short:
  "key_decode (key_encode k @ rest) = Inr (k, rest) \<longleftrightarrow> length (kbytes k) < 2 ^ 16"
proof
  assume "key_decode (key_encode k @ rest) = Inr (k, rest)"
  then have "drop (length (kbytes k) mod 2 ^ 16) (kbytes k) @ rest = rest"
    by (simp add: key_decode_encode_any Let_def)
  then have "length (kbytes k) \<le> length (kbytes k) mod 2 ^ 16"
    by (metis append_self_conv2 drop_eq_Nil)
  moreover have "length (kbytes k) mod 2 ^ 16 < 2 ^ 16" by (intro mod_less_divisor) simp
  ultimately show "length (kbytes k) < 2 ^ 16" by (rule order.strict_trans1)
next
  assume "length (kbytes k) < 2 ^ 16"
  then show "key_decode (key_encode k @ rest) = Inr (k, rest)"
    by (intro key.dec_enc) (simp add: key_ok_def)
qed

end
