(* ===== verification/Values.thy ===== *)
theory Values
  imports Keys
begin

text \<open>
  The values of \<open>src/data_stores/value.rs\<close>: bytes, strings, 64-bit integers and the tombstone
  that marks a deletion, with their encoding (a tag byte, a \<open>u32\<close> length, the payload), and
  the codec of a key followed by its value, the record of the WAL and of SSTable blocks.
\<close>

subsection \<open>Values\<close>

text \<open>
  \<open>Arc<str>\<close> holds UTF-8 by Rust's type invariant; here a \<open>Str\<close> carries its bytes and
  \<open>val_ok\<close> states the invariant. An \<open>i64\<close> is its 64 bits; its constructor is
  \<open>Value::Int\<close> of the source.
\<close>

datatype val = Bytes bytes | Str bytes | IntV u64 | Tombstone

definition WAL_ID_TOMBSTONE :: byte where "WAL_ID_TOMBSTONE = push_bit 0 1"
definition WAL_TYPE_BYTES :: byte where "WAL_TYPE_BYTES = push_bit 1 0"
definition WAL_TYPE_STR :: byte where "WAL_TYPE_STR = push_bit 1 1"
definition WAL_TYPE_INT :: byte where "WAL_TYPE_INT = push_bit 1 2"

lemmas wal_tags = WAL_ID_TOMBSTONE_def WAL_TYPE_BYTES_def WAL_TYPE_STR_def WAL_TYPE_INT_def

definition val_new :: "bytes \<Rightarrow> val" where
  "val_new bs = Bytes bs"

definition val_encode :: "val \<Rightarrow> bytes" where
  "val_encode v =
     (case v of
        Bytes b \<Rightarrow> u8_encode WAL_TYPE_BYTES @ vec_encode u8_encode b
      | Str s \<Rightarrow> u8_encode WAL_TYPE_STR @ vec_encode u8_encode s
      | IntV i \<Rightarrow> u8_encode WAL_TYPE_INT @ vec_encode u8_encode (to_le 8 i)
      | Tombstone \<Rightarrow> u8_encode WAL_ID_TOMBSTONE @ vec_encode u8_encode [])"

definition val_decode :: "bytes \<Rightarrow> (val \<times> bytes) result" where
  "val_decode bs =
     and_then (u8_decode bs) (\<lambda>(meta, bs1).
       if meta AND WAL_ID_TOMBSTONE \<noteq> 0 then
         and_then (vec_decode u8_decode bs1) (\<lambda>(_, bs2). Inr (Tombstone, bs2))
       else
         let val_type = meta AND NOT WAL_ID_TOMBSTONE in
         and_then (vec_decode u8_decode bs1) (\<lambda>(val_bytes, bs2).
           if val_type = WAL_TYPE_BYTES then Inr (Bytes val_bytes, bs2)
           else if val_type = WAL_TYPE_STR then
             Inr (Str (if utf8_valid val_bytes then val_bytes else []), bs2)
           else if val_type = WAL_TYPE_INT then
             (if 8 \<le> length val_bytes then Inr (IntV (from_le (take 8 val_bytes)), bs2)
              else Inl ManifestCorrupted)
           else Inl ManifestCorrupted))"

fun val_ok :: "val \<Rightarrow> bool" where
  "val_ok (Bytes b) = (length b < 2 ^ 32)"
| "val_ok (Str s) = (length s < 2 ^ 32 \<and> utf8_valid s)"
| "val_ok (IntV i) = True"
| "val_ok Tombstone = True"

subsection \<open>The codec\<close>

text \<open>The two parts of every encoding: the tag byte and the payload of the vector.\<close>

definition val_tag :: "val \<Rightarrow> byte" where
  "val_tag v = (case v of Bytes _ \<Rightarrow> WAL_TYPE_BYTES | Str _ \<Rightarrow> WAL_TYPE_STR
     | IntV _ \<Rightarrow> WAL_TYPE_INT | Tombstone \<Rightarrow> WAL_ID_TOMBSTONE)"

definition val_payload :: "val \<Rightarrow> bytes" where
  "val_payload v = (case v of Bytes b \<Rightarrow> b | Str s \<Rightarrow> s | IntV i \<Rightarrow> to_le 8 i | Tombstone \<Rightarrow> [])"

lemma val_encode_parts: "val_encode v = u8_encode (val_tag v) @ vec_encode u8_encode (val_payload v)"
  by (cases v) (simp_all add: val_encode_def val_tag_def val_payload_def)

lemma val_payload_ok: "val_ok v \<Longrightarrow> length (val_payload v) < 2 ^ 32 \<and> list_all (\<lambda>_. True) (val_payload v)"
  by (cases v) (simp_all add: val_payload_def list_all_iff)

lemma length_val_encode: "length (val_encode v) = 5 + length (val_payload v)"
  by (simp add: val_encode_parts vec_encode_def codec_simps)

text \<open>Decoding after the payload was read, for any tag byte.\<close>

definition val_of_payload :: "byte \<Rightarrow> bytes \<Rightarrow> val result" where
  "val_of_payload meta payload =
     (if meta AND WAL_ID_TOMBSTONE \<noteq> 0 then Inr Tombstone
      else if meta AND NOT WAL_ID_TOMBSTONE = WAL_TYPE_BYTES then Inr (Bytes payload)
      else if meta AND NOT WAL_ID_TOMBSTONE = WAL_TYPE_STR then
        Inr (Str (if utf8_valid payload then payload else []))
      else if meta AND NOT WAL_ID_TOMBSTONE = WAL_TYPE_INT then
        (if 8 \<le> length payload then Inr (IntV (from_le (take 8 payload))) else Inl ManifestCorrupted)
      else Inl ManifestCorrupted)"

lemma val_decode_parts:
  "val_decode bs =
     and_then (u8_decode bs) (\<lambda>(meta, bs1).
     and_then (vec_decode u8_decode bs1) (\<lambda>(payload, bs2).
     and_then (val_of_payload meta payload) (\<lambda>v. Inr (v, bs2))))"
  unfolding val_decode_def val_of_payload_def Let_def
  by (intro and_then_cong refl) (auto intro!: and_then_cong split: prod.split)

lemma val_of_own_payload: "val_ok v \<Longrightarrow> val_of_payload (val_tag v) (val_payload v) = Inr v"
  by (cases v) (simp_all add: val_of_payload_def val_tag_def val_payload_def wal_tags)

interpretation val: codec val_encode val_decode val_ok
proof unfold_locales
  fix v rest
  assume "val_ok v"
  with val_payload_ok [of v] show "val_decode (val_encode v @ rest) = Inr (v, rest)"
    by (simp add: val_decode_parts val_encode_parts codec_simps u8.vec.dec_enc val_of_own_payload)
next
  fix v p
  assume ok: "val_ok v" and "strict_prefix p (val_encode v)"
  then have "strict_prefix p (u8_encode (val_tag v) @ vec_encode u8_encode (val_payload v))"
    by (simp add: val_encode_parts)
  then show "val_decode p = Inl (Io UnexpectedEof)"
  proof (cases rule: strict_prefix_append_cases)
    case inside
    then show ?thesis by (simp add: val_decode_parts u8.dec_short [OF TrueI inside])
  next
    case (after q)
    with u8.vec.dec_short [OF val_payload_ok [OF ok] after(2)] show ?thesis
      by (simp add: val_decode_parts codec_simps)
  qed
next
  fix bs v rest
  assume "val_decode bs = Inr (v, rest)"
  then obtain meta bs1 payload
    where d1: "u8_decode bs = Inr (meta, bs1)" and d2: "vec_decode u8_decode bs1 = Inr (payload, rest)"
    by (auto simp: val_decode_parts and_then_Inr_iff)
  from u8.dec_forward [OF d1] u8.vec.dec_forward [OF d2]
  show "suffix rest bs \<and> length rest < length bs" by (auto intro: suffix_order.trans)
qed

text \<open>
  A decoded value is never larger than what was read, and its string is UTF-8 whatever the
  bytes were.
\<close>

lemma val_decode_str_utf8: "val_decode bs = Inr (Str s, rest) \<Longrightarrow> utf8_valid s"
  by (auto simp: val_decode_parts and_then_Inr_iff val_of_payload_def split: if_splits)

subsection \<open>Entries: a key and its value\<close>

type_synonym entry = "key \<times> val"

abbreviation entry_ok :: "entry \<Rightarrow> bool" where
  "entry_ok \<equiv> \<lambda>(k, v). key_ok k \<and> val_ok v"

abbreviation entry_encode :: "entry \<Rightarrow> bytes" where
  "entry_encode \<equiv> pair_encode key_encode val_encode"

abbreviation entry_decode :: "bytes \<Rightarrow> (entry \<times> bytes) result" where
  "entry_decode \<equiv> pair_decode key_decode val_decode"

interpretation entry: codec_pair key_encode key_decode key_ok val_encode val_decode val_ok
  by unfold_locales

lemma entry_encode_eq: "entry_encode (k, v) = key_encode k @ val_encode v"
  by (simp add: pair_encode_def)

subsection \<open>Properties\<close>

text \<open>C23: Every value within the size its length field can hold is read back from its encoding with the rest of
  the reader untouched, a value cut at any byte is an unexpected end of file, and two values have
  the same encoding only if they are equal.\<close>

theorem val_roundtrip:
  assumes "val_ok v"
  shows "val_decode (val_encode v @ rest) = Inr (v, rest)
    \<and> (strict_prefix p (val_encode v) \<longrightarrow> val_decode p = Inl (Io UnexpectedEof))
    \<and> (val_ok v' \<and> val_encode v' = val_encode v \<longrightarrow> v' = v)"
  using val.dec_enc [OF assms] val.dec_short [OF assms] val.enc_inj [OF _ assms] by blast

theorem val_roundtrip_witness:
  "val_decode (val_encode (IntV 258) @ [9]) = Inr (IntV 258, [9]) \<and> val_decode [] = Inl (Io UnexpectedEof)"
proof -
  have "strict_prefix [] (val_encode (IntV 258))"
    using val.enc_nonempty [of "IntV 258"] by (simp add: strict_prefix_def)
  with val_roundtrip [of "IntV 258" "[9]" "[]" Tombstone] show ?thesis by simp
qed

text \<open>What decoding makes of bytes that no encoder wrote: an odd tag is a deletion whatever its payload, a
  string that is not UTF-8 becomes the empty string, an integer of fewer than 8 bytes and an
  unknown tag are errors; a decoded string is always UTF-8.\<close>

theorem val_decode_foreign_bytes:
  fixes rest :: bytes
  assumes "length payload < 2 ^ 32"
  defines "d \<equiv> (\<lambda>meta. val_decode (meta # vec_encode u8_encode payload @ rest))"
  shows "(odd meta \<longrightarrow> d meta = Inr (Tombstone, rest))
    \<and> (\<not> utf8_valid payload \<longrightarrow> d WAL_TYPE_STR = Inr (Str [], rest))
    \<and> (length payload < 8 \<longrightarrow> d WAL_TYPE_INT = Inl ManifestCorrupted)
    \<and> (even meta \<and> meta \<notin> {WAL_TYPE_BYTES, WAL_TYPE_STR, WAL_TYPE_INT} \<longrightarrow> d meta = Inl ManifestCorrupted)
    \<and> (\<forall>s. d meta = Inr (Str s, rest) \<longrightarrow> utf8_valid s)"
proof -
  have step: "d m = and_then (val_of_payload m payload) (\<lambda>v. Inr (v, rest))" for m
    using assms(1) u8.vec.dec_enc [of payload rest]
    by (simp add: d_def val_decode_parts u8_decode_def read_exact_def list_all_iff)
  have one: "m AND 1 = (if odd m then 1 else 0)" for m :: byte
    by (simp add: and_one_eq odd_iff_mod_2_eq_one)
  have clear: "m AND NOT 1 = m" if "even m" for m :: byte
  proof (rule bit_eqI)
    fix n
    show "bit (m AND NOT 1) n = bit m n"
      unfolding bit_and_iff using that
      by (cases n) (auto simp: bit_0 bit_not_iff bit_1_iff dest: bit_imp_le_length simp del: not_one_eq)
  qed
  have "m AND - 2 = m" if "even m" for m :: byte
    using clear [OF that] by simp
  then show ?thesis
    unfolding step val_of_payload_def
    by (auto simp: wal_tags one split: if_splits)
qed

theorem val_decode_foreign_bytes_witness:
  "val_decode (1 # vec_encode u8_encode [5] @ [9]) = Inr (Tombstone, [9])
   \<and> val_decode (WAL_TYPE_STR # vec_encode u8_encode [0xFF] @ []) = Inr (Str [], [])"
  using val_decode_foreign_bytes [of "[5]" 1 "[9]"] val_decode_foreign_bytes [of "[0xFF]" 0 "[]"]
  by simp

end
