(* ===== verification/Entries.thy ===== *)
theory Entries
  imports Values
begin

text \<open>
  Sorted runs of entries, the common abstract state of a memtable and of an SSTable: a list of
  entries whose internal keys strictly increase, so the versions of one user key stand next to
  each other, newest first. The theory gives the ordered insert, the newest version of a key
  and the locale \<open>versioned_store\<close>: what a store of versions promises to the code that writes
  to it and reads from it.
\<close>

subsection \<open>Runs and the newest version\<close>

definition run_sorted :: "entry list \<Rightarrow> bool" where
  "run_sorted es \<longleftrightarrow> sorted_wrt (<) (map fst es)"

definition versions :: "bytes \<Rightarrow> entry list \<Rightarrow> entry list" where
  "versions bs es = filter (\<lambda>(k, _). kbytes k = bs) es"

definition latest :: "entry list \<Rightarrow> bytes \<Rightarrow> entry option" where
  "latest es bs = (case versions bs es of [] \<Rightarrow> None | e # _ \<Rightarrow> Some e)"

text \<open>Of two versions of a key the one with the greater LSN; the first one if they are equal.\<close>

fun newer :: "entry option \<Rightarrow> entry option \<Rightarrow> entry option" where
  "newer None b = b"
| "newer a None = a"
| "newer (Some a) (Some b) = (if lsn (fst b) \<le> lsn (fst a) then Some a else Some b)"

lemma newer_None_right [simp]: "newer a None = a"
  by (cases a) auto

lemma newer_assoc: "newer (newer a b) c = newer a (newer b c)"
  by (cases a; cases b; cases c) auto

fun ins_entry :: "key \<Rightarrow> val \<Rightarrow> entry list \<Rightarrow> entry list" where
  "ins_entry k v [] = [(k, v)]"
| "ins_entry k v ((k', v') # es) =
     (if k < k' then (k, v) # (k', v') # es
      else if k = k' then (k, v) # es
      else (k', v') # ins_entry k v es)"

lemma run_sorted_simps [simp]:
  "run_sorted []"
  "run_sorted (e # es) \<longleftrightarrow> (\<forall>e' \<in> set es. fst e < fst e') \<and> run_sorted es"
  by (auto simp: run_sorted_def)

lemma run_sorted_append:
  "run_sorted (es @ es') \<longleftrightarrow> run_sorted es \<and> run_sorted es' \<and> (\<forall>e \<in> set es. \<forall>e' \<in> set es'. fst e < fst e')"
  by (auto simp: run_sorted_def sorted_wrt_append)

lemma set_ins_entry: "set (ins_entry k v es) \<subseteq> insert (k, v) (set es)"
  by (induction k v es rule: ins_entry.induct) auto

lemma run_sorted_ins_entry: "run_sorted es \<Longrightarrow> run_sorted (ins_entry k v es)"
proof (induction k v es rule: ins_entry.induct)
  case (2 k v k' v' es)
  then show ?case using set_ins_entry [of k v es] by (auto dest: order.strict_trans)
qed simp

lemma map_of_ins_entry: "run_sorted es \<Longrightarrow> map_of (ins_entry k v es) = (map_of es)(k \<mapsto> v)"
proof (induction k v es rule: ins_entry.induct)
  case (2 k v k' v' es)
  then show ?case by auto
qed auto

lemma versions_simps [simp]:
  "versions bs [] = []"
  "versions bs (e # es) = (if kbytes (fst e) = bs then e # versions bs es else versions bs es)"
  "versions bs (es @ es') = versions bs es @ versions bs es'"
  by (auto simp: versions_def split: prod.split)

lemma latest_simps [simp]:
  "latest [] bs = None"
  "latest (e # es) bs = (if kbytes (fst e) = bs then Some e else latest es bs)"
  by (auto simp: latest_def)

lemma latest_append: "latest (es @ es') bs = (case latest es bs of None \<Rightarrow> latest es' bs | Some e \<Rightarrow> Some e)"
  by (induction es) auto

lemma latest_SomeD: "latest es bs = Some e \<Longrightarrow> e \<in> set es \<and> kbytes (fst e) = bs"
  by (induction es) (auto split: if_splits)

lemma latest_None_iff: "latest es bs = None \<longleftrightarrow> (\<forall>e \<in> set es. kbytes (fst e) \<noteq> bs)"
  by (induction es) auto

text \<open>In a sorted run the first version of a key is the one with the greatest LSN.\<close>

lemma latest_is_newest:
  assumes "run_sorted es" "latest es bs = Some e" "e' \<in> set es" "kbytes (fst e') = bs"
  shows "lsn (fst e') \<le> lsn (fst e)"
  using assms
  by (induction es) (auto simp: key_less_iff split: if_splits dest: order.strict_implies_order)

lemma newer_first:
  assumes "kbytes k = bs" "\<forall>e \<in> set es. k \<le> fst e"
  shows "newer (Some (k, v)) (latest es bs) = Some (k, v)"
proof (cases "latest es bs")
  case None
  then show ?thesis by simp
next
  case (Some e)
  with assms have "k \<le> fst e" "kbytes (fst e) = kbytes k" by (auto dest: latest_SomeD)
  with Some show ?thesis by (simp add: key_le_iff)
qed

lemma latest_ins_entry:
  "run_sorted es \<Longrightarrow>
   latest (ins_entry k v es) bs = newer (if kbytes k = bs then Some (k, v) else None) (latest es bs)"
proof (induction k v es rule: ins_entry.induct)
  case (1 k v)
  then show ?case by simp
next
  case (2 k v k' v' es)
  consider "k < k'" | "k = k'" | "k' < k" by fastforce
  then show ?case
  proof cases
    case 1
    show ?thesis
    proof (cases "kbytes k = bs")
      case True
      from 1 2(2) have "\<forall>e \<in> set ((k', v') # es). k \<le> fst e" by auto
      with True have "newer (Some (k, v)) (latest ((k', v') # es) bs) = Some (k, v)"
        by (rule newer_first)
      moreover from 1 True have "latest (ins_entry k v ((k', v') # es)) bs = Some (k, v)" by simp
      ultimately show ?thesis using True by (simp only: if_True simp_thms)
    next
      case False
      with 1 show ?thesis by simp
    qed
  next
    case 2
    then show ?thesis by simp
  next
    case 3
    then have "k \<noteq> k'" "\<not> k < k'" and lt: "kbytes k = kbytes k' \<Longrightarrow> lsn k < lsn k'"
      by (auto simp: key_less_iff)
    with 2 show ?thesis by (cases "kbytes k' = bs") auto
  qed
qed

subsection \<open>The contract of a store of versions\<close>

locale versioned_store =
  fixes put :: "key \<Rightarrow> val \<Rightarrow> 's \<Rightarrow> 's"
    and newest :: "'s \<Rightarrow> bytes \<Rightarrow> entry option"
    and wf_store :: "'s \<Rightarrow> bool"
  assumes put_wf: "wf_store s \<Longrightarrow> wf_store (put k v s)"
    and newest_put: "wf_store s \<Longrightarrow>
      newest (put k v s) bs = newer (if kbytes k = bs then Some (k, v) else None) (newest s bs)"
begin

lemma put_all_wf: "wf_store s \<Longrightarrow> wf_store (fold (\<lambda>(k, v). put k v) es s)"
  by (induction es arbitrary: s) (auto simp: put_wf)

lemma newest_put_other: "wf_store s \<Longrightarrow> kbytes k \<noteq> bs \<Longrightarrow> newest (put k v s) bs = newest s bs"
  by (simp add: newest_put)

text \<open>A write with an LSN no smaller than what the store holds is what is read.\<close>

lemma newest_put_same:
  "wf_store s \<Longrightarrow> (\<And>e. newest s (kbytes k) = Some e \<Longrightarrow> lsn (fst e) \<le> lsn k) \<Longrightarrow>
   newest (put k v s) (kbytes k) = Some (k, v)"
  by (cases "newest s (kbytes k)") (auto simp: newest_put)

text \<open>
  A sequence of writes whose LSNs increase, all above the store's: the last write of a key is
  the one that is read, and the other keys keep their version.
\<close>

lemma newest_put_all:
  assumes "wf_store s" and "sorted_wrt (\<lambda>e e'. lsn (fst e) \<le> lsn (fst e')) es"
    and "\<And>e e'. newest s bs = Some e \<Longrightarrow> e' \<in> set es \<Longrightarrow> lsn (fst e) \<le> lsn (fst e')"
  shows "newest (fold (\<lambda>(k, v). put k v) es s) bs =
    (case latest (rev es) bs of Some e \<Rightarrow> Some e | None \<Rightarrow> newest s bs)"
  using assms
proof (induction es rule: rev_induct)
  case Nil
  then show ?case by simp
next
  case (snoc e es)
  then obtain k v where e: "e = (k, v)" by (cases e)
  let ?s = "fold (\<lambda>(k, v). put k v) es s"
  from snoc have IH: "newest ?s bs = (case latest (rev es) bs of Some e \<Rightarrow> Some e | None \<Rightarrow> newest s bs)"
    by (simp add: sorted_wrt_append)
  from snoc.prems have "wf_store ?s" by (simp add: put_all_wf)
  then have put: "newest (put k v ?s) bs = newer (if kbytes k = bs then Some (k, v) else None) (newest ?s bs)"
    by (rule newest_put)
  show ?case
  proof (cases "newest ?s bs")
    case None
    with put IH e show ?thesis by (auto split: option.splits)
  next
    case (Some e')
    with IH have "(\<exists>x. latest (rev es) bs = Some x \<and> x = e') \<or> newest s bs = Some e'"
      by (auto split: option.splits)
    then have "lsn (fst e') \<le> lsn k"
    proof
      assume "\<exists>x. latest (rev es) bs = Some x \<and> x = e'"
      then have "e' \<in> set es" by (auto dest: latest_SomeD)
      with snoc.prems(2) e show ?thesis by (auto simp: sorted_wrt_append)
    next
      assume "newest s bs = Some e'"
      with snoc.prems(3) e show ?thesis by fastforce
    qed
    with put Some IH e show ?thesis by (cases e') auto
  qed
qed

end

text \<open>Sorted runs are such a store.\<close>

interpretation run: versioned_store ins_entry latest run_sorted
  by unfold_locales (simp_all add: run_sorted_ins_entry latest_ins_entry)

end
