(* ===== verification/Memtable.thy ===== *)
theory Memtable
  imports Entries
begin

text \<open>
  The memtable of \<open>src/data_stores/memtable.rs\<close>. Its store, the \<open>SkipMap\<close> of the crate
  \<open>crossbeam_skiplist\<close>, is a parameter: a record of the operations the code calls, with the
  documented behaviour of an ordered map as the predicate \<open>skipmap_ok\<close>. Freezing shares the
  store and changes only the type state, so a frozen memtable is the same record.
\<close>

subsection \<open>The ordered map the memtable is built on\<close>

record 'm skipmap =
  sm_new :: 'm
  sm_insert :: "key \<Rightarrow> val \<Rightarrow> 'm \<Rightarrow> 'm"
  sm_range :: "key \<Rightarrow> key \<Rightarrow> 'm \<Rightarrow> entry list"
  sm_iter :: "'m \<Rightarrow> entry list"

text \<open>
  An ordered map, seen through its iterator: a new one is empty, an insert puts the entry at
  its place in key order and replaces an entry of an equal key, a range is the part of the
  iteration between its inclusive bounds.
\<close>

definition skipmap_ok :: "'m skipmap \<Rightarrow> bool" where
  "skipmap_ok sm \<longleftrightarrow>
     sm_iter sm (sm_new sm) = []
     \<and> (\<forall>k v m. sm_iter sm (sm_insert sm k v m) = ins_entry k v (sm_iter sm m))
     \<and> (\<forall>a b m. sm_range sm a b m = filter (\<lambda>(k, _). a \<le> k \<and> k \<le> b) (sm_iter sm m))"

text \<open>An instance, for evaluation: the sorted association list.\<close>

definition alist_skipmap :: "entry list skipmap" where
  "alist_skipmap =
     \<lparr>sm_new = [], sm_insert = ins_entry,
      sm_range = (\<lambda>a b m. filter (\<lambda>(k, _). a \<le> k \<and> k \<le> b) m), sm_iter = (\<lambda>m. m)\<rparr>"

lemma alist_skipmap_ok [simp]: "skipmap_ok alist_skipmap"
  by (simp add: skipmap_ok_def alist_skipmap_def)

subsection \<open>The memtable\<close>

record 'm memtable =
  store :: 'm
  size_bytes :: nat

definition KEY_HEADER_SIZE :: nat where "KEY_HEADER_SIZE = 10"
definition VALUE_HEADER_SIZE :: nat where "VALUE_HEADER_SIZE = 5"

definition memtable_new :: "'m skipmap \<Rightarrow> 'm memtable" where
  "memtable_new sm = \<lparr>store = sm_new sm, size_bytes = 0\<rparr>"

definition memtable_recover :: "'m skipmap \<Rightarrow> key \<Rightarrow> val \<Rightarrow> 'm memtable \<Rightarrow> 'm memtable" where
  "memtable_recover sm k v m =
     (let k_len = length (kbytes k);
          v_len = (case v of Bytes b \<Rightarrow> length b | Str s \<Rightarrow> length s | IntV _ \<Rightarrow> 8 | Tombstone \<Rightarrow> 0);
          entry_size = KEY_HEADER_SIZE + k_len + VALUE_HEADER_SIZE + v_len
      in m\<lparr>size_bytes := size_bytes m + entry_size, store := sm_insert sm k v (store m)\<rparr>)"

definition memtable_put_batch :: "'m skipmap \<Rightarrow> entry list \<Rightarrow> 'm memtable \<Rightarrow> 'm memtable" where
  "memtable_put_batch sm reqs m = fold (\<lambda>(k, v). memtable_recover sm k v) reqs m"

definition memtable_size :: "'m memtable \<Rightarrow> nat" where
  "memtable_size m = size_bytes m"

definition memtable_freeze :: "'m memtable \<Rightarrow> 'm memtable" where
  "memtable_freeze m = \<lparr>store = store m, size_bytes = size_bytes m\<rparr>"

definition memtable_iter :: "'m skipmap \<Rightarrow> 'm memtable \<Rightarrow> entry list" where
  "memtable_iter sm m = sm_iter sm (store m)"

definition memtable_get :: "'m skipmap \<Rightarrow> 'm memtable \<Rightarrow> bytes \<Rightarrow> val option" where
  "memtable_get sm m key_bytes =
     (case sm_range sm (key_new key_bytes (-1)) (key_new key_bytes 0) (store m) of
        (_, v) # _ \<Rightarrow> (case v of Tombstone \<Rightarrow> None | _ \<Rightarrow> Some v)
      | [] \<Rightarrow> None)"

lemma memtable_freeze_id [simp]: "memtable_freeze m = m"
  by (simp add: memtable_freeze_def)

subsection \<open>Its contents as a run of entries\<close>

definition memtable_ok :: "'m skipmap \<Rightarrow> 'm memtable \<Rightarrow> bool" where
  "memtable_ok sm m \<longleftrightarrow> run_sorted (memtable_iter sm m)"

lemma memtable_iter_new: "skipmap_ok sm \<Longrightarrow> memtable_iter sm (memtable_new sm) = []"
  by (simp add: memtable_iter_def memtable_new_def skipmap_ok_def)

lemma memtable_iter_recover:
  "skipmap_ok sm \<Longrightarrow> memtable_iter sm (memtable_recover sm k v m) = ins_entry k v (memtable_iter sm m)"
  by (simp add: memtable_iter_def memtable_recover_def Let_def skipmap_ok_def)

lemma memtable_iter_put_batch:
  "skipmap_ok sm \<Longrightarrow>
   memtable_iter sm (memtable_put_batch sm es m) = fold (\<lambda>(k, v). ins_entry k v) es (memtable_iter sm m)"
  unfolding memtable_put_batch_def
  by (induction es arbitrary: m) (auto simp: memtable_iter_recover)

lemma memtable_ok_new [simp]: "skipmap_ok sm \<Longrightarrow> memtable_ok sm (memtable_new sm)"
  by (simp add: memtable_ok_def memtable_iter_new)

lemma memtable_ok_recover: "skipmap_ok sm \<Longrightarrow> memtable_ok sm m \<Longrightarrow> memtable_ok sm (memtable_recover sm k v m)"
  by (simp add: memtable_ok_def memtable_iter_recover run_sorted_ins_entry)

lemma memtable_ok_put_batch: "skipmap_ok sm \<Longrightarrow> memtable_ok sm m \<Longrightarrow> memtable_ok sm (memtable_put_batch sm es m)"
  by (simp add: memtable_ok_def memtable_iter_put_batch run.put_all_wf)

text \<open>What a reader sees of a version: a tombstone is "not found".\<close>

fun visible :: "entry option \<Rightarrow> val option" where
  "visible None = None"
| "visible (Some (k, v)) = (if v = Tombstone then None else Some v)"

text \<open>The range scan of \<open>get\<close> finds the newest version.\<close>

lemma memtable_get_latest:
  assumes "skipmap_ok sm"
  shows "memtable_get sm m bs = visible (latest (memtable_iter sm m) bs)"
proof -
  from assms have "sm_range sm (key_new bs (-1)) (key_new bs 0) (store m) = versions bs (memtable_iter sm m)"
    unfolding skipmap_ok_def versions_def memtable_iter_def by (simp only: key_range_iff)
  then show ?thesis
    by (auto simp: memtable_get_def latest_def split: list.split val.split prod.split)
qed

text \<open>The size the memtable adds for an entry is the size of its encoding.\<close>

lemma memtable_size_recover:
  "memtable_size (memtable_recover sm k v m) = memtable_size m + length (entry_encode (k, v))"
  by (cases v) (simp_all add: memtable_size_def memtable_recover_def Let_def entry_encode_eq
      length_key_encode length_val_encode val_payload_def KEY_HEADER_SIZE_def VALUE_HEADER_SIZE_def)

lemma memtable_size_put_batch:
  "memtable_size (memtable_put_batch sm es m) = memtable_size m + length (concat (map entry_encode es))"
  unfolding memtable_put_batch_def
  by (induction es arbitrary: m) (auto simp: memtable_size_recover)

subsection \<open>The memtable is a store of versions\<close>

interpretation memtable: versioned_store "\<lambda>k v m. if skipmap_ok sm then memtable_recover sm k v m else m"
  "\<lambda>m. latest (memtable_iter sm m)" "\<lambda>m. skipmap_ok sm \<and> memtable_ok sm m"
  for sm :: "'m skipmap"
  by unfold_locales
    (auto simp: memtable_iter_recover latest_ins_entry memtable_ok_def run_sorted_ins_entry)

lemma memtable_put_batch_store:
  "skipmap_ok sm \<Longrightarrow> memtable_put_batch sm es m =
     fold (\<lambda>(k, v). (\<lambda>m. if skipmap_ok sm then memtable_recover sm k v m else m)) es m"
  by (simp add: memtable_put_batch_def)

subsection \<open>Properties\<close>

text \<open>C19: After a batch of writes whose LSNs do not decrease and are not below those in the memtable, a lookup
  returns the last write of the key in the batch, nothing if that is a deletion, and for a key the
  batch does not write what it returned before.\<close>

theorem memtable_reads_last_write:
  assumes "skipmap_ok sm" "memtable_ok sm m" "sorted_wrt (\<lambda>e e'. lsn (fst e) \<le> lsn (fst e')) es"
    and "\<forall>e \<in> set (memtable_iter sm m). \<forall>e' \<in> set es. lsn (fst e) \<le> lsn (fst e')"
  shows "memtable_get sm (memtable_put_batch sm es m) key =
    (case latest (rev es) key of Some e \<Rightarrow> visible (Some e) | None \<Rightarrow> memtable_get sm m key)"
proof -
  have "lsn (fst e) \<le> lsn (fst e')" if "latest (memtable_iter sm m) key = Some e" "e' \<in> set es" for e e'
    using assms(4) that by (meson latest_SomeD)
  with memtable.newest_put_all [of sm m es key] assms show ?thesis
    by (simp add: memtable_get_latest memtable_put_batch_store split: option.split)
qed

theorem memtable_reads_last_write_witness:
  "let m = memtable_put_batch alist_skipmap [(Key 1 [1], Bytes [5]), (Key 2 [2], Bytes [6])] (memtable_new alist_skipmap);
       m' = memtable_put_batch alist_skipmap [(Key 3 [1], Bytes [7]), (Key 4 [1], Tombstone)] m
   in memtable_get alist_skipmap m' [1] = None \<and> memtable_get alist_skipmap m' [2] = memtable_get alist_skipmap m [2]"
proof -
  let ?m = "memtable_put_batch alist_skipmap [(Key 1 [1], Bytes [5]), (Key 2 [2], Bytes [6])] (memtable_new alist_skipmap)"
  let ?es = "[(Key 3 [1], Bytes [7]), (Key 4 [1], Tombstone)]"
  have "memtable_ok alist_skipmap ?m" by (simp add: memtable_ok_put_batch)
  moreover have "\<forall>e \<in> set (memtable_iter alist_skipmap ?m). \<forall>e' \<in> set ?es. lsn (fst e) \<le> lsn (fst e')"
    by (simp add: memtable_iter_put_batch memtable_iter_new key_less_iff)
  ultimately show ?thesis
    using memtable_reads_last_write [OF alist_skipmap_ok, of ?m ?es] by (simp add: Let_def)
qed

text \<open>The size a memtable counts, by which it is rotated, is the number of bytes of its entries in the WAL
  without their checksums, so in the blocks of an SSTable; overwritten entries stay counted.\<close>

theorem memtable_size_counts_encoding:
  "memtable_size (memtable_put_batch sm es (memtable_new sm)) = length (concat (map entry_encode es))
   \<and> memtable_size (memtable_freeze m) = memtable_size m"
  by (simp add: memtable_size_put_batch) (simp add: memtable_new_def memtable_size_def)

end
