(* ===== verification/Bloom.thy ===== *)
theory Bloom
  imports Prelude
begin

text \<open>
  The Bloom filter of \<open>src/data_stores/bloom_filter.rs\<close>. The hash function (SipHash of the
  crate \<open>siphasher\<close>) is the parameter \<open>sip\<close>: a key pair and the bytes hashed give a \<open>u64\<close>;
  nothing is assumed of it. Indexing out of the bitmap and \<open>% 0\<close> panic, so every operation
  returns an option. The contract \<open>approx_set\<close> says what SSTables rely on: no operation panics
  on a well-formed filter and no key that was set is ever reported absent.
\<close>

subsection \<open>The filter\<close>

record bloom =
  bitmap :: "u64 list"
  bitmap_bits :: u64
  k_num :: u32
  sip_keys :: "(u64 \<times> u64) \<times> (u64 \<times> u64)"

text \<open>
  \<open>BloomFilter::new\<close> computes \<open>num_bits\<close> and \<open>k_num\<close> with \<open>f64\<close> arithmetic from the number of
  items and the false-positive rate; here both are arguments, and the rest of the constructor
  follows the code. The only call in the code is \<open>new(1000, 0.01)\<close>, whose \<open>num_bits\<close> is
  the ceiling of 9585.06 and whose \<open>k_num\<close> is the ceiling of 6.64.
\<close>

definition bloom_new :: "u64 \<Rightarrow> u32 \<Rightarrow> bloom" where
  "bloom_new num_bits k =
     \<lparr>bitmap = replicate (unat ((num_bits + 63) div 64)) 0,
      bitmap_bits = num_bits,
      k_num = k,
      sip_keys = ((0x5068486940525249, 0x1234567890ABCDEF),
                  (0xFEDCBA0987654321, 0x1029384756102938))\<rparr>"

definition bloom_new_1000 :: bloom where
  "bloom_new_1000 = bloom_new 9586 7"

definition hash_kernel :: "(u64 \<times> u64 \<Rightarrow> bytes \<Rightarrow> u64) \<Rightarrow> bloom \<Rightarrow> bytes \<Rightarrow> u64 \<times> u64" where
  "hash_kernel sip b key = (sip (fst (sip_keys b)) key, sip (snd (sip_keys b)) key)"

definition bloom_set_bit :: "u64 \<Rightarrow> bloom \<Rightarrow> bloom option" where
  "bloom_set_bit idx b =
     (let word_idx = unat (idx div 64); bit_idx = unat (idx mod 64) in
      if word_idx < length (bitmap b)
      then Some (b\<lparr>bitmap := (bitmap b)[word_idx := bitmap b ! word_idx OR push_bit bit_idx 1]\<rparr>)
      else None)"

definition bloom_get_bit :: "bloom \<Rightarrow> u64 \<Rightarrow> bool option" where
  "bloom_get_bit b idx =
     (let word_idx = unat (idx div 64); bit_idx = unat (idx mod 64) in
      if word_idx < length (bitmap b)
      then Some (bitmap b ! word_idx AND push_bit bit_idx 1 \<noteq> 0)
      else None)"

definition bloom_idx :: "bloom \<Rightarrow> u64 \<times> u64 \<Rightarrow> nat \<Rightarrow> u64 option" where
  "bloom_idx b h i =
     (if bitmap_bits b = 0 then None
      else Some ((fst h + of_nat i * snd h) mod bitmap_bits b))"

definition bloom_set :: "(u64 \<times> u64 \<Rightarrow> bytes \<Rightarrow> u64) \<Rightarrow> bytes \<Rightarrow> bloom \<Rightarrow> bloom option" where
  "bloom_set sip key b =
     (let h = hash_kernel sip b key in
      ofold (\<lambda>i b. Option.bind (bloom_idx b h i) (\<lambda>idx. bloom_set_bit idx b)) [0..<unat (k_num b)] b)"

fun bloom_check_loop :: "bloom \<Rightarrow> u64 \<times> u64 \<Rightarrow> nat list \<Rightarrow> bool option" where
  "bloom_check_loop b h [] = Some True"
| "bloom_check_loop b h (i # is) =
     Option.bind (bloom_idx b h i) (\<lambda>idx.
     Option.bind (bloom_get_bit b idx) (\<lambda>set. if \<not> set then Some False else bloom_check_loop b h is))"

definition bloom_check :: "(u64 \<times> u64 \<Rightarrow> bytes \<Rightarrow> u64) \<Rightarrow> bloom \<Rightarrow> bytes \<Rightarrow> bool option" where
  "bloom_check sip b key = bloom_check_loop b (hash_kernel sip b key) [0..<unat (k_num b)]"

subsection \<open>The contract of a set with one-sided errors\<close>

locale approx_set =
  fixes insert :: "'k \<Rightarrow> 's \<Rightarrow> 's option"
    and check :: "'s \<Rightarrow> 'k \<Rightarrow> bool option"
    and invar :: "'s \<Rightarrow> bool"
  assumes insert_ok: "invar s \<Longrightarrow> \<exists>s'. insert k s = Some s' \<and> invar s'"
    and check_ok: "invar s \<Longrightarrow> \<exists>r. check s k = Some r"
    and check_insert: "invar s \<Longrightarrow> insert k s = Some s' \<Longrightarrow> check s' k = Some True"
    and check_mono: "invar s \<Longrightarrow> insert k s = Some s' \<Longrightarrow> check s k' = Some True \<Longrightarrow> check s' k' = Some True"
begin

lemma insert_wf: "invar s \<Longrightarrow> insert k s = Some s' \<Longrightarrow> invar s'"
  using insert_ok [of s k] by auto

lemma insert_all_ok: "invar s \<Longrightarrow> \<exists>s'. ofold insert ks s = Some s' \<and> invar s'"
  by (rule ofold_invariant) (auto intro: insert_ok)

lemma insert_all_mono:
  "invar s \<Longrightarrow> ofold insert ks s = Some s' \<Longrightarrow> check s k = Some True \<Longrightarrow> check s' k = Some True"
proof (induction ks arbitrary: s)
  case Nil
  then show ?case by simp
next
  case (Cons x xs)
  then obtain s1 where s1: "insert x s = Some s1" "ofold insert xs s1 = Some s'"
    by (auto simp: bind_eq_Some_conv)
  with Cons show ?case by (metis insert_wf check_mono)
qed

lemma no_false_negative:
  "invar s \<Longrightarrow> ofold insert ks s = Some s' \<Longrightarrow> k \<in> set ks \<Longrightarrow> check s' k = Some True"
proof (induction ks arbitrary: s)
  case Nil
  then show ?case by simp
next
  case (Cons x xs)
  then obtain s1 where s1: "insert x s = Some s1" "ofold insert xs s1 = Some s'"
    by (auto simp: bind_eq_Some_conv)
  show ?case
  proof (cases "k = x")
    case True
    with Cons.prems(1) s1 show ?thesis by (metis insert_wf check_insert insert_all_mono)
  next
    case False
    with Cons s1 show ?thesis by (auto intro: Cons.IH insert_wf)
  qed
qed

end

subsection \<open>The Bloom filter satisfies it\<close>

definition bloom_ok :: "bloom \<Rightarrow> bool" where
  "bloom_ok b \<longleftrightarrow> 0 < bitmap_bits b \<and> unat (bitmap_bits b) \<le> 64 * length (bitmap b)"

lemma bloom_new_1000_ok: "bloom_ok bloom_new_1000"
  by (simp add: bloom_ok_def bloom_new_1000_def bloom_new_def)

lemma bloom_idx_ok:
  assumes "bloom_ok b"
  shows "\<exists>idx. bloom_idx b h i = Some idx \<and> unat (idx div 64) < length (bitmap b)"
proof -
  let ?idx = "(fst h + of_nat i * snd h) mod bitmap_bits b"
  from assms have pos: "0 < unat (bitmap_bits b)" by (auto simp: bloom_ok_def word_less_nat_alt)
  then have "unat ?idx < unat (bitmap_bits b)" by (simp add: unat_mod)
  with assms have "unat ?idx < 64 * length (bitmap b)" by (simp add: bloom_ok_def)
  then have "unat (?idx div 64) < length (bitmap b)" by (simp add: unat_div)
  with assms show ?thesis by (auto simp: bloom_idx_def bloom_ok_def word_neq_0_conv)
qed

lemma get_bit_iff: "bloom_get_bit b idx = Some r \<longleftrightarrow>
    unat (idx div 64) < length (bitmap b) \<and> r = bit (bitmap b ! unat (idx div 64)) (unat (idx mod 64))"
  by (auto simp: bloom_get_bit_def Let_def and_exp_eq_0_iff_not_bit)

lemma bloom_set_bit_frame:
  assumes "bloom_set_bit idx b = Some b'"
  shows "bitmap_bits b' = bitmap_bits b \<and> k_num b' = k_num b \<and> sip_keys b' = sip_keys b
    \<and> length (bitmap b') = length (bitmap b)"
  using assms by (auto simp: bloom_set_bit_def Let_def split: if_splits)

lemma bloom_get_set_bit:
  assumes "bloom_set_bit idx b = Some b'"
  shows "bloom_get_bit b' idx = Some True"
    and "bloom_get_bit b idx' = Some True \<Longrightarrow> bloom_get_bit b' idx' = Some True"
proof -
  have mod64: "unat (i mod 64) < 64" for i :: u64
    by (simp add: unat_mod)
  from assms show "bloom_get_bit b' idx = Some True"
    using mod64 [of idx]
    by (auto simp: bloom_set_bit_def get_bit_iff Let_def bit_or_iff bit_exp_iff split: if_splits)
  from assms show "bloom_get_bit b idx' = Some True \<Longrightarrow> bloom_get_bit b' idx' = Some True"
    by (auto simp: bloom_set_bit_def get_bit_iff Let_def bit_or_iff nth_list_update split: if_splits)
qed

lemma bloom_check_loop_iff:
  assumes "bloom_ok b"
  shows "bloom_check_loop b h is =
    Some (\<forall>i \<in> set is. Option.bind (bloom_idx b h i) (bloom_get_bit b) = Some True)"
proof (induction "is")
  case Nil
  show ?case by simp
next
  case (Cons i "is")
  from bloom_idx_ok [OF assms, of h i] obtain idx where
    "bloom_idx b h i = Some idx" "unat (idx div 64) < length (bitmap b)" by blast
  with Cons show ?case by (auto simp: bloom_get_bit_def Let_def)
qed

lemma bloom_idx_frame: "bitmap_bits b' = bitmap_bits b \<Longrightarrow> bloom_idx b' h i = bloom_idx b h i"
  by (simp add: bloom_idx_def)

text \<open>One pass of the loop of \<open>set\<close>: no panic, the frame, and the bits it leaves set.\<close>

abbreviation bloom_set_body :: "u64 \<times> u64 \<Rightarrow> nat \<Rightarrow> bloom \<Rightarrow> bloom option" where
  "bloom_set_body h \<equiv> (\<lambda>i b. Option.bind (bloom_idx b h i) (\<lambda>idx. bloom_set_bit idx b))"

definition bloom_set_post :: "u64 \<times> u64 \<Rightarrow> nat list \<Rightarrow> bloom \<Rightarrow> bloom \<Rightarrow> bool" where
  "bloom_set_post h is b b' \<longleftrightarrow>
     bloom_ok b' \<and> bitmap_bits b' = bitmap_bits b \<and> k_num b' = k_num b \<and> sip_keys b' = sip_keys b
     \<and> (\<forall>i \<in> set is. Option.bind (bloom_idx b h i) (bloom_get_bit b') = Some True)
     \<and> (\<forall>idx. bloom_get_bit b idx = Some True \<longrightarrow> bloom_get_bit b' idx = Some True)"

lemma bloom_set_post_Cons:
  assumes idx: "bloom_idx b h i = Some idx" and b1: "bloom_set_bit idx b = Some b1"
    and post: "bloom_set_post h is b1 b'"
  shows "bloom_set_post h (i # is) b b'"
proof -
  note frame = bloom_set_bit_frame [OF b1] and bits = bloom_get_set_bit [OF b1]
  from frame have same: "bloom_idx b1 h j = bloom_idx b h j" for j by (intro bloom_idx_frame) simp
  from post have mono: "bloom_get_bit b' j = Some True" if "bloom_get_bit b1 j = Some True" for j
    using that by (simp add: bloom_set_post_def)
  have "Option.bind (bloom_idx b h j) (bloom_get_bit b') = Some True" if "j \<in> set (i # is)" for j
    using that post idx mono [OF bits(1)] by (auto simp: bloom_set_post_def same)
  moreover have "bloom_get_bit b' j = Some True" if "bloom_get_bit b j = Some True" for j
    by (rule mono, rule bits(2), rule that)
  ultimately show ?thesis using post frame unfolding bloom_set_post_def by metis
qed

lemma bloom_set_loop:
  "bloom_ok b \<Longrightarrow> \<exists>b'. ofold (bloom_set_body h) is b = Some b' \<and> bloom_set_post h is b b'"
proof (induction "is" arbitrary: b)
  case Nil
  then show ?case by (simp add: bloom_set_post_def)
next
  case (Cons i "is")
  from bloom_idx_ok [OF Cons.prems, of h i] obtain idx where
    idx: "bloom_idx b h i = Some idx" "unat (idx div 64) < length (bitmap b)" by blast
  then obtain b1 where b1: "bloom_set_bit idx b = Some b1" by (auto simp: bloom_set_bit_def Let_def)
  from bloom_set_bit_frame [OF b1] Cons.prems have "bloom_ok b1" by (simp add: bloom_ok_def)
  from Cons.IH [OF this] obtain b' where
    b': "ofold (bloom_set_body h) is b1 = Some b'" "bloom_set_post h is b1 b'" by blast
  from bloom_set_post_Cons [OF idx(1) b1 b'(2)] b'(1) idx(1) b1 show ?case by simp
qed

lemma bloom_set_post:
  assumes "bloom_ok b" and "bloom_set sip k b = Some b'"
  shows "bloom_set_post (hash_kernel sip b k) [0..<unat (k_num b)] b b'"
proof -
  from bloom_set_loop [OF assms(1)] obtain b1 where
    "ofold (bloom_set_body (hash_kernel sip b k)) [0..<unat (k_num b)] b = Some b1"
    "bloom_set_post (hash_kernel sip b k) [0..<unat (k_num b)] b b1" by blast
  with assms(2) show ?thesis by (simp add: bloom_set_def Let_def)
qed

interpretation bloom: approx_set "bloom_set sip" "bloom_check sip" bloom_ok
  for sip :: "u64 \<times> u64 \<Rightarrow> bytes \<Rightarrow> u64"
proof unfold_locales
  fix b k
  assume ok: "bloom_ok b"
  let ?h = "hash_kernel sip b k" and ?is = "[0..<unat (k_num b)]"
  from bloom_set_loop [OF ok, of ?h ?is] show "\<exists>b'. bloom_set sip k b = Some b' \<and> bloom_ok b'"
    by (auto simp: bloom_set_def bloom_set_post_def Let_def)
  from ok show "\<exists>r. bloom_check sip b k = Some r"
    by (simp add: bloom_check_def bloom_check_loop_iff)
next
  fix b b' k
  assume ok: "bloom_ok b" and set: "bloom_set sip k b = Some b'"
  let ?h = "hash_kernel sip b k" and ?is = "[0..<unat (k_num b)]"
  from bloom_set_post [OF ok set] have b':
    "bloom_ok b'" "bitmap_bits b' = bitmap_bits b" "k_num b' = k_num b" "sip_keys b' = sip_keys b"
    "\<forall>i \<in> set ?is. Option.bind (bloom_idx b ?h i) (bloom_get_bit b') = Some True"
    "\<forall>idx. bloom_get_bit b idx = Some True \<longrightarrow> bloom_get_bit b' idx = Some True"
    unfolding bloom_set_post_def by simp_all
  from b' have same: "hash_kernel sip b' k' = hash_kernel sip b k'"
    "bloom_idx b' h i = bloom_idx b h i" for k' h i
    by (simp_all add: hash_kernel_def bloom_idx_def)
  from b'(5) show "bloom_check sip b' k = Some True"
    unfolding bloom_check_def bloom_check_loop_iff [OF b'(1)] same b'(3) by simp
  fix k'
  assume "bloom_check sip b k' = Some True"
  then have "\<forall>i \<in> set ?is. Option.bind (bloom_idx b (hash_kernel sip b k') i) (bloom_get_bit b) = Some True"
    unfolding bloom_check_def bloom_check_loop_iff [OF ok] by simp
  then have "\<forall>i \<in> set ?is. Option.bind (bloom_idx b (hash_kernel sip b k') i) (bloom_get_bit b') = Some True"
    using b'(6) unfolding bind_eq_Some_conv by blast
  then show "bloom_check sip b' k' = Some True"
    unfolding bloom_check_def bloom_check_loop_iff [OF b'(1)] same b'(3) by simp
qed

lemma bloom_set_length: "bloom_set sip k b = Some b' \<Longrightarrow> length (bitmap b') = length (bitmap b)"
  unfolding bloom_set_def Let_def
  by (rule ofold_preserves [where P = "\<lambda>b'. length (bitmap b') = length (bitmap b)"])
    (auto simp: bind_eq_Some_conv dest: bloom_set_bit_frame)

lemma bloom_set_all_length:
  "ofold (bloom_set sip) ks b = Some b' \<Longrightarrow> length (bitmap b') = length (bitmap b)"
  by (rule ofold_preserves [where P = "\<lambda>b'. length (bitmap b') = length (bitmap b)"])
    (auto dest: bloom_set_length)

subsection \<open>Properties\<close>

text \<open>C22: The filter of an SSTable never reports a key absent that was put into it, for any hash function, and
  neither building it nor asking it ever indexes outside the bitmap or divides by zero.\<close>

theorem bloom_no_false_negative:
  "\<exists>b. ofold (bloom_set sip) ks bloom_new_1000 = Some b \<and> (\<forall>k. \<exists>r. bloom_check sip b k = Some r)
    \<and> (\<forall>k \<in> set ks. bloom_check sip b k = Some True)"
proof -
  from bloom.insert_all_ok [OF bloom_new_1000_ok] obtain b where
    b: "ofold (bloom_set sip) ks bloom_new_1000 = Some b" "bloom_ok b" by blast
  have "bloom_check sip b k = Some True" if "k \<in> set ks" for k
    using bloom.no_false_negative [OF bloom_new_1000_ok b(1) that] .
  with b bloom.check_ok [OF b(2)] show ?thesis by blast
qed

theorem bloom_no_false_negative_witness:
  "\<exists>b. ofold (bloom_set (\<lambda>_ bs. of_nat (length bs))) [[1], [2, 3]] bloom_new_1000 = Some b
     \<and> bloom_check (\<lambda>_ bs. of_nat (length bs)) b [2, 3] = Some True"
  using bloom_no_false_negative [of "\<lambda>_ bs. of_nat (length bs)" "[[1], [2, 3]]"] by auto

end
