(* ===== verification/Files.thy ===== *)
theory Files
  imports Prelude
begin

text \<open>
  The part of the file system the code uses, and the names of its files. A directory maps names
  to inodes and inodes hold bytes, so an open handle (an inode) still sees its file after the
  name was removed, and sees a truncation made through the name: what \<open>File::create\<close>,
  \<open>OpenOptions\<close>, \<open>fs::rename\<close> and \<open>fs::remove_file\<close> of the standard library do on Unix. File
  names are strings, made by \<open>format!("{:05}...")\<close> and read back by \<open>str::parse\<close>.
\<close>

subsection \<open>Directory, inodes and handles\<close>

type_synonym inode = nat

record fs =
  names :: "(string \<times> inode) list"
  data :: "inode \<Rightarrow> bytes"
  next_inode :: inode

definition fs_empty :: fs where
  "fs_empty = \<lparr>names = [], data = (\<lambda>_. []), next_inode = 0\<rparr>"

definition fs_lookup :: "fs \<Rightarrow> string \<Rightarrow> inode option" where
  "fs_lookup f nm = map_of (names f) nm"

definition fs_read :: "fs \<Rightarrow> string \<Rightarrow> bytes option" where
  "fs_read f nm = map_option (data f) (fs_lookup f nm)"

definition fs_set :: "fs \<Rightarrow> inode \<Rightarrow> bytes \<Rightarrow> fs" where
  "fs_set f i bs = f\<lparr>data := (data f)(i := bs)\<rparr>"

definition fs_append :: "fs \<Rightarrow> inode \<Rightarrow> bytes \<Rightarrow> fs" where
  "fs_append f i bs = fs_set f i (data f i @ bs)"

definition fs_alloc :: "fs \<Rightarrow> string \<Rightarrow> inode \<times> fs" where
  "fs_alloc f nm =
     (next_inode f,
      f\<lparr>names := names f @ [(nm, next_inode f)],
        data := (data f)(next_inode f := []),
        next_inode := Suc (next_inode f)\<rparr>)"

text \<open>\<open>OpenOptions::new().create(true).append(true)\<close>: the file as it is, or a new empty one.\<close>

definition fs_open_append :: "fs \<Rightarrow> string \<Rightarrow> inode \<times> fs" where
  "fs_open_append f nm = (case fs_lookup f nm of Some i \<Rightarrow> (i, f) | None \<Rightarrow> fs_alloc f nm)"

text \<open>\<open>File::create\<close>: an existing file is truncated, in place.\<close>

definition fs_create :: "fs \<Rightarrow> string \<Rightarrow> inode \<times> fs" where
  "fs_create f nm = (case fs_lookup f nm of Some i \<Rightarrow> (i, fs_set f i []) | None \<Rightarrow> fs_alloc f nm)"

definition fs_remove :: "fs \<Rightarrow> string \<Rightarrow> fs" where
  "fs_remove f nm = f\<lparr>names := filter (\<lambda>(n, _). n \<noteq> nm) (names f)\<rparr>"

text \<open>\<open>fs::rename\<close> replaces the target if there is one; a missing source is an error.\<close>

definition fs_rename :: "fs \<Rightarrow> string \<Rightarrow> string \<Rightarrow> fs result" where
  "fs_rename f a b =
     (case fs_lookup f a of
        None \<Rightarrow> Inl (Io NotFound)
      | Some i \<Rightarrow> Inr (f\<lparr>names := filter (\<lambda>(n, _). n \<noteq> a \<and> n \<noteq> b) (names f) @ [(b, i)]\<rparr>))"

definition fs_wf :: "fs \<Rightarrow> bool" where
  "fs_wf f \<longleftrightarrow> distinct (map fst (names f)) \<and> distinct (map snd (names f))
     \<and> (\<forall>i \<in> set (map snd (names f)). i < next_inode f)"

lemma fs_wf_empty [simp]: "fs_wf fs_empty"
  by (simp add: fs_wf_def fs_empty_def)

lemma fs_wf_set [simp]: "fs_wf (fs_set f i bs) \<longleftrightarrow> fs_wf f"
  by (simp add: fs_wf_def fs_set_def)

lemma fs_lookup_set [simp]: "fs_lookup (fs_set f i bs) nm = fs_lookup f nm"
  by (simp add: fs_lookup_def fs_set_def)

lemma data_fs_set [simp]: "data (fs_set f i bs) j = (if j = i then bs else data f j)"
  by (simp add: fs_set_def)

lemma fs_lookup_less: "fs_wf f \<Longrightarrow> fs_lookup f nm = Some i \<Longrightarrow> i < next_inode f"
  by (auto simp: fs_wf_def fs_lookup_def dest!: map_of_SomeD)

lemma fs_lookup_inj:
  assumes "fs_wf f" "fs_lookup f a = Some i" "fs_lookup f b = Some i"
  shows "a = b"
proof -
  from assms have "(a, i) \<in> set (names f)" "(b, i) \<in> set (names f)" "distinct (map snd (names f))"
    by (auto simp: fs_lookup_def fs_wf_def dest: map_of_SomeD)
  then have "(a, i) = (b, i)"
    by (intro inj_onD [of snd "set (names f)"]) (auto simp: distinct_map)
  then show ?thesis by simp
qed

lemma fs_lookup_alloc:
  assumes "fs_lookup f nm = None" and "fs_alloc f nm = (i, f')"
  shows "fs_lookup f' nm' = (if nm' = nm then Some i else fs_lookup f nm')"
  using assms by (auto simp: fs_alloc_def fs_lookup_def map_add_def split: option.splits)

lemma fs_wf_alloc:
  assumes "fs_wf f" "fs_lookup f nm = None" "fs_alloc f nm = (i, f')"
  shows "fs_wf f'"
proof -
  from assms have f': "names f' = names f @ [(nm, next_inode f)]" "next_inode f' = Suc (next_inode f)"
    by (auto simp: fs_alloc_def)
  from assms(1) have lt: "\<forall>j \<in> snd ` set (names f). j < next_inode f" by (auto simp: fs_wf_def)
  then have "next_inode f \<notin> snd ` set (names f)" by blast
  moreover from lt have "\<forall>j \<in> snd ` set (names f). j < Suc (next_inode f)" by auto
  moreover from assms(2) have "nm \<notin> fst ` set (names f)"
    by (simp add: fs_lookup_def map_of_eq_None_iff)
  ultimately show ?thesis using assms(1) by (simp add: fs_wf_def f')
qed

lemma fs_create_lookup:
  assumes "fs_create f nm = (i, f')"
  shows "fs_lookup f' nm' = (if nm' = nm then Some i else fs_lookup f nm')"
  using assms by (auto simp: fs_create_def fs_lookup_alloc split: option.splits)

lemma fs_create_wf: "fs_wf f \<Longrightarrow> fs_create f nm = (i, f') \<Longrightarrow> fs_wf f'"
  by (auto simp: fs_create_def fs_wf_alloc split: option.splits)

lemma fs_create_data:
  assumes "fs_create f nm = (i, f')"
  shows "data f' i = []" and "j \<noteq> i \<Longrightarrow> data f' j = data f j"
  using assms by (auto simp: fs_create_def fs_alloc_def split: option.splits)

lemma fs_create_other:
  assumes "fs_wf f" "fs_create f nm = (i, f')" "nm' \<noteq> nm"
  shows "fs_read f' nm' = fs_read f nm'"
proof -
  have "j \<noteq> i" if "fs_lookup f nm' = Some j" for j
    using assms that fs_lookup_less [OF assms(1) that] fs_lookup_inj [OF assms(1) that, of nm]
    by (auto simp: fs_create_def fs_alloc_def split: option.splits)
  with assms show ?thesis
    by (cases "fs_lookup f nm'") (simp_all add: fs_read_def fs_create_lookup fs_create_data)
qed

lemma fs_lookup_remove: "fs_lookup (fs_remove f nm) nm' = (if nm' = nm then None else fs_lookup f nm')"
proof -
  have "map_of (filter (\<lambda>(n, _). n \<noteq> nm) xs) nm' = (if nm' = nm then None else map_of xs nm')"
    for xs :: "(string \<times> inode) list"
    by (induction xs) auto
  then show ?thesis by (simp add: fs_lookup_def fs_remove_def)
qed

lemma fs_read_remove: "fs_read (fs_remove f nm) nm' = (if nm' = nm then None else fs_read f nm')"
  by (simp add: fs_read_def fs_lookup_remove) (simp add: fs_remove_def)

lemma names_remove: "set (map fst (names (fs_remove f nm))) = set (map fst (names f)) - {nm}"
  by (auto simp: fs_remove_def)

lemma fs_wf_remove: "fs_wf f \<Longrightarrow> fs_wf (fs_remove f nm)"
  by (auto simp: fs_wf_def fs_remove_def distinct_map_filter)

lemma fs_create_inode_other:
  assumes "fs_wf f" "fs_create f nm = (i, f')" "nm' \<noteq> nm" "fs_lookup f' nm' = Some j"
  shows "j \<noteq> i"
  using assms fs_lookup_inj [OF fs_create_wf [OF assms(1,2)], of nm' j nm]
  by (auto simp: fs_create_lookup)

text \<open>A file created and written.\<close>

definition fs_put :: "fs \<Rightarrow> string \<Rightarrow> bytes \<Rightarrow> fs" where
  "fs_put f nm bs = (let (i, f1) = fs_create f nm in fs_set f1 i bs)"

lemma fs_put_read:
  assumes "fs_wf f"
  shows "fs_read (fs_put f nm bs) nm' = (if nm' = nm then Some bs else fs_read f nm')"
proof (cases "fs_create f nm")
  case (Pair i f1)
  show ?thesis
  proof (cases "nm' = nm")
    case True
    then show ?thesis by (simp add: fs_put_def Pair fs_read_def fs_create_lookup [OF Pair])
  next
    case False
    have "fs_read (fs_set f1 i bs) nm' = fs_read f1 nm'"
      using fs_create_inode_other [OF assms Pair False]
      by (cases "fs_lookup f1 nm'") (auto simp: fs_read_def)
    with False fs_create_other [OF assms Pair False] Pair show ?thesis by (simp add: fs_put_def)
  qed
qed

lemma fs_put_data_other:
  assumes "j < next_inode f" "fs_lookup f nm \<noteq> Some j"
  shows "data (fs_put f nm bs) j = data f j"
  using assms by (cases "fs_lookup f nm") (simp_all add: fs_put_def fs_create_def fs_alloc_def)

lemma fs_put_next_inode: "next_inode f \<le> next_inode (fs_put f nm bs)"
  by (simp add: fs_put_def fs_create_def fs_alloc_def fs_set_def split: option.split)

lemma fs_put_lookup:
  "fs_lookup (fs_put f nm bs) nm' = (if nm' = nm then Some (fst (fs_create f nm)) else fs_lookup f nm')"
  by (cases "fs_create f nm") (simp add: fs_put_def fs_create_lookup)

lemma fs_put_wf: "fs_wf f \<Longrightarrow> fs_wf (fs_put f nm bs)"
  by (cases "fs_create f nm") (simp add: fs_put_def fs_create_wf)

lemma fs_rename_lookup:
  assumes "fs_rename f a b = Inr f'" "a \<noteq> b"
  shows "fs_lookup f' nm = (if nm = b then fs_lookup f a else if nm = a then None else fs_lookup f nm)"
proof -
  have "map_of (filter (\<lambda>(n, _). n \<noteq> a \<and> n \<noteq> b) xs) nm = (if nm = a \<or> nm = b then None else map_of xs nm)"
    for xs :: "(string \<times> inode) list"
    by (induction xs) auto
  with assms show ?thesis
    by (auto simp: fs_rename_def fs_lookup_def map_add_def split: option.splits)
qed

lemma fs_rename_data: "fs_rename f a b = Inr f' \<Longrightarrow> data f' = data f"
  by (auto simp: fs_rename_def split: option.splits)

lemma fs_rename_read:
  assumes "fs_rename f a b = Inr f'" "a \<noteq> b"
  shows "fs_read f' nm = (if nm = b then fs_read f a else if nm = a then None else fs_read f nm)"
  by (simp add: fs_read_def fs_rename_lookup [OF assms] fs_rename_data [OF assms(1)])

lemma fs_rename_wf:
  assumes "fs_wf f" "fs_rename f a b = Inr f'"
  shows "fs_wf f'"
proof -
  let ?P = "\<lambda>(n, _). n \<noteq> a \<and> n \<noteq> b"
  from assms obtain i where i: "(a, i) \<in> set (names f)"
    and f': "names f' = filter ?P (names f) @ [(b, i)]" "next_inode f' = next_inode f"
    by (auto simp: fs_rename_def fs_lookup_def split: option.splits dest: map_of_SomeD)
  have "inj_on snd (set (names f))" using assms(1) by (simp add: fs_wf_def distinct_map)
  with i have "n = a" if "(n, i) \<in> set (names f)" for n
    using that by (metis inj_onD prod.inject snd_conv)
  then have fresh: "i \<notin> set (map snd (filter ?P (names f)))" by auto
  from assms(1) have "distinct (map fst (filter ?P (names f)))" "distinct (map snd (filter ?P (names f)))"
    by (auto simp: fs_wf_def intro: distinct_map_filter)
  moreover have "b \<notin> set (map fst (filter ?P (names f)))" by auto
  moreover have "\<forall>j \<in> set (map snd (names f')). j < next_inode f"
    using assms(1) i by (fastforce simp: fs_wf_def f')
  ultimately show ?thesis using fresh by (simp add: fs_wf_def f')
qed

subsection \<open>Decimal numbers\<close>

fun decimal :: "nat \<Rightarrow> string" where
  "decimal n = (if n < 10 then [char_of (48 + n)] else decimal (n div 10) @ [char_of (48 + n mod 10)])"

declare decimal.simps [simp del]

definition fmt05 :: "nat \<Rightarrow> string" where
  "fmt05 n = (let ds = decimal n in replicate (5 - length ds) (CHR ''0'') @ ds)"

definition is_digit :: "char \<Rightarrow> bool" where
  "is_digit c \<longleftrightarrow> 48 \<le> (of_char c :: nat) \<and> (of_char c :: nat) \<le> 57"

fun parse_digits :: "nat \<Rightarrow> string \<Rightarrow> nat option" where
  "parse_digits acc [] = Some acc"
| "parse_digits acc (c # cs) =
     (if is_digit c then parse_digits (10 * acc + (of_char c - 48)) cs else None)"

text \<open>
  \<open>str::parse\<close> of an unsigned type with the values below \<open>bound\<close>: at least one digit, an
  optional plus sign before it, nothing else, and no overflow.
\<close>

definition parse_uint :: "nat \<Rightarrow> string \<Rightarrow> nat option" where
  "parse_uint bound s =
     (let ds = (case s of c # cs \<Rightarrow> if c = CHR ''+'' then cs else s | [] \<Rightarrow> []) in
      if ds = [] then None
      else case parse_digits 0 ds of
        None \<Rightarrow> None
      | Some n \<Rightarrow> if n < bound then Some n else None)"

abbreviation parse_u32 :: "string \<Rightarrow> nat option" where
  "parse_u32 \<equiv> parse_uint (2 ^ 32)"

abbreviation parse_u64 :: "string \<Rightarrow> nat option" where
  "parse_u64 \<equiv> parse_uint (2 ^ 64)"

lemma digit_char: "(d :: nat) < 10 \<Longrightarrow> is_digit (char_of (48 + d)) \<and> of_char (char_of (48 + d)) = 48 + d"
  by (simp add: is_digit_def)

lemma decimal_digits: "list_all is_digit (decimal n)"
proof (induction n rule: decimal.induct)
  case (1 n)
  then show ?case by (subst decimal.simps) (auto simp: digit_char)
qed

lemma decimal_nonempty [simp]: "decimal n \<noteq> []"
  by (subst decimal.simps) simp

lemma parse_digits_append:
  "parse_digits acc (xs @ ys) = Option.bind (parse_digits acc xs) (\<lambda>a. parse_digits a ys)"
  by (induction xs arbitrary: acc) auto

lemma parse_digits_decimal: "parse_digits 0 (decimal n) = Some n"
proof (induction n rule: decimal.induct)
  case (1 n)
  show ?case
  proof (cases "n < 10")
    case True
    then show ?thesis by (subst decimal.simps) (simp add: digit_char)
  next
    case False
    with 1 show ?thesis by (subst decimal.simps) (simp add: parse_digits_append digit_char)
  qed
qed

lemma parse_digits_zeros: "parse_digits 0 (replicate m (CHR ''0'') @ ds) = parse_digits 0 ds"
  by (induction m) (simp_all add: is_digit_def)

lemma fmt05_digits: "list_all is_digit (fmt05 n)"
  using decimal_digits [of n] by (auto simp: fmt05_def Let_def list_all_iff is_digit_def set_replicate_conv_if)

lemma fmt05_nonempty [simp]: "fmt05 n \<noteq> []"
  by (simp add: fmt05_def Let_def)

lemma parse_digits_fmt05: "parse_digits 0 (fmt05 n) = Some n"
  by (simp add: fmt05_def Let_def parse_digits_zeros parse_digits_decimal)

lemma is_digit_simps [simp]:
  "\<not> is_digit (CHR ''+'')" "\<not> is_digit (CHR ''.'')" "\<not> is_digit (CHR ''l'')"
  "\<not> is_digit (CHR ''f'')" "\<not> is_digit (CHR ''t'')" "\<not> is_digit (CHR ''p'')"
  by (simp_all add: is_digit_def)

text \<open>What the code writes into a file name it reads back.\<close>

lemma parse_fmt05: "n < bound \<Longrightarrow> parse_uint bound (fmt05 n) = Some n"
  using fmt05_digits [of n] parse_digits_fmt05 [of n] fmt05_nonempty [of n]
  by (cases "fmt05 n") (auto simp: parse_uint_def Let_def)

lemma fmt05_inj: "fmt05 m = fmt05 n \<longleftrightarrow> m = n"
  by (metis parse_digits_fmt05 option.inject)

subsection \<open>File names\<close>

text \<open>\<open>Path::extension\<close> and \<open>Path::file_stem\<close>: split at the last dot, unless it is the first character.\<close>

definition rsplit_dot :: "string \<Rightarrow> (string \<times> string) option" where
  "rsplit_dot s =
     (case dropWhile (\<lambda>c. c \<noteq> CHR ''.'') (rev s) of
        [] \<Rightarrow> None
      | _ # before \<Rightarrow> Some (rev before, rev (takeWhile (\<lambda>c. c \<noteq> CHR ''.'') (rev s))))"

definition path_extension :: "string \<Rightarrow> string option" where
  "path_extension s =
     (case rsplit_dot s of Some (before, after) \<Rightarrow> if before = [] then None else Some after | None \<Rightarrow> None)"

definition path_stem :: "string \<Rightarrow> string" where
  "path_stem s =
     (case rsplit_dot s of Some (before, after) \<Rightarrow> if before = [] then s else before | None \<Rightarrow> s)"

lemma rsplit_dot_append:
  "CHR ''.'' \<notin> set ext \<Longrightarrow> rsplit_dot (s @ CHR ''.'' # ext) = Some (s, ext)"
  by (auto simp: rsplit_dot_def dropWhile_append takeWhile_append)

text \<open>\<open>str::trim_end_matches\<close> removes a suffix as often as it is there.\<close>

function trim_end_matches :: "string \<Rightarrow> string \<Rightarrow> string" where
  "trim_end_matches pat s =
     (if pat \<noteq> [] \<and> suffix pat s then trim_end_matches pat (take (length s - length pat) s) else s)"
  by pat_completeness auto
termination
  by (relation "measure (\<lambda>(pat, s). length s)")
    (auto simp: suffix_def)

declare trim_end_matches.simps [simp del]

definition wal_name :: "nat \<Rightarrow> string" where "wal_name n = fmt05 n @ ''.wal''"
definition sst_name :: "nat \<Rightarrow> string" where "sst_name n = fmt05 n @ ''.sst''"
definition mf_name :: "nat \<Rightarrow> string" where "mf_name n = fmt05 n @ ''.mf''"
definition mf_tmp_name :: "nat \<Rightarrow> string" where "mf_tmp_name n = fmt05 n @ ''.mf.tmp''"

lemmas file_name_defs = wal_name_def sst_name_def mf_name_def mf_tmp_name_def

lemma fmt05_last: "\<exists>ds d. fmt05 n = ds @ [d] \<and> is_digit d"
  using fmt05_digits [of n] fmt05_nonempty [of n]
  by (metis append_butlast_last_id last_in_set list_all_iff)

lemma file_name_inj [simp]:
  "wal_name m = wal_name n \<longleftrightarrow> m = n" "sst_name m = sst_name n \<longleftrightarrow> m = n"
  "mf_name m = mf_name n \<longleftrightarrow> m = n" "mf_tmp_name m = mf_tmp_name n \<longleftrightarrow> m = n"
  by (simp_all add: file_name_defs fmt05_inj)

lemma file_name_kinds [simp]:
  "wal_name m \<noteq> sst_name n" "wal_name m \<noteq> mf_name n" "wal_name m \<noteq> mf_tmp_name n"
  "sst_name m \<noteq> wal_name n" "sst_name m \<noteq> mf_name n" "sst_name m \<noteq> mf_tmp_name n"
  "mf_name m \<noteq> wal_name n" "mf_name m \<noteq> sst_name n" "mf_name m \<noteq> mf_tmp_name n"
  "mf_tmp_name m \<noteq> wal_name n" "mf_tmp_name m \<noteq> sst_name n" "mf_tmp_name m \<noteq> mf_name n"
  by (auto simp: file_name_defs dest!: arg_cong [where f = last] arg_cong [where f = rev])

lemma path_extension_name [simp]:
  "path_extension (wal_name n) = Some ''wal''" "path_extension (sst_name n) = Some ''sst''"
  "path_extension (mf_name n) = Some ''mf''" "path_extension (mf_tmp_name n) = Some ''tmp''"
  using rsplit_dot_append [of "''wal''" "fmt05 n"] rsplit_dot_append [of "''sst''" "fmt05 n"]
    rsplit_dot_append [of "''mf''" "fmt05 n"] rsplit_dot_append [of "''tmp''" "fmt05 n @ ''.mf''"]
  by (simp_all add: path_extension_def file_name_defs)

lemma path_stem_name [simp]:
  "path_stem (wal_name n) = fmt05 n" "path_stem (sst_name n) = fmt05 n" "path_stem (mf_name n) = fmt05 n"
  using rsplit_dot_append [of "''wal''" "fmt05 n"] rsplit_dot_append [of "''sst''" "fmt05 n"]
    rsplit_dot_append [of "''mf''" "fmt05 n"]
  by (simp_all add: path_stem_def file_name_defs)

end
