(* ===== verification/Wal.thy ===== *)
theory Wal
  imports Values Files
begin

text \<open>
  The write-ahead log of \<open>src/data_stores/wal.rs\<close>: opening a log for appending or for
  recovery, the encoding of an entry, the durable append, and the iterator recovery reads with.
  The checksum of the crate \<open>crc32fast\<close> is the parameter \<open>crc\<close>; nothing is assumed of it but
  that it is a function of the bytes hashed, so that feeding a hasher piece by piece and
  hashing the whole agree. A write returns after \<open>sync_all\<close>, so what it appended is there
  after a crash; a write that was interrupted leaves a prefix of it.
\<close>

subsection \<open>Opening a log\<close>

definition WAL_MAGIC :: u32 where
  "WAL_MAGIC = 0xCAFEBABE"

record wal =
  wal_id :: u32
  wal_file :: inode

text \<open>
  \<open>Wal<Writable>::open\<close>: a new file gets the magic number, an existing one must start with it.
  The result comes with the file system after the call.
\<close>

definition wal_open :: "fs \<Rightarrow> u32 \<Rightarrow> wal result \<times> fs" where
  "wal_open f wid =
     (let (i, f1) = fs_open_append f (wal_name (unat wid)); w = \<lparr>wal_id = wid, wal_file = i\<rparr> in
      if length (data f1 i) = 0 then (Inr w, fs_append f1 i (to_le 4 WAL_MAGIC))
      else case read_exact 4 (data f1 i) of
        Inl e \<Rightarrow> (Inl e, f1)
      | Inr (magic_buf, _) \<Rightarrow>
          (if from_le magic_buf \<noteq> WAL_MAGIC
           then (Inl (DataCorrupted ''Invalid WAL Magic in mutable WAL''), f1)
           else (Inr w, f1)))"

text \<open>
  \<open>Wal<ReadOnly>::open\<close>: the file must exist; an unreadable name falls back to id 0.
\<close>

definition wal_open_read :: "fs \<Rightarrow> string \<Rightarrow> wal result" where
  "wal_open_read f path =
     (case fs_lookup f path of
        None \<Rightarrow> Inl (Io NotFound)
      | Some i \<Rightarrow>
          Inr \<lparr>wal_id = (case parse_u32 (path_stem path) of Some n \<Rightarrow> of_nat n | None \<Rightarrow> 0), wal_file = i\<rparr>)"

text \<open>\<open>try_iter\<close>: the reader after the magic number.\<close>

definition wal_try_iter :: "fs \<Rightarrow> wal \<Rightarrow> bytes result" where
  "wal_try_iter f w =
     and_then (read_exact 4 (data f (wal_file w))) (\<lambda>(magic_buf, reader).
       if from_le magic_buf \<noteq> WAL_MAGIC then Inl (DataCorrupted ''Invalid WAL Magic'')
       else Inr reader)"

subsection \<open>Entries\<close>

definition wal_encode_entry :: "(bytes \<Rightarrow> u32) \<Rightarrow> key \<Rightarrow> val \<Rightarrow> bytes" where
  "wal_encode_entry crc k v =
     u32_encode (crc (key_encode k @ val_encode v)) @ key_encode k @ val_encode v"

definition wal_write :: "fs \<Rightarrow> wal \<Rightarrow> bytes \<Rightarrow> fs" where
  "wal_write f w bs = fs_append f (wal_file w) bs"

text \<open>
  \<open>WalIterator::next\<close>: \<open>None\<close> at the end of the log and where the log ends inside an entry;
  an error for a value that does not decode or a checksum that does not match. The checksum is
  taken over the bytes the two decoders read.
\<close>

definition wal_next :: "(bytes \<Rightarrow> u32) \<Rightarrow> bytes \<Rightarrow> (entry \<times> bytes) result option" where
  "wal_next crc bs =
     (case read_exact 4 bs of
        Inl e \<Rightarrow> (if e = Io UnexpectedEof then None else Some (Inl e))
      | Inr (crc_buf, bs1) \<Rightarrow>
     (case key_decode bs1 of
        Inl e \<Rightarrow> (if e = Io UnexpectedEof then None else Some (Inl e))
      | Inr (k, bs2) \<Rightarrow>
     (case val_decode bs2 of
        Inl e \<Rightarrow> (if e = Io UnexpectedEof then None else Some (Inl e))
      | Inr (v, bs3) \<Rightarrow>
          (if crc (take (length bs1 - length bs3) bs1) \<noteq> from_le crc_buf
           then Some (Inl (DataCorrupted ''CRC mismatch''))
           else Some (Inr ((k, v), bs3))))))"

lemma wal_next_shorter:
  assumes "wal_next crc bs = Some (Inr (e, rest))"
  shows "length rest < length bs"
proof -
  from assms obtain k v buf bs1 bs2 where
    "read_exact 4 bs = Inr (buf, bs1)" and k: "key_decode bs1 = Inr (k, bs2)"
    and v: "val_decode bs2 = Inr (v, rest)"
    by (auto simp: wal_next_def split: sum.splits if_splits)
  with key.dec_shorter [OF k] val.dec_shorter [OF v] show ?thesis
    by (auto dest!: read_exact_Inr)
qed

text \<open>
  \<open>for entry in wal.try_iter()? { let (key, value) = entry?; body }\<close>: the loop of both
  replays, with the state the body updates.
\<close>

function wal_for_each :: "(bytes \<Rightarrow> u32) \<Rightarrow> (entry \<Rightarrow> 's \<Rightarrow> 's) \<Rightarrow> bytes \<Rightarrow> 's \<Rightarrow> 's result" where
  "wal_for_each crc body bs s =
     (case wal_next crc bs of
        None \<Rightarrow> Inr s
      | Some (Inl e) \<Rightarrow> Inl e
      | Some (Inr (e, rest)) \<Rightarrow> wal_for_each crc body rest (body e s))"
  by pat_completeness auto
termination
  by (relation "measure (\<lambda>(crc, body, bs, s). length bs)") (auto dest: wal_next_shorter)

declare wal_for_each.simps [simp del]

subsection \<open>What the iterator reads back\<close>

lemma wal_encode_entry_eq:
  "wal_encode_entry crc k v = u32_encode (crc (entry_encode (k, v))) @ entry_encode (k, v)"
  by (simp add: wal_encode_entry_def entry_encode_eq)

text \<open>A stored checksum and an entry: accepted exactly when the checksum matches.\<close>

lemma wal_next_record:
  assumes "key_ok k" "val_ok v"
  shows "wal_next crc (u32_encode c @ entry_encode (k, v) @ rest) =
    (if crc (entry_encode (k, v)) \<noteq> c then Some (Inl (DataCorrupted ''CRC mismatch''))
     else Some (Inr ((k, v), rest)))"
  using assms
  by (simp add: wal_next_def u32_encode_def read_exact_append entry_encode_eq key.dec_enc val.dec_enc)

lemma wal_next_entry:
  "key_ok k \<Longrightarrow> val_ok v \<Longrightarrow> wal_next crc (wal_encode_entry crc k v @ rest) = Some (Inr ((k, v), rest))"
  by (simp add: wal_encode_entry_eq wal_next_record)

text \<open>A torn entry, cut anywhere, is the end of the log.\<close>

lemma wal_next_torn:
  assumes "key_ok k" "val_ok v" "strict_prefix p (wal_encode_entry crc k v)"
  shows "wal_next crc p = None"
proof -
  from assms(3) have "strict_prefix p (u32_encode (crc (key_encode k @ val_encode v)) @ key_encode k @ val_encode v)"
    by (simp add: wal_encode_entry_def)
  then show ?thesis
  proof (cases rule: strict_prefix_append_cases)
    case inside
    then have "length p < 4" by (auto dest: strict_prefix_length)
    then show ?thesis by (simp add: wal_next_def read_exact_short)
  next
    case (after q)
    then have p: "read_exact 4 p = Inr (u32_encode (crc (key_encode k @ val_encode v)), q)"
      by (simp add: read_exact_append)
    from after(2) show ?thesis
    proof (cases rule: strict_prefix_append_cases)
      case inside
      with p show ?thesis by (simp add: wal_next_def key.dec_short [OF assms(1) inside])
    next
      case (after r)
      with p assms(1) show ?thesis
        by (simp add: wal_next_def key.dec_enc val.dec_short [OF assms(2) after(2)])
    qed
  qed
qed

abbreviation wal_log :: "(bytes \<Rightarrow> u32) \<Rightarrow> entry list \<Rightarrow> bytes" where
  "wal_log crc es \<equiv> concat (map (\<lambda>(k, v). wal_encode_entry crc k v) es)"

text \<open>A whole log in front of anything: the loop runs its body for each entry, in order.\<close>

lemma wal_for_each_log:
  "list_all entry_ok es \<Longrightarrow>
   wal_for_each crc body (wal_log crc es @ rest) s = wal_for_each crc body rest (fold body es s)"
proof (induction es arbitrary: s)
  case Nil
  then show ?case by simp
next
  case (Cons e es)
  then show ?case
    by (cases e) (simp add: wal_for_each.simps [of crc body "wal_encode_entry crc _ _ @ _"] wal_next_entry)
qed

lemma wal_for_each_end: "wal_next crc p = None \<Longrightarrow> wal_for_each crc body p s = Inr s"
  by (simp add: wal_for_each.simps [of crc body p])

lemma wal_next_Nil [simp]: "wal_next crc [] = None"
  by (simp add: wal_next_def read_exact_def)

lemma wal_log_append: "wal_log crc (es @ es') = wal_log crc es @ wal_log crc es'"
  by simp

text \<open>
  One byte of a torn entry in front of complete ones: every field is read one byte too early,
  so the key length is the top byte of the LSN and the low byte of the real length times 256.
\<close>

lemma from_le_0_n: "n < 256 \<Longrightarrow> unat (from_le [0, of_nat n] :: u16) = 256 * n"
proof -
  assume n: "n < 256"
  have "(from_le [0, of_nat n] :: u16) = push_bit 8 (ucast (of_nat n :: byte))" by simp
  also have "\<dots> = of_nat (256 * n)"
    using n by (simp add: push_bit_eq_mult unsigned_of_nat take_bit_eq_mod)
  also have "unat \<dots> = 256 * n" using n by (intro unat_of_nat_16) simp
  finally show ?thesis .
qed

lemma wal_next_misaligned:
  assumes lsn: "unat (lsn k) < 2 ^ 56" and n: "length (kbytes k) < 256"
    and short: "1 + length (kbytes k) + length (val_encode v) + length rest < 256 * length (kbytes k)"
  shows "wal_next crc (b # wal_encode_entry crc k v @ rest) = None"
proof -
  let ?n = "length (kbytes k)" and ?tail = "kbytes k @ val_encode v @ rest"
  let ?C = "to_le 4 (crc (key_encode k @ val_encode v))" and ?L = "to_le 8 (lsn k)"
  have top: "drop_bit 56 (lsn k) = 0"
    using lsn by (intro word_unat_eq_iff [THEN iffD2]) (simp add: unat_drop_bit_eq drop_bit_eq_div unat_div)
  have L: "drop 7 ?L = [0]" by (simp add: drop_to_le top)
  have N: "to_le 2 (of_nat ?n :: u16) = [of_nat ?n, 0]"
  proof -
    have "unat (drop_bit 8 (of_nat ?n :: u16)) = 0"
      using n by (simp add: unat_drop_bit_eq drop_bit_eq_div unat_of_nat_16 unat_div)
    moreover have "ucast (of_nat ?n :: u16) = (of_nat ?n :: byte)"
      using n by (intro word_unat_eq_iff [THEN iffD2]) (simp add: unat_of_nat_16 unsigned_ucast_eq unsigned_of_nat take_bit_eq_mod)
    ultimately show ?thesis by (simp add: numeral_2_eq_2 unat_eq_zero)
  qed
  have bs: "b # wal_encode_entry crc k v @ rest = (b # take 3 ?C) @ (drop 3 ?C @ take 7 ?L) @ [0, of_nat ?n] @ 0 # ?tail"
  proof -
    have "b # wal_encode_entry crc k v @ rest = b # ?C @ ?L @ to_le 2 (of_nat ?n :: u16) @ ?tail"
      by (simp add: wal_encode_entry_def key_encode_def u32_encode_def u64_encode_def u16_encode_def)
    also have "\<dots> = b # (take 3 ?C @ drop 3 ?C) @ (take 7 ?L @ drop 7 ?L) @ [of_nat ?n, 0] @ ?tail"
      by (simp only: append_take_drop_id N)
    finally show ?thesis by (simp only: L append.simps append_assoc)
  qed
  have r1: "read_exact 4 ((b # take 3 ?C) @ r) = Inr (b # take 3 ?C, r)" for r
    by (rule read_exact_append) simp
  have r2: "u64_decode ((drop 3 ?C @ take 7 ?L) @ r) = Inr (from_le (drop 3 ?C @ take 7 ?L), r)" for r
    unfolding u64_decode_def by (subst read_exact_append) simp_all
  have r3: "u16_decode ([0, of_nat ?n] @ r) = Inr (from_le [0, of_nat ?n], r)" for r
    unfolding u16_decode_def by (subst read_exact_append) simp_all
  have "read_exact (256 * ?n) (0 # ?tail) = Inl (Io UnexpectedEof)"
    using short by (intro read_exact_short) simp
  then have "key_decode ((drop 3 ?C @ take 7 ?L) @ [0, of_nat ?n] @ 0 # ?tail) = Inl (Io UnexpectedEof)"
    unfolding key_decode_def by (simp only: r2 r3 and_then_simps prod.case from_le_0_n [OF n])
  then show ?thesis unfolding bs by (simp only: wal_next_def r1 sum.case prod.case simp_thms if_True)
qed

subsection \<open>A log and its file\<close>

text \<open>The bytes of a log file that holds the entries \<open>es\<close> and then \<open>tail\<close>.\<close>

definition wal_bytes :: "(bytes \<Rightarrow> u32) \<Rightarrow> entry list \<Rightarrow> bytes \<Rightarrow> bytes" where
  "wal_bytes crc es tail = to_le 4 WAL_MAGIC @ wal_log crc es @ tail"

lemma wal_try_iter_bytes:
  "data f (wal_file w) = wal_bytes crc es tail \<Longrightarrow> wal_try_iter f w = Inr (wal_log crc es @ tail)"
  by (simp add: wal_try_iter_def wal_bytes_def read_exact_append)

lemma wal_open_existing:
  assumes "fs_lookup f (wal_name (unat wid)) = Some i" "data f i = wal_bytes crc es tail"
  shows "wal_open f wid = (Inr \<lparr>wal_id = wid, wal_file = i\<rparr>, f)"
proof -
  have "length (data f i) \<noteq> 0" by (simp add: assms(2) wal_bytes_def)
  with assms show ?thesis
    by (simp add: wal_open_def fs_open_append_def wal_bytes_def read_exact_append Let_def del: length_0_conv)
qed

lemma wal_open_fresh:
  assumes "fs_lookup f (wal_name (unat wid)) = None"
  shows "\<exists>i f1. wal_open f wid = (Inr \<lparr>wal_id = wid, wal_file = i\<rparr>, f1)
    \<and> fs_lookup f1 (wal_name (unat wid)) = Some i \<and> data f1 i = wal_bytes crc [] []"
proof -
  obtain i f1 where a: "fs_alloc f (wal_name (unat wid)) = (i, f1)" by (cases "fs_alloc f (wal_name (unat wid))")
  then have "data f1 i = []" by (auto simp: fs_alloc_def)
  with a assms show ?thesis
    by (simp add: wal_open_def fs_open_append_def fs_append_def fs_lookup_alloc [OF assms a] wal_bytes_def)
qed

lemma wal_open_read_name:
  "fs_lookup f (wal_name (unat wid)) = Some i \<Longrightarrow>
   wal_open_read f (wal_name (unat wid)) = Inr \<lparr>wal_id = wid, wal_file = i\<rparr>"
  using parse_fmt05 [OF unat_u32_less [of wid]] by (simp add: wal_open_read_def)

text \<open>The bytes of a group of requests, as one write.\<close>

lemma wal_write_data:
  "data (wal_write f w bs) (wal_file w) = data f (wal_file w) @ bs"
  "fs_lookup (wal_write f w bs) nm = fs_lookup f nm"
  by (simp_all add: wal_write_def fs_append_def)

text \<open>Open the log by its name, as a recovery does, and run \<open>body\<close> for every entry.\<close>

definition wal_replay :: "(bytes \<Rightarrow> u32) \<Rightarrow> (entry \<Rightarrow> 's \<Rightarrow> 's) \<Rightarrow> fs \<Rightarrow> string \<Rightarrow> 's \<Rightarrow> 's result" where
  "wal_replay crc body f path s =
     and_then (wal_open_read f path) (\<lambda>w.
     and_then (wal_try_iter f w) (\<lambda>reader. wal_for_each crc body reader s))"

lemma wal_replay_bytes:
  fixes wid :: u32
  assumes "fs_lookup f (wal_name (unat wid)) = Some i" "data f i = wal_bytes crc es tail" "list_all entry_ok es"
  shows "wal_replay crc body f (wal_name (unat wid)) s = wal_for_each crc body tail (fold body es s)"
  using wal_open_read_name [OF assms(1)] assms(2,3)
  by (simp add: wal_replay_def wal_try_iter_bytes wal_for_each_log)

subsection \<open>Properties\<close>

text \<open>C16: What was written to a WAL before a crash is what recovery reads, in order and once each: a log that
  ends inside an entry, cut at any byte of its checksum, key or value, yields every complete entry
  before it and no error.\<close>

theorem wal_replays_complete_entries:
  fixes wid :: u32
  assumes "fs_lookup f (wal_name (unat wid)) = Some i" "data f i = wal_bytes crc es torn" "list_all entry_ok es"
    and "entry_ok (k, v)" "strict_prefix torn (wal_encode_entry crc k v)"
  shows "wal_replay crc body f (wal_name (unat wid)) s = Inr (fold body es s)"
  unfolding wal_replay_bytes [OF assms(1-3)]
  using assms(4,5) by (intro wal_for_each_end wal_next_torn) auto

definition sample_log :: "entry list" where
  "sample_log = [(Key 1 [1], Bytes [5]), (Key 2 [2], Tombstone)]"

lemma sample_log_ok: "list_all entry_ok sample_log"
  by (simp add: sample_log_def key_ok_def)

definition sample_wal_fs :: "bytes \<Rightarrow> fs" where
  "sample_wal_fs tail = fs_put fs_empty (wal_name 3) (wal_bytes (\<lambda>_. 7) sample_log tail)"

lemma sample_wal_fs_file:
  "fs_lookup (sample_wal_fs tail) (wal_name 3) = Some 0 \<and> data (sample_wal_fs tail) 0 = wal_bytes (\<lambda>_. 7) sample_log tail"
  by (simp add: sample_wal_fs_def fs_put_def fs_create_def fs_alloc_def fs_empty_def fs_lookup_def fs_set_def)

theorem wal_replays_complete_entries_witness:
  "wal_replay (\<lambda>_. 7) (\<lambda>e es. es @ [e]) (sample_wal_fs (take 9 (wal_encode_entry (\<lambda>_. 7) (Key 3 [9]) Tombstone)))
     (wal_name 3) [] = Inr sample_log"
proof -
  let ?e = "wal_encode_entry (\<lambda>_. 7) (Key 3 [9]) Tombstone"
  have "take 9 ?e \<noteq> ?e"
    by (auto dest: arg_cong [where f = length] simp: wal_encode_entry_def length_key_encode length_val_encode)
  then have torn: "strict_prefix (take 9 ?e) ?e" by (simp add: strict_prefix_def take_is_prefix)
  have "wal_replay (\<lambda>_. 7) (\<lambda>e es. es @ [e]) (sample_wal_fs (take 9 ?e)) (wal_name (unat (3 :: u32))) []
      = Inr (fold (\<lambda>e es. es @ [e]) sample_log [])"
    by (rule wal_replays_complete_entries [OF _ _ sample_log_ok _ torn, where i = 0])
      (simp_all add: key_ok_def sample_wal_fs_file)
  then show ?thesis by (simp add: sample_log_def)
qed

text \<open>C17: An entry whose stored checksum is not the checksum of its bytes stops recovery with an error, whatever
  precedes and follows it.\<close>

theorem wal_replay_rejects_bad_checksum:
  fixes wid :: u32
  assumes "fs_lookup f (wal_name (unat wid)) = Some i" "list_all entry_ok es" "entry_ok (k, v)"
    and "data f i = wal_bytes crc es (u32_encode c @ entry_encode (k, v) @ rest)" "c \<noteq> crc (entry_encode (k, v))"
  shows "wal_replay crc body f (wal_name (unat wid)) s = Inl (DataCorrupted ''CRC mismatch'')"
  unfolding wal_replay_bytes [OF assms(1,4,2)]
  using assms(3,5) by (subst wal_for_each.simps) (auto simp: wal_next_record)

theorem wal_replay_rejects_bad_checksum_witness:
  "wal_replay (\<lambda>_. 7) (\<lambda>e es. es @ [e]) (sample_wal_fs (u32_encode 6 @ entry_encode (Key 3 [9], Tombstone) @ []))
     (wal_name 3) [] = Inl (DataCorrupted ''CRC mismatch'')"
  using wal_replay_rejects_bad_checksum [where f = "sample_wal_fs (u32_encode 6 @ entry_encode (Key 3 [9], Tombstone) @ [])"
      and wid = 3 and i = 0 and es = sample_log and k = "Key 3 [9]" and v = Tombstone
      and crc = "\<lambda>_. 7" and c = 6 and rest = "[]" and body = "\<lambda>e es. es @ [e]" and s = "[]"]
    sample_wal_fs_file [of "u32_encode 6 @ entry_encode (Key 3 [9], Tombstone) @ []"] sample_log_ok
  by (simp add: key_ok_def)

text \<open>C18: What is appended to a log that ends inside an entry can be lost. The log is opened for appending as it
  is; if its complete entries are followed by one byte of a torn one, and the entry appended has a key of 1 to 255 bytes, a
  value whose encoding is at least two bytes shorter than 255 times the key, and an LSN below 2^56, then replaying the log
  gives the entries before the torn one and no error: the entry appended is read as the end of the log.\<close>

theorem wal_append_after_torn_entry_lost:
  fixes wid :: u32
  assumes "fs_lookup f (wal_name (unat wid)) = Some i" "data f i = wal_bytes crc es [b]" "list_all entry_ok es"
    and "unat (lsn k) < 2 ^ 56" "length (kbytes k) < 256"
    and "1 + length (kbytes k) + length (val_encode v) < 256 * length (kbytes k)"
  shows "\<exists>w. wal_open f wid = (Inr w, f)
    \<and> wal_replay crc body (wal_write f w (wal_encode_entry crc k v)) (wal_name (unat wid)) s = Inr (fold body es s)"
proof -
  let ?w = "\<lparr>wal_id = wid, wal_file = i\<rparr>"
  have "data (wal_write f ?w (wal_encode_entry crc k v)) i = wal_bytes crc es (b # wal_encode_entry crc k v @ [])"
    using wal_write_data(1) [of f ?w] assms(2) by (simp add: wal_bytes_def)
  moreover have none: "wal_next crc (b # wal_encode_entry crc k v @ []) = None"
    using assms(4,5,6) by (intro wal_next_misaligned) simp_all
  moreover have "fs_lookup (wal_write f ?w (wal_encode_entry crc k v)) (wal_name (unat wid)) = Some i"
    by (simp add: wal_write_data(2) assms(1))
  ultimately have "wal_replay crc body (wal_write f ?w (wal_encode_entry crc k v)) (wal_name (unat wid)) s = Inr (fold body es s)"
    using wal_replay_bytes [OF _ _ assms(3)] wal_for_each_end [OF none] by metis
  then show ?thesis using wal_open_existing [OF assms(1,2)] by blast
qed

theorem wal_append_after_torn_entry_lost_witness:
  "\<exists>w. wal_open (sample_wal_fs [1]) 3 = (Inr w, sample_wal_fs [1])
    \<and> wal_replay (\<lambda>_. 7) (\<lambda>e es. es @ [e]) (wal_write (sample_wal_fs [1]) w (wal_encode_entry (\<lambda>_. 7) (Key 3 [9]) (Bytes [8])))
        (wal_name 3) [] = Inr sample_log"
proof -
  have "fold (\<lambda>e es. es @ [e]) sample_log [] = sample_log" by (simp add: sample_log_def)
  then show ?thesis
    using wal_append_after_torn_entry_lost [where f = "sample_wal_fs [1]" and wid = 3 and i = 0 and es = sample_log and k = "Key 3 [9]"
      and v = "Bytes [8]" and crc = "\<lambda>_. 7" and b = 1 and body = "\<lambda>e es. es @ [e]" and s = "[]"]
      sample_wal_fs_file [of "[1]"] sample_log_ok
    by (simp add: length_val_encode val_payload_def)
qed

end
