(* ===== verification/Manifest.thy ===== *)
theory Manifest
  imports Wal
begin

text \<open>
  The manifest of \<open>src/data_stores/manifest.rs\<close>: the list of the live WALs and of the SSTables
  of each level, its encoding under a checksum, its discovery at startup and its atomic update.
  Other threads may change the shared manifest between the snapshot and the commit of an
  update; what they do there is an argument of the model.
\<close>

subsection \<open>Data\<close>

record file_meta =
  file_id :: u32
  file_size :: u32
  min_key :: key
  max_key :: key

record level =
  files :: "file_meta list"

record manifest =
  wals :: "u32 list"
  levels :: "level list"
  next_wal_id :: u32
  next_sstable_id :: u32
  version :: u32

definition level_default :: level where
  "level_default = \<lparr>files = []\<rparr>"

definition MANIFEST_MAGIC :: u32 where "MANIFEST_MAGIC = 0x4D534C45"
definition MANIFEST_FORMAT_VERSION :: u32 where "MANIFEST_FORMAT_VERSION = 0"

definition manifest_new :: "u32 \<Rightarrow> manifest" where
  "manifest_new initial_wal_id =
     \<lparr>wals = [initial_wal_id], levels = [], next_wal_id = initial_wal_id + 1,
      next_sstable_id = 0, version = 0\<rparr>"

subsection \<open>Encoding\<close>

definition file_meta_encode :: "file_meta \<Rightarrow> bytes" where
  "file_meta_encode m =
     u32_encode (file_id m) @ u32_encode (file_size m) @ key_encode (min_key m) @ key_encode (max_key m)"

definition file_meta_decode :: "bytes \<Rightarrow> (file_meta \<times> bytes) result" where
  "file_meta_decode bs =
     and_then (u32_decode bs) (\<lambda>(fid, bs1).
     and_then (u32_decode bs1) (\<lambda>(fsize, bs2).
     and_then (key_decode bs2) (\<lambda>(mink, bs3).
     and_then (key_decode bs3) (\<lambda>(maxk, bs4).
       Inr (\<lparr>file_id = fid, file_size = fsize, min_key = mink, max_key = maxk\<rparr>, bs4)))))"

definition file_meta_ok :: "file_meta \<Rightarrow> bool" where
  "file_meta_ok m \<longleftrightarrow> key_ok (min_key m) \<and> key_ok (max_key m)"

definition level_encode :: "level \<Rightarrow> bytes" where
  "level_encode l = vec_encode file_meta_encode (files l)"

definition level_decode :: "bytes \<Rightarrow> (level \<times> bytes) result" where
  "level_decode bs =
     and_then (vec_decode file_meta_decode bs) (\<lambda>(fs, rest). Inr (\<lparr>files = fs\<rparr>, rest))"

definition level_ok :: "level \<Rightarrow> bool" where
  "level_ok l \<longleftrightarrow> length (files l) < 2 ^ 32 \<and> list_all file_meta_ok (files l)"

interpretation key_pair: codec_pair key_encode key_decode key_ok key_encode key_decode key_ok
  by unfold_locales

interpretation size_keys: codec_pair u32_encode u32_decode "\<lambda>_. True"
  "pair_encode key_encode key_encode" "pair_decode key_decode key_decode" "\<lambda>(x, y). key_ok x \<and> key_ok y"
  by unfold_locales

interpretation id_size_keys: codec_pair u32_encode u32_decode "\<lambda>_. True"
  "pair_encode u32_encode (pair_encode key_encode key_encode)"
  "pair_decode u32_decode (pair_decode key_decode key_decode)"
  "\<lambda>(_, x, y). True \<and> (case (x, y) of (x, y) \<Rightarrow> key_ok x \<and> key_ok y)"
  by (rule codec_pair.intro [OF u32.codec_axioms]) (use size_keys.pair.codec_axioms in \<open>simp add: case_prod_unfold\<close>)

interpretation file_meta: codec_iso
  "pair_encode u32_encode (pair_encode u32_encode (pair_encode key_encode key_encode))"
  "pair_decode u32_decode (pair_decode u32_decode (pair_decode key_decode key_decode))"
  "\<lambda>(_, _, x, y). key_ok x \<and> key_ok y"
  "\<lambda>(a, b, c, d). \<lparr>file_id = a, file_size = b, min_key = c, max_key = d\<rparr>"
  "\<lambda>m. (file_id m, file_size m, min_key m, max_key m)"
  file_meta_ok file_meta_encode file_meta_decode
proof (rule codec_iso.intro)
  show "codec (pair_encode u32_encode (pair_encode u32_encode (pair_encode key_encode key_encode)))
    (pair_decode u32_decode (pair_decode u32_decode (pair_decode key_decode key_decode)))
    (\<lambda>(_, _, x, y). key_ok x \<and> key_ok y)"
    using id_size_keys.pair.codec_axioms by (simp add: case_prod_unfold)
next
  show "codec_iso_axioms
    (pair_encode u32_encode (pair_encode u32_encode (pair_encode key_encode key_encode)))
    (pair_decode u32_decode (pair_decode u32_decode (pair_decode key_decode key_decode)))
    (\<lambda>(_, _, x, y). key_ok x \<and> key_ok y)
    (\<lambda>(a, b, c, d). \<lparr>file_id = a, file_size = b, min_key = c, max_key = d\<rparr>)
    (\<lambda>m. (file_id m, file_size m, min_key m, max_key m))
    file_meta_ok file_meta_encode file_meta_decode"
    by unfold_locales
      (auto simp: file_meta_ok_def file_meta_encode_def file_meta_decode_def pair_encode_def
        pair_decode_def and_then_assoc intro!: and_then_cong)
qed

interpretation level: codec_iso
  "vec_encode file_meta_encode" "vec_decode file_meta_decode"
  "\<lambda>fs. length fs < 2 ^ 32 \<and> list_all file_meta_ok fs"
  "\<lambda>fs. \<lparr>files = fs\<rparr>" files level_ok level_encode level_decode
  by unfold_locales (simp_all add: level_ok_def level_encode_def level_decode_def)

text \<open>The body of a manifest: its WALs, then its levels.\<close>

interpretation body: codec_pair
  "vec_encode u32_encode" "vec_decode u32_decode" "\<lambda>ws. length ws < 2 ^ 32 \<and> list_all (\<lambda>_. True) ws"
  "vec_encode level_encode" "vec_decode level_decode" "\<lambda>ls. length ls < 2 ^ 32 \<and> list_all level_ok ls"
  by unfold_locales

definition manifest_body :: "manifest \<Rightarrow> bytes" where
  "manifest_body m = vec_encode u32_encode (wals m) @ vec_encode level_encode (levels m)"

definition manifest_encode :: "(bytes \<Rightarrow> u32) \<Rightarrow> manifest \<Rightarrow> bytes" where
  "manifest_encode crc m =
     (let body_buf = manifest_body m in
      u32_encode MANIFEST_MAGIC @
      u32_encode (crc body_buf) @
      u32_encode (of_nat (length body_buf)) @
      u32_encode MANIFEST_FORMAT_VERSION @
      u32_encode (of_nat (length (wals m))) @
      u32_encode (of_nat (length (levels m))) @
      body_buf)"

definition manifest_decode :: "(bytes \<Rightarrow> u32) \<Rightarrow> bytes \<Rightarrow> (manifest \<times> bytes) result" where
  "manifest_decode crc bs =
     and_then (u32_decode bs) (\<lambda>(magic, bs1).
     if magic \<noteq> MANIFEST_MAGIC then Inl ManifestCorrupted else
     and_then (u32_decode bs1) (\<lambda>(checksum, bs2).
     and_then (u32_decode bs2) (\<lambda>(size, bs3).
     and_then (u32_decode bs3) (\<lambda>(format_version, bs4).
     if format_version \<noteq> MANIFEST_FORMAT_VERSION then Inl ManifestCorrupted else
     and_then (u32_decode bs4) (\<lambda>(_, bs5).
     and_then (u32_decode bs5) (\<lambda>(_, bs6).
     and_then (read_exact (unat size) bs6) (\<lambda>(body_buf, rest).
     if crc body_buf \<noteq> checksum then Inl ManifestCorrupted else
     and_then (vec_decode u32_decode body_buf) (\<lambda>(ws, body1).
     and_then (vec_decode level_decode body1) (\<lambda>(ls, _).
       Inr (\<lparr>wals = ws, levels = ls, next_wal_id = 0, next_sstable_id = 0, version = 0\<rparr>, rest))))))))))"

definition manifest_ok :: "manifest \<Rightarrow> bool" where
  "manifest_ok m \<longleftrightarrow>
     length (wals m) < 2 ^ 32 \<and> length (levels m) < 2 ^ 32 \<and> list_all level_ok (levels m)
     \<and> length (manifest_body m) < 2 ^ 32"

text \<open>The transient counters are not stored.\<close>

definition manifest_stored :: "manifest \<Rightarrow> manifest" where
  "manifest_stored m = m\<lparr>next_wal_id := 0, next_sstable_id := 0, version := 0\<rparr>"

lemma manifest_body_decode:
  assumes "manifest_ok m"
  shows "vec_decode u32_decode (manifest_body m) = Inr (wals m, vec_encode level_encode (levels m))"
    and "vec_decode level_decode (vec_encode level_encode (levels m)) = Inr (levels m, [])"
proof -
  from assms show "vec_decode u32_decode (manifest_body m) = Inr (wals m, vec_encode level_encode (levels m))"
    unfolding manifest_body_def by (intro u32.vec.dec_enc) (simp add: manifest_ok_def list_all_iff)
  from assms show "vec_decode level_decode (vec_encode level_encode (levels m)) = Inr (levels m, [])"
    by (intro level.struct.vec.dec_enc_exact) (simp add: manifest_ok_def)
qed

lemma manifest_decode_encode:
  assumes "manifest_ok m"
  shows "manifest_decode crc (manifest_encode crc m @ rest) = Inr (manifest_stored m, rest)"
  using assms manifest_body_decode [OF assms]
  by (simp add: manifest_decode_def manifest_encode_def Let_def primitive_codecs read_exact_append
      unat_of_nat_32 manifest_ok_def manifest_stored_def)

text \<open>A manifest cut short anywhere is an unexpected end of file, never another manifest.\<close>

lemma manifest_decode_torn:
  assumes ok: "manifest_ok m" and p: "strict_prefix p (manifest_encode crc m)"
  shows "manifest_decode crc p = Inl (Io UnexpectedEof)"
proof -
  let ?b = "manifest_body m"
  have short: "read_exact (length ?b) q = Inl (Io UnexpectedEof)" if "strict_prefix q ?b" for q
    using that by (intro read_exact_short) (rule strict_prefix_length)
  have len: "unat (of_nat (length ?b) :: u32) = length ?b"
    using ok by (intro unat_of_nat_32) (simp add: manifest_ok_def)
  note torn = u32.dec_torn [OF TrueI]
  from p show ?thesis
    unfolding manifest_encode_def Let_def manifest_decode_def
    by (auto simp: len short dest!: torn)
qed

subsection \<open>Files\<close>

definition write_to_path :: "(bytes \<Rightarrow> u32) \<Rightarrow> manifest \<Rightarrow> string \<Rightarrow> fs \<Rightarrow> fs" where
  "write_to_path crc m path f =
     (let (i, f1) = fs_create f path in fs_set f1 i (manifest_encode crc m))"

definition write_to_disk :: "(bytes \<Rightarrow> u32) \<Rightarrow> manifest \<Rightarrow> u32 \<Rightarrow> fs \<Rightarrow> fs" where
  "write_to_disk crc m new_version f = write_to_path crc m (mf_name (unat new_version)) f"

definition commit_new_wal :: "(bytes \<Rightarrow> u32) \<Rightarrow> manifest \<Rightarrow> wal \<Rightarrow> fs \<Rightarrow> manifest \<times> fs" where
  "commit_new_wal crc m w f =
     (let m1 = m\<lparr>wals := wals m @ [wal_id w]\<rparr>;
          f1 = write_to_disk crc m1 (version m1 + 1) f
      in (m1\<lparr>version := version m1 + 1\<rparr>, f1))"

text \<open>\<open>iter().max().copied().unwrap_or(0)\<close>\<close>

definition max_or_zero :: "u32 list \<Rightarrow> u32" where
  "max_or_zero xs = foldr max xs 0"

definition try_open :: "(bytes \<Rightarrow> u32) \<Rightarrow> fs \<Rightarrow> string \<Rightarrow> manifest result" where
  "try_open crc f path =
     (case fs_read f path of
        None \<Rightarrow> Inl (Io NotFound)
      | Some bs \<Rightarrow>
          and_then (manifest_decode crc bs) (\<lambda>(m, _).
          case parse_u32 (path_stem path) of
            None \<Rightarrow> Inl (ManifestReadError ''Invalid manifest file name'')
          | Some v \<Rightarrow>
              Inr (m\<lparr>version := of_nat v,
                     next_wal_id := max_or_zero (wals m) + 1,
                     next_sstable_id := max_or_zero (map file_id (concat (map files (levels m)))) + 1\<rparr>)))"

text \<open>The manifests of a directory listing, with their versions.\<close>

definition manifest_candidates :: "fs \<Rightarrow> (nat \<times> string) list" where
  "manifest_candidates f =
     List.map_filter (\<lambda>(nm, _).
       if path_extension nm = Some ''mf'' then map_option (\<lambda>v. (v, nm)) (parse_u32 (path_stem nm))
       else None) (names f)"

text \<open>\<open>max_by_key\<close> keeps the last of several maxima.\<close>

fun max_by_version :: "(nat \<times> string) list \<Rightarrow> (nat \<times> string) option" where
  "max_by_version [] = None"
| "max_by_version (x # xs) = Some (fold (\<lambda>y best. if fst best \<le> fst y then y else best) xs x)"

definition prepare_pristine_start :: "(bytes \<Rightarrow> u32) \<Rightarrow> fs \<Rightarrow> manifest result \<times> fs" where
  "prepare_pristine_start crc f =
     (case wal_open f 0 of
        (Inl e, f1) \<Rightarrow> (Inl e, f1)
      | (Inr w, f1) \<Rightarrow> let m = manifest_new (wal_id w) in (Inr m, write_to_disk crc m 0 f1))"

definition recover_or_init :: "(bytes \<Rightarrow> u32) \<Rightarrow> fs \<Rightarrow> manifest result \<times> fs" where
  "recover_or_init crc f =
     (case max_by_version (manifest_candidates f) of
        Some (_, path) \<Rightarrow>
          (case try_open crc f path of
             Inr m \<Rightarrow> Inr m
           | Inl e \<Rightarrow> Inl (ManifestReadError ''Failed to open manifest. Please delete this file and retry.''), f)
      | None \<Rightarrow> prepare_pristine_start crc f)"

subsection \<open>The atomic update\<close>

text \<open>
  \<open>apply_atomic_update\<close>: snapshot the shared manifest, let the caller change the copy, write
  it to a temporary file, and commit under the lock if the version is still the one of the
  snapshot; at most three attempts. \<open>others n\<close> is what the other threads do to the
  directory and to the shared manifest between the snapshot and the commit of the attempt
  with \<open>n\<close> attempts left after it.
\<close>

fun update_loop ::
  "(bytes \<Rightarrow> u32) \<Rightarrow> (manifest \<Rightarrow> fs \<Rightarrow> manifest result \<times> fs) \<Rightarrow>
   (nat \<Rightarrow> manifest \<times> fs \<Rightarrow> manifest \<times> fs) \<Rightarrow> nat \<Rightarrow> manifest \<times> fs \<Rightarrow> manifest result \<times> manifest \<times> fs" where
  "update_loop crc mutator others 0 (guard, f) =
     (Inl (Io (OtherIo ''Manifest commit loop exceeded retry limit'')), guard, f)"
| "update_loop crc mutator others (Suc n) (guard, f) =
     (case mutator guard f of
        (Inl e, f1) \<Rightarrow> (Inl e, guard, f1)
      | (Inr changed, f1) \<Rightarrow>
          (let candidate = changed\<lparr>version := version changed + 1\<rparr>;
               tmp_path = mf_tmp_name (unat (version candidate));
               final_path = mf_name (unat (version candidate));
               f2 = write_to_path crc candidate tmp_path f1;
               (guard2, f3) = others n (guard, f2)
           in if version guard2 \<noteq> version guard
              then update_loop crc mutator others n (guard2, fs_remove f3 tmp_path)
              else (case fs_rename f3 tmp_path final_path of
                      Inl e \<Rightarrow> (Inl e, guard2, fs_remove f3 tmp_path)
                    | Inr f4 \<Rightarrow> (Inr candidate, candidate, f4))))"

definition apply_atomic_update ::
  "(bytes \<Rightarrow> u32) \<Rightarrow> (manifest \<Rightarrow> fs \<Rightarrow> manifest result \<times> fs) \<Rightarrow>
   (nat \<Rightarrow> manifest \<times> fs \<Rightarrow> manifest \<times> fs) \<Rightarrow> manifest \<times> fs \<Rightarrow> manifest result \<times> manifest \<times> fs" where
  "apply_atomic_update crc mutator others st = update_loop crc mutator others 3 st"

text \<open>No other thread interferes.\<close>

definition alone :: "nat \<Rightarrow> manifest \<times> fs \<Rightarrow> manifest \<times> fs" where
  "alone _ st = st"

subsection \<open>What discovery finds\<close>

lemma candidates_append:
  "names f' = names f @ [(nm, i)] \<Longrightarrow>
   manifest_candidates f' = manifest_candidates f @
     (if path_extension nm = Some ''mf''
      then (case parse_u32 (path_stem nm) of Some v \<Rightarrow> [(v, nm)] | None \<Rightarrow> []) else [])"
  by (simp add: manifest_candidates_def List.map_filter_def split: option.split)

definition newer_version :: "nat \<times> string \<Rightarrow> nat \<times> string \<Rightarrow> nat \<times> string" where
  "newer_version y best = (if fst best \<le> fst y then y else best)"

lemma max_fold:
  "fold newer_version xs x \<in> insert x (set xs) \<and>
   fst x \<le> fst (fold newer_version xs x) \<and> (\<forall>y \<in> set xs. fst y \<le> fst (fold newer_version xs x))"
proof (induction xs arbitrary: x)
  case (Cons a xs)
  have step: "newer_version a x \<in> {a, x}" "fst a \<le> fst (newer_version a x)" "fst x \<le> fst (newer_version a x)"
    by (auto simp: newer_version_def)
  with Cons.IH [of "newer_version a x"] show ?case by auto
qed simp

lemma max_by_version_fold: "max_by_version (x # xs) = Some (fold newer_version xs x)"
  by (simp add: newer_version_def [abs_def])

lemma max_by_version_Some:
  assumes "max_by_version xs = Some x"
  shows "x \<in> set xs" and "y \<in> set xs \<Longrightarrow> fst y \<le> fst x"
  using assms max_fold by (cases xs; auto simp: max_by_version_fold simp del: max_by_version.simps(2))+

lemma max_by_version_last:
  assumes "\<forall>x \<in> set xs. fst x \<le> fst y"
  shows "max_by_version (xs @ [y]) = Some y"
proof (cases xs)
  case (Cons a as)
  have "fst (fold newer_version as a) \<le> fst y"
    using max_fold [of as a] assms Cons by auto
  then show ?thesis
    by (simp add: Cons max_by_version_fold newer_version_def [of y] del: max_by_version.simps(2))
qed simp

lemma try_open_cong: "fs_read f nm = fs_read f' nm \<Longrightarrow> try_open crc f nm = try_open crc f' nm"
  by (simp add: try_open_def)

text \<open>The identifiers a manifest gets when it is read back under its version.\<close>

definition manifest_reopened :: "manifest \<Rightarrow> u32 \<Rightarrow> manifest" where
  "manifest_reopened m v =
     m\<lparr>version := v, next_wal_id := max_or_zero (wals m) + 1,
       next_sstable_id := max_or_zero (map file_id (concat (map files (levels m)))) + 1\<rparr>"

lemma try_open_written:
  assumes "manifest_ok m" and "fs_read f (mf_name (unat v)) = Some (manifest_encode crc m)"
  shows "try_open crc f (mf_name (unat v)) = Inr (manifest_reopened m v)"
  using assms manifest_decode_encode [OF assms(1), of crc "[]"] unat_u32_less [of v]
  by (simp add: try_open_def manifest_stored_def manifest_reopened_def parse_fmt05)

lemma candidates_iff:
  "(v, nm) \<in> set (manifest_candidates f) \<longleftrightarrow>
   nm \<in> fst ` set (names f) \<and> path_extension nm = Some ''mf'' \<and> parse_u32 (path_stem nm) = Some v"
  by (force simp: manifest_candidates_def List.map_filter_def split: if_splits)

lemma candidates_rename:
  assumes "fs_rename f (mf_tmp_name n) (mf_name n) = Inr f'" "n < 2 ^ 32"
  shows "\<exists>cs. manifest_candidates f' = cs @ [(n, mf_name n)] \<and> set cs \<subseteq> set (manifest_candidates f)"
proof -
  let ?P = "\<lambda>(x, _). x \<noteq> mf_tmp_name n \<and> x \<noteq> mf_name n"
  from assms(1) obtain i where "names f' = filter ?P (names f) @ [(mf_name n, i)]"
    by (auto simp: fs_rename_def split: option.splits)
  with assms(2) have "manifest_candidates f' =
      manifest_candidates (f\<lparr>names := filter ?P (names f)\<rparr>) @ [(n, mf_name n)]"
    by (simp add: manifest_candidates_def List.map_filter_def parse_fmt05)
  moreover have "set (manifest_candidates (f\<lparr>names := filter ?P (names f)\<rparr>)) \<subseteq> set (manifest_candidates f)"
    by (auto simp: candidates_iff)
  ultimately show ?thesis by blast
qed

lemma recover_newest:
  assumes "manifest_candidates f = cs @ [(unat v, mf_name (unat v))]"
    and "\<forall>c \<in> set cs. fst c \<le> unat v" "manifest_ok m"
    and "fs_read f (mf_name (unat v)) = Some (manifest_encode crc m)"
  shows "recover_or_init crc f = (Inr (manifest_reopened m v), f)"
  using assms try_open_written [OF assms(3,4)]
  by (simp add: recover_or_init_def max_by_version_last)

subsection \<open>Crash atomicity of the update\<close>

text \<open>A directory whose newest manifest is at most \<open>v\<close>.\<close>

definition versions_upto :: "fs \<Rightarrow> u32 \<Rightarrow> bool" where
  "versions_upto f v \<longleftrightarrow> (\<forall>c \<in> set (manifest_candidates f). fst c \<le> unat v)"

lemma write_to_path_put: "write_to_path crc m path f = fs_put f path (manifest_encode crc m)"
  by (simp add: write_to_path_def fs_put_def)

lemma candidates_put_tmp: "manifest_candidates (fs_put f (mf_tmp_name n) bs) = manifest_candidates f"
proof (cases "fs_lookup f (mf_tmp_name n)")
  case None
  have "names (fs_put f (mf_tmp_name n) bs) = names f @ [(mf_tmp_name n, next_inode f)]"
    by (simp add: fs_put_def fs_create_def None fs_alloc_def fs_set_def)
  from candidates_append [OF this] show ?thesis by simp
next
  case (Some i)
  then have "names (fs_put f (mf_tmp_name n) bs) = names f"
    by (simp add: fs_put_def fs_create_def fs_set_def)
  then show ?thesis by (simp add: manifest_candidates_def)
qed

lemma max_by_version_None [simp]: "max_by_version cs = None \<longleftrightarrow> cs = []"
  by (cases cs) auto

lemma recover_put_tmp:
  assumes "fs_wf f" "manifest_candidates f \<noteq> []"
  shows "fst (recover_or_init crc (fs_put f (mf_tmp_name n) bs)) = fst (recover_or_init crc f)"
proof -
  from assms(2) obtain v nm where mx: "max_by_version (manifest_candidates f) = Some (v, nm)"
    by (cases "max_by_version (manifest_candidates f)") auto
  then have "(v, nm) \<in> set (manifest_candidates f)" by (rule max_by_version_Some)
  then have "nm \<noteq> mf_tmp_name n" by (auto simp: candidates_iff)
  then have "try_open crc (fs_put f (mf_tmp_name n) bs) nm = try_open crc f nm"
    using assms(1) by (intro try_open_cong) (simp add: fs_put_read)
  with mx show ?thesis
    by (simp add: recover_or_init_def candidates_put_tmp split: sum.split)
qed


subsection \<open>The commit\<close>

lemma fs_put_lookup_same: "\<exists>i. fs_lookup (fs_put f nm bs) nm = Some i"
  by (cases "fs_create f nm") (simp add: fs_put_def fs_create_lookup)

text \<open>Writing the temporary file and renaming it over the final name, with nobody in between.\<close>

lemma commit_alone:
  fixes crc
  assumes wf: "fs_wf f" and upto: "versions_upto f v" and ok: "manifest_ok m"
  defines "f2 \<equiv> write_to_path crc m (mf_tmp_name (unat v)) f"
  shows "\<exists>f4. fs_rename f2 (mf_tmp_name (unat v)) (mf_name (unat v)) = Inr f4 \<and> fs_wf f4
    \<and> versions_upto f4 v \<and> recover_or_init crc f4 = (Inr (manifest_reopened m v), f4)
    \<and> next_inode f \<le> next_inode f4
    \<and> (\<forall>nm. nm \<noteq> mf_tmp_name (unat v) \<and> nm \<noteq> mf_name (unat v) \<longrightarrow> fs_lookup f4 nm = fs_lookup f nm)
    \<and> (\<forall>j < next_inode f. fs_lookup f (mf_tmp_name (unat v)) \<noteq> Some j \<longrightarrow> data f4 j = data f j)"
proof -
  let ?tmp = "mf_tmp_name (unat v)" and ?mf = "mf_name (unat v)"
  obtain f4 where f4: "fs_rename f2 ?tmp ?mf = Inr f4"
    using fs_put_lookup_same [of f ?tmp "manifest_encode crc m"]
    by (auto simp: fs_rename_def f2_def write_to_path_put)
  have wf2: "fs_wf f2" by (simp add: f2_def write_to_path_put fs_put_wf wf)
  have cand2: "manifest_candidates f2 = manifest_candidates f"
    by (simp add: f2_def write_to_path_put candidates_put_tmp)
  obtain cs where cs: "manifest_candidates f4 = cs @ [(unat v, ?mf)]"
    and sub: "set cs \<subseteq> set (manifest_candidates f)"
    using candidates_rename [OF f4 unat_u32_less] cand2 by auto
  have rd: "fs_read f4 nm = (if nm = ?mf then Some (manifest_encode crc m) else if nm = ?tmp then None
      else fs_read f nm)" for nm
    using fs_rename_read [OF f4, of nm] wf by (simp add: f2_def write_to_path_put fs_put_read)
  from upto sub have le: "\<forall>c \<in> set cs. fst c \<le> unat v" by (auto simp: versions_upto_def)
  then have "recover_or_init crc f4 = (Inr (manifest_reopened m v), f4)"
    using recover_newest [OF cs _ ok] rd by simp
  moreover have "versions_upto f4 v" using cs le by (auto simp: versions_upto_def)
  moreover have "next_inode f \<le> next_inode f4"
    using fs_put_next_inode [of f ?tmp "manifest_encode crc m"] f4
    by (auto simp: fs_rename_def f2_def write_to_path_put split: option.splits)
  moreover have "fs_lookup f4 nm = fs_lookup f nm" if "nm \<noteq> ?tmp \<and> nm \<noteq> ?mf" for nm
    using fs_rename_lookup [OF f4, of nm] that by (simp add: f2_def write_to_path_put fs_put_lookup)
  moreover have "data f4 j = data f j" if "j < next_inode f" "fs_lookup f ?tmp \<noteq> Some j" for j
    using fs_put_data_other [OF that] fs_rename_data [OF f4] by (simp add: f2_def write_to_path_put)
  ultimately show ?thesis using f4 fs_rename_wf [OF wf2 f4] by blast
qed

text \<open>What a successful update leaves: the caller's result is the shared manifest.\<close>

lemma update_loop_Inr:
  assumes "update_loop crc mutator others n (guard, f) = (Inr m, guard', f')"
  shows "guard' = m \<and> (\<exists>snapshot f0 f1 changed k.
    mutator snapshot f0 = (Inr changed, f1) \<and> m = changed\<lparr>version := version changed + 1\<rparr> \<and>
    version (fst (others k (snapshot, write_to_path crc m (mf_tmp_name (unat (version m))) f1))) = version snapshot)"
  using assms
proof (induction n arbitrary: guard f)
  case (Suc n)
  then obtain changed f1 where m: "mutator guard f = (Inr changed, f1)"
    by (auto split: sum.splits prod.splits)
  let ?c = "changed\<lparr>version := version changed + 1\<rparr>"
  obtain g2 f3 where o: "others n (guard, write_to_path crc ?c (mf_tmp_name (unat (version ?c))) f1) = (g2, f3)"
    by fastforce
  show ?case
  proof (cases "version g2 = version guard")
    case True
    with Suc.prems m o have "guard' = ?c" "m = ?c"
      by (auto simp: Let_def split: sum.splits)
    with True m o show ?thesis by (metis fst_conv)
  next
    case False
    with Suc.prems m o show ?thesis by (intro Suc.IH [of g2]) (simp add: Let_def)
  qed
qed simp

lemma update_loop_Inl:
  assumes "update_loop crc mutator others n (guard, f) = (Inl e, guard', f')"
    and step: "\<And>k g f. P g \<Longrightarrow> P (fst (others k (g, f)))" and "P guard"
  shows "P guard'"
  using assms(1,3)
proof (induction n arbitrary: guard f)
  case (Suc n)
  show ?case
  proof (cases "mutator guard f")
    case (Pair r f1)
    show ?thesis
    proof (cases r)
      case (Inr changed)
      let ?c = "changed\<lparr>version := version changed + 1\<rparr>"
      obtain g2 f3 where o: "others n (guard, write_to_path crc ?c (mf_tmp_name (unat (version ?c))) f1) = (g2, f3)"
        by fastforce
      with step [OF Suc.prems(2)] have "P g2" by (metis fst_conv)
      with Suc Pair Inr o show ?thesis
        by (cases "version g2 = version guard") (auto simp: Let_def split: sum.splits)
    qed (use Suc.prems Pair in simp)
  qed
qed simp


subsection \<open>Properties\<close>

text \<open>C21: A manifest read back is the one written, whatever follows it in the file, and a manifest file
  cut anywhere is reported as an unexpected end of file and never taken for another manifest.\<close>

theorem manifest_roundtrip:
  assumes "manifest_ok m"
  shows "manifest_decode crc (manifest_encode crc m @ rest) = Inr (manifest_stored m, rest)
    \<and> (strict_prefix p (manifest_encode crc m) \<longrightarrow> manifest_decode crc p = Inl (Io UnexpectedEof))"
  using manifest_decode_encode [OF assms] manifest_decode_torn [OF assms] by blast

definition sample_file :: file_meta where
  "sample_file = \<lparr>file_id = 99, file_size = 1024, min_key = Key 100 [97], max_key = Key 200 [122]\<rparr>"

definition sample_manifest :: manifest where
  "sample_manifest = (manifest_new 1)\<lparr>wals := [1, 2, 3], levels := [\<lparr>files = [sample_file]\<rparr>]\<rparr>"

lemma sample_manifest_ok: "manifest_ok sample_manifest"
  by (simp add: sample_manifest_def sample_file_def manifest_new_def manifest_ok_def level_ok_def
    file_meta_ok_def key_ok_def manifest_body_def level_encode_def file_meta_encode_def vec_encode_def
    key_encode_def u32_encode_def u64_encode_def u16_encode_def)

theorem manifest_roundtrip_witness:
  "manifest_decode (\<lambda>_. 7) (manifest_encode (\<lambda>_. 7) sample_manifest @ [1]) = Inr (manifest_stored sample_manifest, [1])
   \<and> manifest_decode (\<lambda>_. 7) [] = Inl (Io UnexpectedEof)"
proof -
  have "strict_prefix [] (manifest_encode (\<lambda>_. 7) sample_manifest)"
    by (auto simp: manifest_encode_def Let_def u32_encode_def strict_prefix_def
      dest: arg_cong [where f = length])
  with manifest_roundtrip [OF sample_manifest_ok, of "\<lambda>_. 7" "[1]" "[]"] show ?thesis by blast
qed

text \<open>C20: A crash while the temporary file of an update is being written, whatever part of it reached the
  disk, does not change what recovery finds: the manifest before the update.\<close>

theorem manifest_crash_before_rename:
  assumes "fs_wf f" and "manifest_candidates f \<noteq> []"
  shows "fst (recover_or_init crc (fs_put f (mf_tmp_name n) torn)) = fst (recover_or_init crc f)"
  using assms by (rule recover_put_tmp)

text \<open>The directory of a database created and closed.\<close>

definition pristine_fs :: fs where
  "pristine_fs = snd (prepare_pristine_start (\<lambda>_. 0) fs_empty)"

lemma fs_create_open_wf: "fs_wf f \<Longrightarrow> fs_wf (snd (wal_open f n))"
  by (auto simp: wal_open_def Let_def fs_open_append_def fs_append_def fs_wf_alloc
      split: option.splits prod.splits sum.splits)

lemma pristine_fs_wf: "fs_wf pristine_fs"
  using fs_create_open_wf [of fs_empty 0]
  by (auto simp: pristine_fs_def prepare_pristine_start_def write_to_disk_def write_to_path_put
      fs_put_wf Let_def split: prod.splits sum.splits)

lemma pristine_fs_names: "names pristine_fs = [(wal_name 0, 0), (mf_name 0, 1)]"
  by (simp add: pristine_fs_def prepare_pristine_start_def wal_open_def fs_open_append_def fs_empty_def
      fs_lookup_def fs_alloc_def Let_def fs_append_def fs_set_def write_to_disk_def write_to_path_def fs_create_def)

lemma pristine_fs_candidates: "manifest_candidates pristine_fs = [(0, mf_name 0)]"
  by (simp add: manifest_candidates_def List.map_filter_def pristine_fs_names parse_fmt05)

theorem manifest_crash_before_rename_witness:
  "fst (recover_or_init (\<lambda>_. 0) (fs_put pristine_fs (mf_tmp_name 1) [1, 2])) = fst (recover_or_init (\<lambda>_. 0) pristine_fs)"
  using manifest_crash_before_rename [OF pristine_fs_wf, of "\<lambda>_. 0" 1 "[1, 2]"]
  by (simp add: pristine_fs_candidates)

text \<open>C10: A commit nobody interferes with succeeds at the first attempt; the result is the caller's change
  under the next version, it becomes the shared manifest, and a restart at any time after it
  recovers that manifest.\<close>

theorem manifest_update_durable:
  assumes "fs_wf f" "versions_upto f (version m)" "unat (version m) + 1 < 2 ^ 32"
    and "mutator m f = (Inr m1, f)" "version m1 = version m" "manifest_ok m1"
  shows "\<exists>f'. apply_atomic_update crc mutator alone (m, f) =
      (Inr (m1\<lparr>version := version m + 1\<rparr>), m1\<lparr>version := version m + 1\<rparr>, f')
    \<and> recover_or_init crc f' = (Inr (manifest_reopened m1 (version m + 1)), f')"
proof -
  let ?v = "version m + 1" and ?m = "m1\<lparr>version := version m + 1\<rparr>"
  have "unat ?v = unat (version m) + 1"
    using assms(3) by (simp add: unat_add_lem [THEN iffD1])
  with assms(2) have "versions_upto f ?v" by (auto simp: versions_upto_def)
  moreover have "manifest_ok ?m" using assms(6) by (simp add: manifest_ok_def manifest_body_def)
  ultimately obtain f4 where
    "fs_rename (write_to_path crc ?m (mf_tmp_name (unat ?v)) f) (mf_tmp_name (unat ?v)) (mf_name (unat ?v)) = Inr f4"
    "recover_or_init crc f4 = (Inr (manifest_reopened ?m ?v), f4)"
    using commit_alone [OF assms(1), of ?v ?m crc] by blast
  moreover have "manifest_reopened ?m ?v = manifest_reopened m1 ?v" by (simp add: manifest_reopened_def)
  ultimately show ?thesis
    by (simp add: apply_atomic_update_def alone_def assms(4,5) Let_def numeral_3_eq_3)
qed

theorem manifest_update_durable_witness:
  "\<exists>f'. apply_atomic_update (\<lambda>_. 0) (\<lambda>m f. (Inr (m\<lparr>levels := [\<lparr>files = [sample_file]\<rparr>]\<rparr>), f)) alone
      (manifest_new 0, pristine_fs) =
        (Inr ((manifest_new 0)\<lparr>levels := [\<lparr>files = [sample_file]\<rparr>], version := 1\<rparr>),
         (manifest_new 0)\<lparr>levels := [\<lparr>files = [sample_file]\<rparr>], version := 1\<rparr>, f')
    \<and> recover_or_init (\<lambda>_. 0) f' =
        (Inr (manifest_reopened ((manifest_new 0)\<lparr>levels := [\<lparr>files = [sample_file]\<rparr>]\<rparr>) 1), f')"
proof -
  have "versions_upto pristine_fs 0"
    by (simp add: versions_upto_def pristine_fs_candidates)
  moreover have "manifest_ok ((manifest_new 0)\<lparr>levels := [\<lparr>files = [sample_file]\<rparr>]\<rparr>)"
    using sample_manifest_ok by (simp add: manifest_ok_def sample_manifest_def manifest_new_def manifest_body_def vec_encode_def u32_encode_def)
  ultimately show ?thesis
    using manifest_update_durable [OF pristine_fs_wf, of "manifest_new 0"
      "\<lambda>m f. (Inr (m\<lparr>levels := [\<lparr>files = [sample_file]\<rparr>]\<rparr>), f)" _ "\<lambda>_. 0"]
    by (simp add: manifest_new_def)
qed

text \<open>A change of the shared manifest that does not raise its version, made between the snapshot and the
  commit of an update, leaves no trace in what the update commits.\<close>

lemma update_not_disturbed:
  assumes "apply_atomic_update crc mutator alone (m, f) = (Inr r, m', f')"
    and "\<And>f. others 2 (m, f) = (g, f)" "version g = version m"
  shows "apply_atomic_update crc mutator others (m, f) = (Inr r, m', f')"
proof -
  from assms(2) have others: "others (Suc (Suc 0)) (m, f) = (g, f)" for f by (simp add: numeral_2_eq_2)
  show ?thesis using assms(1,3) others
    by (auto simp: apply_atomic_update_def numeral_3_eq_3 alone_def Let_def split: prod.splits sum.splits)
qed

text \<open>C13: An update is atomic with respect to other updates of the shared manifest that raise its version:
  whatever they do between snapshot and commit, at most three attempts are made, and a result is the
  caller's change of the shared manifest as it is at the commit, under the next version.\<close>

theorem manifest_update_linearizable:
  assumes "\<forall>k g f. version (fst (others k (g, f))) = version g \<longrightarrow> fst (others k (g, f)) = g"
    and "apply_atomic_update crc mutator others (guard, f) = (Inr m, guard', f')"
  shows "guard' = m \<and> (\<exists>at_commit f0 f1 f2 changed k. fst (others k (at_commit, f2)) = at_commit
    \<and> mutator at_commit f0 = (Inr changed, f1) \<and> m = changed\<lparr>version := version changed + 1\<rparr>)"
  using assms(1) update_loop_Inr [OF assms(2) [unfolded apply_atomic_update_def]] by metis

theorem manifest_update_linearizable_witness:
  "let (r, g, f) = apply_atomic_update (\<lambda>_. 0) (\<lambda>m f. (Inr (m\<lparr>wals := []\<rparr>), f))
      (\<lambda>k (g, f). if k = 2 then (g\<lparr>levels := [], version := version g + 1\<rparr>, f) else (g, f))
      (sample_manifest, fs_empty)
   in r = Inr g \<and> version g = 2 \<and> levels g = [] \<and> wals g = []"
proof -
  let ?others = "\<lambda>k (g, f). if k = (2 :: nat) then (g\<lparr>levels := [], version := version g + 1\<rparr>, f :: fs) else (g, f)"
  let ?mut = "\<lambda>m f. (Inr (m\<lparr>wals := []\<rparr>) :: manifest result, f :: fs)"
  let ?u = "apply_atomic_update (\<lambda>_. 0) ?mut ?others (sample_manifest, fs_empty)"
  have "fst ?u = Inr (sample_manifest\<lparr>levels := [], wals := [], version := 2\<rparr>)" by code_simp
  then obtain g f where u: "?u = (Inr (sample_manifest\<lparr>levels := [], wals := [], version := 2\<rparr>), g, f)"
    by (cases ?u) auto
  have "\<forall>k g f. version (fst (?others k (g, f))) = version g \<longrightarrow> fst (?others k (g, f)) = g"
    by simp
  from manifest_update_linearizable [OF this u] u show ?thesis by simp
qed

end
