(* ===== verification/Sstable.thy ===== *)
theory Sstable
  imports Bloom Entries Files Manifest
begin

text \<open>
  SSTables (\<open>src/data_stores/sstable.rs\<close>): the block builder, the writer, the file format, the
  reader's \<open>Sstable::new\<close>, the point lookup and the iterator. Panics (of the Bloom filter's
  indexing) are \<open>None\<close>. The crates the file relies on are parameters, bundled in the record
  \<open>ext\<close>: the checksum of \<open>crc32fast\<close>, the hash of \<open>siphasher\<close>, and serialization and
  deserialization of the filter by \<open>bincode\<close>; \<open>ext_ok\<close> states what the code relies on: a
  filter deserializes to what was serialized, and takes the size of its fields.
\<close>

subsection \<open>The crates\<close>

record ext =
  x_crc :: "bytes \<Rightarrow> u32"
  x_sip :: "u64 \<times> u64 \<Rightarrow> bytes \<Rightarrow> u64"
  x_ser :: "bloom \<Rightarrow> bytes option"
  x_de :: "bytes \<Rightarrow> bloom option"

definition ext_ok :: "ext \<Rightarrow> bool" where
  "ext_ok x \<longleftrightarrow>
     (\<forall>b. length (bitmap b) < 2 ^ 32 \<longrightarrow>
       (\<exists>bs. x_ser x b = Some bs \<and> x_de x bs = Some b \<and> length bs \<le> 52 + 8 * length (bitmap b)))"

subsection \<open>The block builder\<close>

definition BLOCK_SIZE :: nat where "BLOCK_SIZE = 4096"
definition MAGIC_NUMBER_BYTES :: bytes where "MAGIC_NUMBER_BYTES = [0x41, 0x42, 0x43, 0x44]"

record block_builder =
  buffer :: bytes
  bb_min :: "key option"
  bb_max :: "key option"

definition block_new :: block_builder where
  "block_new = \<lparr>buffer = [], bb_min = None, bb_max = None\<rparr>"

definition block_add :: "key \<Rightarrow> val \<Rightarrow> block_builder \<Rightarrow> block_builder" where
  "block_add k v b =
     \<lparr>buffer = buffer b @ key_encode k @ val_encode v,
      bb_min = (if bb_min b = None then Some k else bb_min b),
      bb_max = Some k\<rparr>"

definition block_is_full :: "block_builder \<Rightarrow> bool" where
  "block_is_full b \<longleftrightarrow> BLOCK_SIZE \<le> length (buffer b)"

definition block_is_empty :: "block_builder \<Rightarrow> bool" where
  "block_is_empty b \<longleftrightarrow> buffer b = []"

definition block_flush :: "ext \<Rightarrow> block_builder \<Rightarrow> (bytes \<times> key option \<times> key option) \<times> block_builder" where
  "block_flush x b =
     (if buffer b = [] then (([], None, None), b)
      else ((to_le 4 (of_nat (length (buffer b)) :: u32) @ to_le 4 (x_crc x (buffer b)) @ buffer b,
             bb_min b, bb_max b),
            \<lparr>buffer = [], bb_min = None, bb_max = None\<rparr>))"

subsection \<open>The writer\<close>

text \<open>
  \<open>wr_out\<close> is what was written through the \<open>BufWriter\<close> so far, so \<open>stream_position\<close> is its
  length; it is in the file for certain once \<open>finalize\<close> has flushed and synced it.
\<close>

type_synonym index = "(key \<times> key \<times> u64) list"

record writer =
  wr_file :: inode
  wr_out :: bytes
  current_block :: block_builder
  index_entries :: index
  wr_bloom :: bloom
  wr_min :: "key option"
  wr_max :: "key option"

definition writer_new :: "fs \<Rightarrow> string \<Rightarrow> writer \<times> fs" where
  "writer_new f path =
     (let (i, f1) = fs_create f path in
      (\<lparr>wr_file = i, wr_out = [], current_block = block_new, index_entries = [],
        wr_bloom = bloom_new_1000, wr_min = None, wr_max = None\<rparr>, f1))"

definition flush_block :: "ext \<Rightarrow> writer \<Rightarrow> writer" where
  "flush_block x w =
     (let ((block_data, mn, mx), b) = block_flush x (current_block w); w1 = w\<lparr>current_block := b\<rparr> in
      if block_data = [] then w1
      else
        let offset = of_nat (length (wr_out w1));
            w2 = w1\<lparr>wr_out := wr_out w1 @ block_data\<rparr>
        in (case (mn, mx) of
              (Some mn, Some mx) \<Rightarrow> w2\<lparr>index_entries := index_entries w2 @ [(mn, mx, offset)]\<rparr>
            | _ \<Rightarrow> w2))"

definition writer_write :: "ext \<Rightarrow> key \<Rightarrow> val \<Rightarrow> writer \<Rightarrow> writer option" where
  "writer_write x k v w =
     Option.bind (bloom_set (x_sip x) (kbytes k) (wr_bloom w)) (\<lambda>bl.
       let w1 = w\<lparr>wr_bloom := bl,
                  wr_min := (if wr_min w = None then Some k else wr_min w),
                  wr_max := Some k,
                  current_block := block_add k v (current_block w)\<rparr>
       in Some (if block_is_full (current_block w1) then flush_block x w1 else w1))"

definition current_size :: "writer \<Rightarrow> u64" where
  "current_size w = of_nat (length (wr_out w))"

definition index_encode :: "index \<Rightarrow> bytes" where
  "index_encode ix = concat (map (\<lambda>(mn, mx, off). key_encode mn @ key_encode mx @ to_le 8 off) ix)"

definition wrap_block :: "ext \<Rightarrow> bytes \<Rightarrow> bytes" where
  "wrap_block x d = to_le 4 (of_nat (length d) :: u32) @ to_le 4 (x_crc x d) @ d"

definition writer_finalize :: "ext \<Rightarrow> writer \<Rightarrow> fs \<Rightarrow> file_meta result \<times> fs" where
  "writer_finalize x w0 f =
     (let w = (if \<not> block_is_empty (current_block w0) then flush_block x w0 else w0);
          index_offset = of_nat (length (wr_out w)) :: u64;
          mn = (case wr_min w of Some k \<Rightarrow> k | None \<Rightarrow> key_new [] 0);
          mx = (case wr_max w of Some k \<Rightarrow> k | None \<Rightarrow> key_new [] 0);
          range = (case (wr_min w, wr_max w) of
                     (Some mn, Some mx) \<Rightarrow> key_encode mn @ key_encode mx
                   | _ \<Rightarrow> []);
          index_data = range @ index_encode (index_entries w);
          out1 = wr_out w @ wrap_block x index_data;
          bloom_offset = of_nat (length out1) :: u64
      in case x_ser x (wr_bloom w) of
           None \<Rightarrow> (Inl ManifestCorrupted, fs_set f (wr_file w) out1)
         | Some bloom_data \<Rightarrow>
             (let footer = to_le 8 index_offset @ to_le 8 bloom_offset;
                  out2 = out1 @ wrap_block x bloom_data @ footer @ to_le 4 (x_crc x footer) @ MAGIC_NUMBER_BYTES
              in (Inr \<lparr>file_id = 0, file_size = of_nat (length out2), min_key = mn, max_key = mx\<rparr>,
                  fs_set f (wr_file w) out2)))"

subsection \<open>Opening\<close>

record sstable =
  sst_id :: u32
  sst_file :: inode
  sst_index :: index
  sst_bloom :: bloom
  sst_min :: key
  sst_max :: key

definition read_exact_at :: "bytes \<Rightarrow> nat \<Rightarrow> nat \<Rightarrow> bytes result" where
  "read_exact_at file off n =
     (if n = 0 \<or> off + n \<le> length file then Inr (take n (drop off file)) else Inl (Io UnexpectedEof))"

definition read_block_with_crc_at :: "ext \<Rightarrow> bytes \<Rightarrow> u64 \<Rightarrow> bytes result" where
  "read_block_with_crc_at x file offset =
     and_then (read_exact_at file (unat offset) 4) (\<lambda>len_buf.
     let len = unat (from_le len_buf :: u32) in
     and_then (read_exact_at file (unat (offset + 4)) 4) (\<lambda>crc_buf.
     let stored_crc = from_le crc_buf in
     and_then (read_exact_at file (unat (offset + 8)) len) (\<lambda>d.
       if x_crc x d \<noteq> stored_crc then Inl ManifestCorrupted else Inr d)))"

function parse_index :: "bytes \<Rightarrow> index result" where
  "parse_index bs =
     (if bs = [] then Inr []
      else case key_decode bs of
        Inl e \<Rightarrow> Inl e
      | Inr (mn, bs1) \<Rightarrow>
     (case key_decode bs1 of
        Inl e \<Rightarrow> Inl e
      | Inr (mx, bs2) \<Rightarrow>
     (case read_exact 8 bs2 of
        Inl e \<Rightarrow> Inl e
      | Inr (off_buf, bs3) \<Rightarrow>
          and_then (parse_index bs3) (\<lambda>ix. Inr ((mn, mx, from_le off_buf) # ix)))))"
  by pat_completeness auto
termination
proof (relation "measure length", goal_cases)
  case (2 bs p mn bs1 p' mx bs2 p'' off_buf bs3)
  then have "length bs1 < length bs" "length bs2 < length bs1" "length bs3 \<le> length bs2"
    by (auto dest: key.dec_shorter read_exact_Inr)
  then show ?case by simp
qed simp

declare parse_index.simps [simp del]

definition sst_new :: "ext \<Rightarrow> fs \<Rightarrow> string \<Rightarrow> sstable result" where
  "sst_new x f path =
     (case parse_u32 (path_stem path) of
        None \<Rightarrow> Inl ManifestCorrupted
      | Some n \<Rightarrow>
     (case fs_lookup f path of
        None \<Rightarrow> Inl (Io NotFound)
      | Some i \<Rightarrow>
     let file = data f i; file_len = length file in
     if file_len < 24 then Inl ManifestCorrupted
     else
     let footer_buf = drop (file_len - 24) file;
         index_offset = from_le (take 8 footer_buf) :: u64;
         bloom_offset = from_le (take 8 (drop 8 footer_buf)) :: u64;
         stored_checksum = from_le (take 4 (drop 16 footer_buf))
     in
     if drop 20 footer_buf \<noteq> MAGIC_NUMBER_BYTES then Inl ManifestCorrupted
     else if x_crc x (take 16 footer_buf) \<noteq> stored_checksum then Inl ManifestCorrupted
     else
     and_then (read_block_with_crc_at x file bloom_offset) (\<lambda>bloom_data.
     case x_de x bloom_data of
       None \<Rightarrow> Inl ManifestCorrupted
     | Some bl \<Rightarrow>
     and_then (read_block_with_crc_at x file index_offset) (\<lambda>index_data.
     and_then (key_decode index_data) (\<lambda>(mn, c1).
     and_then (key_decode c1) (\<lambda>(mx, c2).
     and_then (parse_index c2) (\<lambda>ix.
       Inr \<lparr>sst_id = of_nat n, sst_file = i, sst_index = ix, sst_bloom = bl,
            sst_min = mn, sst_max = mx\<rparr>)))))))"

subsection \<open>Lookup\<close>

text \<open>The linear scan of a block.\<close>

function scan_block :: "bytes \<Rightarrow> bytes \<Rightarrow> val option result" where
  "scan_block key_bytes cursor =
     (if cursor = [] then Inr None
      else case key_decode cursor of
        Inl e \<Rightarrow> Inl e
      | Inr (k, c1) \<Rightarrow>
     (case val_decode c1 of
        Inl e \<Rightarrow> Inl e
      | Inr (v, c2) \<Rightarrow>
          (if kbytes k = key_bytes then Inr (Some v)
           else if key_bytes < kbytes k then Inr None
           else scan_block key_bytes c2)))"
  by pat_completeness auto
termination
proof (relation "measure (\<lambda>(_, c). length c)", goal_cases)
  case (2 key_bytes cursor p k c1 p' v c2)
  then have "length c1 < length cursor" "length c2 < length c1"
    by (auto dest: key.dec_shorter val.dec_shorter)
  then show ?case by simp
qed simp

declare scan_block.simps [simp del]

definition search_block :: "ext \<Rightarrow> fs \<Rightarrow> sstable \<Rightarrow> bytes \<Rightarrow> u64 \<Rightarrow> val option result" where
  "search_block x f s key_bytes offset =
     and_then (read_block_with_crc_at x (data f (sst_file s)) offset) (scan_block key_bytes)"

text \<open>\<open>slice::partition_point\<close> of a list the predicate partitions.\<close>

definition partition_point :: "('a \<Rightarrow> bool) \<Rightarrow> 'a list \<Rightarrow> nat" where
  "partition_point P xs = length (takeWhile P xs)"

definition sst_search :: "ext \<Rightarrow> fs \<Rightarrow> sstable \<Rightarrow> bytes \<Rightarrow> val option result option" where
  "sst_search x f s key_bytes =
     Option.bind (bloom_check (x_sip x) (sst_bloom s) key_bytes) (\<lambda>hit.
     if \<not> hit then Some (Inr None)
     else
       let target = key_new key_bytes (-1);
           idx = partition_point (\<lambda>(_, mx, _). mx < target) (sst_index s)
       in if idx < length (sst_index s) then
            (case sst_index s ! idx of (mn, _, offset) \<Rightarrow>
               if key_bytes < kbytes mn then Some (Inr None)
               else Some (search_block x f s key_bytes offset))
          else Some (Inr None))"

subsection \<open>The iterator\<close>

text \<open>\<open>BlockIterator::next\<close> over the bytes left in its cursor.\<close>

definition block_iter_next :: "bytes \<Rightarrow> (entry \<times> bytes) result option" where
  "block_iter_next cursor =
     (if cursor = [] then None
      else Some (and_then (key_decode cursor) (\<lambda>(k, c1).
                 and_then (val_decode c1) (\<lambda>(v, c2). Inr ((k, v), c2)))))"

record sst_iter =
  it_sst :: sstable
  it_block_idx :: nat
  it_block :: "bytes option"

definition sst_iter_new :: "sstable \<Rightarrow> sst_iter" where
  "sst_iter_new s = \<lparr>it_sst = s, it_block_idx = 0, it_block = None\<rparr>"

definition ensure_block_loaded :: "ext \<Rightarrow> fs \<Rightarrow> sst_iter \<Rightarrow> (bool \<times> sst_iter) result" where
  "ensure_block_loaded x f it =
     (if (case it_block it of None \<Rightarrow> True | Some cursor \<Rightarrow> cursor = []) then
        (if length (sst_index (it_sst it)) \<le> it_block_idx it then Inr (False, it)
         else
           let (_, _, offset) = sst_index (it_sst it) ! it_block_idx it in
           and_then (read_block_with_crc_at x (data f (sst_file (it_sst it))) offset) (\<lambda>d.
             Inr (True, it\<lparr>it_block := Some d, it_block_idx := it_block_idx it + 1\<rparr>)))
      else Inr (True, it))"

definition sst_iter_next :: "ext \<Rightarrow> fs \<Rightarrow> sst_iter \<Rightarrow> (entry \<times> sst_iter) result option" where
  "sst_iter_next x f it =
     (case ensure_block_loaded x f it of
        Inl e \<Rightarrow> Some (Inl e)
      | Inr (has_more, it1) \<Rightarrow>
          (if \<not> has_more then None
           else case block_iter_next (case it_block it1 of Some c \<Rightarrow> c | None \<Rightarrow> []) of
             None \<Rightarrow> None
           | Some (Inl e) \<Rightarrow> Some (Inl e)
           | Some (Inr (e, rest)) \<Rightarrow> Some (Inr (e, it1\<lparr>it_block := Some rest\<rparr>))))"

subsection \<open>Blocks in a file\<close>

abbreviation enc_all :: "entry list \<Rightarrow> bytes" where
  "enc_all es \<equiv> concat (map entry_encode es)"

lemma block_flush_wrap:
  "buffer b \<noteq> [] \<Longrightarrow> block_flush x b = ((wrap_block x (buffer b), bb_min b, bb_max b), block_new)"
  by (simp add: block_flush_def wrap_block_def block_new_def)

lemma length_wrap_block [simp]: "length (wrap_block x d) = 8 + length d"
  by (simp add: wrap_block_def)

lemma read_exact_at_mid:
  "length pre = off \<Longrightarrow> length m = n \<Longrightarrow> read_exact_at (pre @ m @ post) off n = Inr m"
  by (simp add: read_exact_at_def)

text \<open>A wrapped block is read back from its offset, whatever surrounds it.\<close>

lemma read_block_wrap:
  assumes "length pre = unat off" "length d < 2 ^ 32" "unat off + 8 < 2 ^ 64"
  shows "read_block_with_crc_at x (pre @ wrap_block x d @ post) off = Inr d"
proof -
  let ?l = "to_le 4 (of_nat (length d) :: u32)" and ?c = "to_le 4 (x_crc x d)"
  have offs: "unat (off + 4) = unat off + 4" "unat (off + 8) = unat off + 8"
    using assms(3) by (simp_all add: unat_add_lem [THEN iffD1])
  have "read_exact_at (pre @ ?l @ ?c @ d @ post) (unat off) 4 = Inr ?l"
    by (rule read_exact_at_mid) (simp_all add: assms)
  moreover have "read_exact_at ((pre @ ?l) @ ?c @ d @ post) (unat off + 4) 4 = Inr ?c"
    by (rule read_exact_at_mid) (simp_all add: assms)
  moreover have "read_exact_at ((pre @ ?l @ ?c) @ d @ post) (unat off + 8) (length d) = Inr d"
    by (rule read_exact_at_mid) (simp_all add: assms)
  moreover have "unat (of_nat (length d) :: u32) = length d" by (rule unat_of_nat_32) (rule assms)
  ultimately show ?thesis
    by (simp add: read_block_with_crc_at_def wrap_block_def Let_def offs)
qed

lemma parse_index_encode:
  "\<forall>(mn, mx, off) \<in> set ix. key_ok mn \<and> key_ok mx \<Longrightarrow> parse_index (index_encode ix) = Inr ix"
proof (induction ix)
  case Nil
  then show ?case by (simp add: index_encode_def parse_index.simps)
next
  case (Cons e ix)
  obtain mn mx off where e: "e = (mn, mx, off)" by (cases e)
  with Cons.prems have ok: "key_ok mn" "key_ok mx" by auto
  have enc: "index_encode (e # ix) = key_encode mn @ key_encode mx @ to_le 8 off @ index_encode ix"
    by (simp add: index_encode_def e)
  have "key_encode mn @ key_encode mx @ to_le 8 off @ index_encode ix \<noteq> []"
    using key.enc_nonempty [OF ok(1)] by simp
  with ok Cons show ?case
    unfolding enc by (subst parse_index.simps) (simp add: key.dec_enc read_exact_append e)
qed

lemma scan_block_enc:
  assumes "list_all entry_ok es" "run_sorted es"
  shows "scan_block bs (enc_all es) = Inr (map_option snd (latest es bs))"
  using assms
proof (induction es)
  case Nil
  then show ?case by (simp add: scan_block.simps)
next
  case (Cons e es)
  obtain k v where e: "e = (k, v)" by (cases e)
  with Cons.prems have ok: "key_ok k" "val_ok v" by auto
  have "latest es bs = None" if "bs < kbytes k"
    using Cons.prems(2) that by (force simp: e latest_None_iff key_less_iff)
  then have "map_option snd (latest (e # es) bs) =
      (if kbytes k = bs then Some v else if bs < kbytes k then None else map_option snd (latest es bs))"
    by (simp add: e)
  moreover have "key_encode k \<noteq> []" by (rule key.enc_nonempty [OF ok(1)])
  ultimately show ?case
    using Cons ok by (subst scan_block.simps) (simp add: e entry_encode_eq key.dec_enc val.dec_enc)
qed

subsection \<open>The layout the writer produces\<close>

text \<open>The blocks of a file, each with its keys and its offset.\<close>

fun layout :: "ext \<Rightarrow> nat \<Rightarrow> entry list list \<Rightarrow> index" where
  "layout x off [] = []"
| "layout x off (b # bs) =
     (fst (hd b), fst (last b), of_nat off) # layout x (off + length (wrap_block x (enc_all b))) bs"

definition blocks_bytes :: "ext \<Rightarrow> entry list list \<Rightarrow> bytes" where
  "blocks_bytes x bs = concat (map (\<lambda>b. wrap_block x (enc_all b)) bs)"

lemma blocks_bytes_simps [simp]:
  "blocks_bytes x [] = []"
  "blocks_bytes x (b # bs) = wrap_block x (enc_all b) @ blocks_bytes x bs"
  "blocks_bytes x (bs @ bs') = blocks_bytes x bs @ blocks_bytes x bs'"
  by (simp_all add: blocks_bytes_def)

lemma layout_append: "layout x off (bs @ bs') = layout x off bs @ layout x (off + length (blocks_bytes x bs)) bs'"
  by (induction bs arbitrary: off) (simp_all add: add.assoc)

lemma length_layout [simp]: "length (layout x off bs) = length bs"
  by (induction bs arbitrary: off) auto

lemma layout_nth:
  "i < length bs \<Longrightarrow> layout x off bs ! i =
     (fst (hd (bs ! i)), fst (last (bs ! i)), of_nat (off + length (blocks_bytes x (take i bs))))"
proof (induction bs arbitrary: off i)
  case (Cons b bs)
  then show ?case by (cases i) (simp_all add: add.assoc)
qed simp

lemma set_layout: "(mn, mx, off') \<in> set (layout x off bs) \<Longrightarrow> \<exists>b \<in> set bs. mn = fst (hd b) \<and> mx = fst (last b)"
  by (induction bs arbitrary: off) auto

text \<open>A full block is at most its entries, which are at most the run.\<close>

definition run_fits :: "entry list \<Rightarrow> bool" where
  "run_fits es \<longleftrightarrow> list_all entry_ok es \<and> length (enc_all es) < 2 ^ 29"

lemma read_layout_block:
  assumes "i < length bs" "length (enc_all (bs ! i)) < 2 ^ 32" "length (blocks_bytes x bs) < 2 ^ 64"
  shows "read_block_with_crc_at x (blocks_bytes x bs @ rest) (snd (snd (layout x 0 bs ! i))) = Inr (enc_all (bs ! i))"
proof -
  let ?pre = "blocks_bytes x (take i bs)"
  have split: "blocks_bytes x bs = ?pre @ wrap_block x (enc_all (bs ! i)) @ blocks_bytes x (drop (Suc i) bs)"
    using id_take_nth_drop [OF assms(1)] by (metis blocks_bytes_simps(2,3))
  then have "length (blocks_bytes x bs) = length ?pre + (length (wrap_block x (enc_all (bs ! i))) + length (blocks_bytes x (drop (Suc i) bs)))"
    by (metis length_append)
  then have len: "length ?pre + 8 < 2 ^ 64" using assms(3) by (simp add: wrap_block_def Let_def)
  then have "unat (of_nat (length ?pre) :: u64) = length ?pre" by (intro unat_of_nat_64) simp
  then show ?thesis
    using assms(1,2) len by (simp add: layout_nth split read_block_wrap)
qed

subsection \<open>The writer's invariant\<close>

text \<open>The Bloom filter of a run.\<close>

definition filter_of :: "ext \<Rightarrow> entry list \<Rightarrow> bloom option" where
  "filter_of x es = ofold (bloom_set (x_sip x)) (map (kbytes \<circ> fst) es) bloom_new_1000"

lemma filter_of_Nil [simp]: "filter_of x [] = Some bloom_new_1000"
  by (simp add: filter_of_def)

lemma filter_of_snoc:
  assumes "filter_of x es = Some b"
  shows "filter_of x (es @ [(k, v)]) = bloom_set (x_sip x) (kbytes k) b"
  using assms by (cases "bloom_set (x_sip x) (kbytes k) b") (simp_all add: filter_of_def ofold_append)

text \<open>
  After the entries \<open>es\<close> were written: some of them are in the blocks written out, the others
  in the current block, which is not full; the index describes the blocks.
\<close>

definition writer_inv :: "ext \<Rightarrow> entry list \<Rightarrow> entry list list \<Rightarrow> entry list \<Rightarrow> writer \<Rightarrow> bool" where
  "writer_inv x es blocks cur w \<longleftrightarrow>
     es = concat blocks @ cur \<and> [] \<notin> set blocks
     \<and> wr_out w = blocks_bytes x blocks \<and> index_entries w = layout x 0 blocks
     \<and> current_block w =
         \<lparr>buffer = enc_all cur, bb_min = (if cur = [] then None else Some (fst (hd cur))),
          bb_max = (if cur = [] then None else Some (fst (last cur)))\<rparr>
     \<and> wr_min w = (if es = [] then None else Some (fst (hd es)))
     \<and> wr_max w = (if es = [] then None else Some (fst (last es)))
     \<and> bloom_ok (wr_bloom w)
     \<and> filter_of x es = Some (wr_bloom w)"

lemma writer_inv_new:
  "writer_new f path = (w, f') \<Longrightarrow> writer_inv x [] [] [] w"
  by (auto simp: writer_new_def writer_inv_def block_new_def bloom_new_1000_ok split: prod.splits)

lemma entry_encode_nonempty [simp]: "entry_encode e \<noteq> []"
  by (cases e) (auto simp: entry_encode_eq dest: arg_cong [where f = length] simp: length_key_encode)

lemma flush_block_inv:
  assumes "writer_inv x es blocks cur w" "cur \<noteq> []"
  shows "writer_inv x es (blocks @ [cur]) [] (flush_block x w)"
proof -
  from assms(2) obtain e cur' where cur: "cur = e # cur'" by (cases cur) auto
  let ?b = "\<lparr>buffer = enc_all cur, bb_min = Some (fst (hd cur)), bb_max = Some (fst (last cur))\<rparr>"
  have cb: "current_block w = ?b" using assms by (simp add: writer_inv_def)
  have "block_flush x ?b = ((wrap_block x (enc_all cur), Some (fst (hd cur)), Some (fst (last cur))), block_new)"
    by (simp add: block_flush_wrap cur)
  then have flush: "block_flush x (current_block w) =
      ((wrap_block x (enc_all cur), Some (fst (hd cur)), Some (fst (last cur))), block_new)"
    by (simp only: cb)
  have "wrap_block x (enc_all cur) \<noteq> []" by (simp add: wrap_block_def numeral_eq_Suc)
  then show ?thesis
    unfolding flush_block_def flush using assms
    by (auto simp: Let_def writer_inv_def layout_append block_new_def)
qed

lemma writer_write_inv:
  assumes "writer_inv x es blocks cur w"
  shows "\<exists>w'. writer_write x k v w = Some w' \<and> wr_file w' = wr_file w
    \<and> (\<exists>blocks' cur'. writer_inv x (es @ [(k, v)]) blocks' cur' w')"
proof -
  from assms have "bloom_ok (wr_bloom w)" by (simp add: writer_inv_def)
  then obtain bl where bl: "bloom_set (x_sip x) (kbytes k) (wr_bloom w) = Some bl" "bloom_ok bl"
    using bloom.insert_ok by blast
  let ?w1 = "w\<lparr>wr_bloom := bl, wr_min := (if wr_min w = None then Some k else wr_min w), wr_max := Some k,
    current_block := block_add k v (current_block w)\<rparr>"
  have inv: "writer_inv x (es @ [(k, v)]) blocks (cur @ [(k, v)]) ?w1"
  proof -
    have "filter_of x es = Some (wr_bloom w)" using assms unfolding writer_inv_def by blast
    then have "filter_of x (es @ [(k, v)]) = Some bl" using bl by (simp add: filter_of_snoc)
    moreover have "es @ [(k, v)] = concat blocks @ cur @ [(k, v)]" using assms unfolding writer_inv_def by auto
    moreover have "wr_min ?w1 = Some (fst (hd (es @ [(k, v)])))"
    proof -
      have "wr_min w = (if es = [] then None else Some (fst (hd es)))"
        using assms unfolding writer_inv_def by blast
      then show ?thesis by (cases es) simp_all
    qed
    ultimately show ?thesis
      unfolding writer_inv_def using assms [unfolded writer_inv_def, THEN conjunct2] bl(2)
      by (simp add: block_add_def entry_encode_eq)
  qed
  have fl: "wr_file (flush_block x ?w1) = wr_file w"
    by (simp add: flush_block_def Let_def split: prod.split option.split)
  let ?w2 = "if block_is_full (current_block ?w1) then flush_block x ?w1 else ?w1"
  have "writer_write x k v w = Some ?w2" by (simp only: writer_write_def bl(1) bind.bind_lunit Let_def)
  moreover have "\<exists>blocks' cur'. writer_inv x (es @ [(k, v)]) blocks' cur' ?w2"
  proof (cases "block_is_full (current_block ?w1)")
    case True
    have "writer_inv x (es @ [(k, v)]) (blocks @ [cur @ [(k, v)]]) [] (flush_block x ?w1)"
      by (rule flush_block_inv [OF inv]) simp
    then show ?thesis unfolding if_P [OF True] by blast
  next
    case False
    from inv show ?thesis unfolding if_not_P [OF False] by blast
  qed
  moreover have "wr_file ?w2 = wr_file w" using fl by simp
  ultimately show ?thesis by blast
qed

definition writer_write_all :: "ext \<Rightarrow> entry list \<Rightarrow> writer \<Rightarrow> writer option" where
  "writer_write_all x es w = ofold (\<lambda>(k, v). writer_write x k v) es w"

lemma writer_write_all_inv:
  assumes "writer_inv x es0 blocks cur w"
  shows "\<exists>w'. writer_write_all x es w = Some w' \<and> wr_file w' = wr_file w
    \<and> (\<exists>blocks' cur'. writer_inv x (es0 @ es) blocks' cur' w')"
  using assms
proof (induction es arbitrary: es0 blocks cur w)
  case Nil
  then show ?case by (auto simp: writer_write_all_def)
next
  case (Cons e es)
  obtain k v where e: "e = (k, v)" by (cases e)
  from writer_write_inv [OF Cons.prems, of k v] obtain w1 blocks1 cur1 where
    w1: "writer_write x k v w = Some w1" "wr_file w1 = wr_file w"
    "writer_inv x (es0 @ [(k, v)]) blocks1 cur1 w1" by blast
  from Cons.IH [OF w1(3)] w1 show ?case by (auto simp: writer_write_all_def e)
qed

subsection \<open>Sizes\<close>

lemma length_entry_encode: "length (entry_encode (k, v)) = 15 + length (kbytes k) + length (val_payload v)"
  by (simp add: entry_encode_eq length_key_encode length_val_encode)

lemma entry_encode_key_le: "length (key_encode (fst e)) + 5 \<le> length (entry_encode e)"
  by (cases e) (simp add: length_entry_encode length_key_encode)

lemma enc_all_member: "e \<in> set es \<Longrightarrow> length (entry_encode e) \<le> length (enc_all es)"
  by (induction es) auto

lemma enc_all_concat: "enc_all (concat bs) = concat (map enc_all bs)"
  by (induction bs) auto

lemma enc_all_block: "b \<in> set bs \<Longrightarrow> length (enc_all b) \<le> length (enc_all (concat bs))"
  by (induction bs) auto

lemma enc_all_count: "15 * length es \<le> length (enc_all es)"
  by (induction es) (auto simp: length_entry_encode)

lemma blocks_count: "[] \<notin> set bs \<Longrightarrow> length bs \<le> length (concat bs)"
proof (induction bs)
  case (Cons b bs)
  then show ?case by (cases b) auto
qed simp

lemma length_blocks_bytes: "length (blocks_bytes x bs) = length (enc_all (concat bs)) + 8 * length bs"
  by (induction bs) auto

lemma end_keys_le:
  assumes "es \<noteq> []"
  shows "length (key_encode (fst (hd es))) + length (key_encode (fst (last es))) + 8 \<le> 2 * length (enc_all es)"
proof -
  have "length (key_encode (fst e)) + 5 \<le> length (enc_all es)" if "e \<in> set es" for e
    using entry_encode_key_le [of e] enc_all_member [OF that] by simp
  from this [of "hd es"] this [of "last es"] assms show ?thesis by simp
qed

lemma index_encode_le:
  "[] \<notin> set bs \<Longrightarrow> length (index_encode (layout x off bs)) \<le> 2 * length (enc_all (concat bs))"
proof (induction bs arbitrary: off)
  case Nil
  then show ?case by (simp add: index_encode_def)
next
  case (Cons b bs)
  then have "b \<noteq> []" and
    IH: "length (index_encode (layout x (off + length (wrap_block x (enc_all b))) bs)) \<le> 2 * length (enc_all (concat bs))"
    by auto
  from end_keys_le [OF this(1)] IH show ?case by (simp add: index_encode_def)
qed

subsection \<open>The image of a file\<close>

definition sst_index_data :: "ext \<Rightarrow> entry list list \<Rightarrow> bytes" where
  "sst_index_data x bs =
     key_encode (fst (hd (concat bs))) @ key_encode (fst (last (concat bs))) @ index_encode (layout x 0 bs)"

definition sst_footer :: "ext \<Rightarrow> entry list list \<Rightarrow> bytes" where
  "sst_footer x bs =
     (let n = length (blocks_bytes x bs); footer = to_le 8 (of_nat n :: u64) @
          to_le 8 (of_nat (n + length (wrap_block x (sst_index_data x bs))) :: u64)
      in footer @ to_le 4 (x_crc x footer) @ MAGIC_NUMBER_BYTES)"

definition sst_image :: "ext \<Rightarrow> entry list list \<Rightarrow> bytes \<Rightarrow> bytes" where
  "sst_image x bs bloom_data =
     blocks_bytes x bs @ wrap_block x (sst_index_data x bs) @ wrap_block x bloom_data @ sst_footer x bs"

lemma writer_finalize_image:
  assumes inv: "writer_inv x es blocks cur w" and "es \<noteq> []" "x_ser x (wr_bloom w) = Some bd"
  shows "\<exists>bs. concat bs = es \<and> [] \<notin> set bs
    \<and> writer_finalize x w f =
      (Inr \<lparr>file_id = 0, file_size = of_nat (length (sst_image x bs bd)),
            min_key = fst (hd es), max_key = fst (last es)\<rparr>,
       fs_set f (wr_file w) (sst_image x bs bd))"
proof -
  let ?w = "if \<not> block_is_empty (current_block w) then flush_block x w else w"
  have "\<exists>bs. writer_inv x es bs [] ?w"
  proof (cases "cur = []")
    case True
    with inv have "block_is_empty (current_block w)" by (simp add: writer_inv_def block_is_empty_def)
    with inv True show ?thesis by auto
  next
    case False
    with inv have "\<not> block_is_empty (current_block w)" by (cases cur) (simp_all add: writer_inv_def block_is_empty_def)
    with flush_block_inv [OF inv False] show ?thesis by auto
  qed
  then obtain bs where bs: "writer_inv x es bs [] ?w" ..
  have same: "wr_bloom ?w = wr_bloom w" "wr_file ?w = wr_file w"
    by (auto simp: flush_block_def Let_def split: prod.split option.split)
  from bs have es: "concat bs = es" "[] \<notin> set bs" by (simp_all add: writer_inv_def)
  from bs assms(2) have w: "wr_out ?w = blocks_bytes x bs" "index_entries ?w = layout x 0 bs"
    "wr_min ?w = Some (fst (hd es))" "wr_max ?w = Some (fst (last es))"
    unfolding writer_inv_def by simp_all
  show ?thesis
    using es unfolding writer_finalize_def Let_def same w
    by (intro exI [of _ bs]) (simp add: assms(3) sst_image_def sst_index_data_def sst_footer_def Let_def)
qed

subsection \<open>What an open SSTable holds\<close>

text \<open>
  The relation of an open SSTable to the run of entries it represents: the blocks its index
  names hold the entries, in order, and the filter is the filter of the entries.
\<close>

definition sst_holds :: "ext \<Rightarrow> fs \<Rightarrow> sstable \<Rightarrow> entry list \<Rightarrow> bool" where
  "sst_holds x f s es \<longleftrightarrow>
     (\<exists>bs. concat bs = es \<and> [] \<notin> set bs \<and> es \<noteq> [] \<and> list_all entry_ok es
        \<and> sst_index s = layout x 0 bs
        \<and> filter_of x es = Some (sst_bloom s) \<and> bloom_ok (sst_bloom s)
        \<and> sst_min s = fst (hd es) \<and> sst_max s = fst (last es)
        \<and> (\<forall>i < length bs. read_block_with_crc_at x (data f (sst_file s)) (snd (snd (layout x 0 bs ! i)))
             = Inr (enc_all (bs ! i))))"

lemma sst_holds_data: "data f' (sst_file s) = data f (sst_file s) \<Longrightarrow> sst_holds x f' s es = sst_holds x f s es"
  by (simp add: sst_holds_def)

lemma sst_new_image:
  assumes lookup: "fs_lookup f path = Some i" and img: "data f i = sst_image x bs bd"
    and name: "parse_u32 (path_stem path) = Some n"
    and es: "concat bs = es" "[] \<notin> set bs" "es \<noteq> []" "run_fits es"
    and bl: "filter_of x es = Some bl" "bloom_ok bl" "x_de x bd = Some bl" "length bd < 2 ^ 31"
  shows "\<exists>s. sst_new x f path = Inr s \<and> sst_holds x f s es \<and> sst_id s = of_nat n \<and> sst_file s = i"
proof -
  let ?ix = "sst_index_data x bs" and ?B = "blocks_bytes x bs" and ?F = "sst_footer x bs"
  from es(4) have ok: "list_all entry_ok es" and D: "length (enc_all es) < 2 ^ 29"
    by (simp_all add: run_fits_def)
  have "8 * length bs \<le> length (enc_all es)"
    using blocks_count [OF es(2)] enc_all_count [of es] es(1) by simp
  with D have B: "length ?B < 2 ^ 30" by (simp add: length_blocks_bytes es(1))
  have I: "length ?ix < 2 ^ 31"
    using end_keys_le [OF es(3)] index_encode_le [OF es(2), of x 0] D es(1)
    by (simp add: sst_index_data_def)
  let ?o = "of_nat (length ?B) :: u64" and ?p = "of_nat (length ?B + length (wrap_block x ?ix)) :: u64"
  have o: "unat ?o = length ?B" using B by (intro unat_of_nat_64) simp
  have p: "unat ?p = length ?B + length (wrap_block x ?ix)" using B I by (intro unat_of_nat_64) simp
  let ?footer = "to_le 8 ?o @ to_le 8 ?p"
  have F: "?F = ?footer @ to_le 4 (x_crc x ?footer) @ MAGIC_NUMBER_BYTES"
    by (simp add: sst_footer_def Let_def)
  have len: "length (data f i) = length ?B + length (wrap_block x ?ix) + length (wrap_block x bd) + 24"
    by (simp add: img sst_image_def F MAGIC_NUMBER_BYTES_def)
  have foot: "drop (length (data f i) - 24) (data f i) = ?F"
    unfolding len by (simp add: img sst_image_def)
  have r1: "read_block_with_crc_at x (data f i) ?p = Inr bd"
    using read_block_wrap [of "?B @ wrap_block x ?ix" ?p bd x ?F] p bl(4) B I
    by (simp add: img sst_image_def)
  have r2: "read_block_with_crc_at x (data f i) ?o = Inr ?ix"
    using read_block_wrap [of ?B ?o ?ix x] o I B by (simp add: img sst_image_def)
  have keys: "key_ok (fst e)" if "e \<in> set es" for e
    using ok that by (auto simp: list_all_iff)
  have ends: "hd b \<in> set es" "last b \<in> set es" if "b \<in> set bs" for b
  proof -
    have "b \<noteq> []" using that es(2) by metis
    with that show "hd b \<in> set es" "last b \<in> set es" unfolding es(1) [symmetric]
      by (auto intro!: bexI [of _ b])
  qed
  have pi: "parse_index (index_encode (layout x 0 bs)) = Inr (layout x 0 bs)"
  proof (rule parse_index_encode, clarify)
    fix mn mx off
    assume "(mn, mx, off) \<in> set (layout x 0 bs)"
    then obtain b where b: "b \<in> set bs" "mn = fst (hd b)" "mx = fst (last b)" by (auto dest: set_layout)
    from keys [OF ends(1) [OF b(1)]] keys [OF ends(2) [OF b(1)]] b(2,3)
    show "key_ok mn \<and> key_ok mx" by simp
  qed
  have k1: "key_decode (?ix) = Inr (fst (hd es), key_encode (fst (last es)) @ index_encode (layout x 0 bs))"
    using keys [of "hd es"] es by (simp add: sst_index_data_def key.dec_enc)
  have k2: "key_decode (key_encode (fst (last es)) @ index_encode (layout x 0 bs))
      = Inr (fst (last es), index_encode (layout x 0 bs))"
    using keys [of "last es"] es by (simp add: key.dec_enc)
  let ?s = "\<lparr>sst_id = of_nat n, sst_file = i, sst_index = layout x 0 bs, sst_bloom = bl,
    sst_min = fst (hd es), sst_max = fst (last es)\<rparr>"
  have "sst_new x f path = Inr ?s"
  proof -
    have parts: "take 8 ?F = to_le 8 ?o" "take 8 (drop 8 ?F) = to_le 8 ?p" "take 16 ?F = ?footer"
      "take 4 (drop 16 ?F) = to_le 4 (x_crc x ?footer)" "drop 20 ?F = MAGIC_NUMBER_BYTES"
      unfolding F by simp_all
    have "\<not> length (data f i) < 24" by (simp add: len)
    then show ?thesis
      unfolding sst_new_def name lookup option.case Let_def foot parts from_le_to_le_64 from_le_to_le_32 r1 r2
      by (simp add: bl(3) k1 k2 pi r2)
  qed
  moreover have "read_block_with_crc_at x (data f i) (snd (snd (layout x 0 bs ! j))) = Inr (enc_all (bs ! j))"
    if "j < length bs" for j
  proof -
    have "length (enc_all (bs ! j)) \<le> length (enc_all es)" using that es(1) by (auto intro: enc_all_block)
    with that D B show ?thesis unfolding img sst_image_def by (intro read_layout_block) simp_all
  qed
  then have "sst_holds x f ?s es" using es ok bl by (auto simp: sst_holds_def intro!: exI [of _ bs])
  ultimately show ?thesis by simp
qed

subsection \<open>Lookup and iteration of an open SSTable\<close>

lemma run_sorted_le_last: "run_sorted es \<Longrightarrow> e \<in> set es \<Longrightarrow> fst e \<le> fst (last es)"
proof (induction es)
  case (Cons a es)
  then show ?case by (cases "es = []") (auto intro: less_imp_le)
qed simp

lemma run_sorted_block:
  assumes "run_sorted (concat bs)" "b \<in> set bs"
  shows "run_sorted b"
proof -
  from split_list [OF assms(2)] obtain us vs where "bs = us @ b # vs" by blast
  with assms(1) show ?thesis by (simp add: run_sorted_append)
qed

text \<open>The blocks before the partition point hold no version of the key, and those after the block found neither.\<close>

lemma layout_partition:
  "partition_point (\<lambda>(_, mx, _). mx < t) (layout x off bs) = length (takeWhile (\<lambda>b. fst (last b) < t) bs)"
  unfolding partition_point_def by (induction bs arbitrary: off) auto

lemma latest_skip_blocks:
  assumes "run_sorted (concat bs)" "[] \<notin> set bs" "\<forall>b \<in> set bs. fst (last b) < key_new kb (-1)"
  shows "latest (concat bs) kb = None"
proof -
  have "kbytes (fst e) < kb" if "b \<in> set bs" "e \<in> set b" for b e
  proof -
    have "run_sorted b" using assms(1) that(1) by (rule run_sorted_block)
    then have "fst e \<le> fst (last b)" using that(2) by (rule run_sorted_le_last)
    with assms(3) that(1) show ?thesis
      by (meson key_max_le_iff not_less order.strict_trans1)
  qed
  then show ?thesis by (fastforce simp: latest_None_iff)
qed

lemma latest_blocks:
  fixes kb :: bytes
  assumes sorted: "run_sorted (concat bs)" and ne: "[] \<notin> set bs"
  defines "i \<equiv> length (takeWhile (\<lambda>b. fst (last b) < key_new kb (-1)) bs)"
  shows "latest (concat bs) kb =
    (if i < length bs \<and> \<not> kb < kbytes (fst (hd (bs ! i))) then latest (bs ! i) kb else None)"
proof -
  let ?P = "\<lambda>b. fst (last b) < key_new kb (-1)"
  let ?us = "takeWhile ?P bs"
  have split: "bs = ?us @ dropWhile ?P bs" by simp
  then have "run_sorted (concat ?us @ concat (dropWhile ?P bs))" using sorted by (metis concat_append)
  then have "run_sorted (concat ?us)" by (simp add: run_sorted_append)
  moreover have "[] \<notin> set ?us" using ne by (meson set_takeWhileD)
  moreover have "\<forall>b \<in> set ?us. ?P b" by (meson set_takeWhileD)
  ultimately have "latest (concat ?us) kb = None" by (intro latest_skip_blocks)
  then have rest: "latest (concat bs) kb = latest (concat (dropWhile ?P bs)) kb"
    by (subst split) (simp add: latest_append del: takeWhile_dropWhile_id)
  show ?thesis
  proof (cases "dropWhile ?P bs")
    case Nil
    then have "i = length bs" unfolding i_def by (metis split append_Nil2)
    with rest Nil show ?thesis by simp
  next
    case (Cons b vs)
    have "bs = ?us @ b # vs" using split Cons by simp
    then have i: "i < length bs" "bs ! i = b" unfolding i_def
      by (metis length_append less_add_same_cancel1 list.size(4) zero_less_Suc add_Suc_right, metis nth_append_length)
    have "b \<in> set bs" using i by (metis nth_mem)
    then have "b \<noteq> []" using ne by metis
    have nP: "\<not> ?P b" using Cons by (metis dropWhile_eq_Cons_conv)
    then have last: "kb \<le> kbytes (fst (last b))" by (simp add: not_less key_max_le_iff)
    have srt: "run_sorted (b @ concat vs)" using sorted \<open>bs = ?us @ b # vs\<close>
      by (metis concat.simps(2) concat_append run_sorted_append)
    have later: "latest (concat vs) kb = None" if "latest b kb = None"
    proof -
      have "last b \<in> set b" using \<open>b \<noteq> []\<close> by simp
      with that last have lt: "kb < kbytes (fst (last b))" by (force simp: latest_None_iff)
      have "kb < kbytes (fst e)" if "e \<in> set (concat vs)" for e
        using srt \<open>last b \<in> set b\<close> that lt unfolding run_sorted_append
        by (meson key_le_bytes less_le order.strict_trans2)
      then show ?thesis by (fastforce simp: latest_None_iff)
    qed
    have first: "latest b kb = None" if "kb < kbytes (fst (hd b))"
    proof -
      have "kbytes (fst (hd b)) \<le> kbytes (fst e)" if "e \<in> set b" for e
        using srt that by (cases b) (auto simp: run_sorted_append intro: key_le_bytes less_imp_le)
      with that show ?thesis by (force simp: latest_None_iff)
    qed
    have "latest (concat bs) kb = (case latest b kb of None \<Rightarrow> latest (concat vs) kb | Some e \<Rightarrow> Some e)"
      unfolding rest Cons by (simp add: latest_append)
    with later first i show ?thesis by (auto split: option.split)
  qed
qed

lemma sst_search_latest:
  assumes holds: "sst_holds x f s es" and "run_sorted es"
  shows "sst_search x f s kb = Some (Inr (map_option snd (latest es kb)))"
proof -
  from holds obtain bs where bs: "concat bs = es" "[] \<notin> set bs" "list_all entry_ok es"
    "sst_index s = layout x 0 bs" "filter_of x es = Some (sst_bloom s)" "bloom_ok (sst_bloom s)"
    and rd: "\<forall>i < length bs. read_block_with_crc_at x (data f (sst_file s)) (snd (snd (layout x 0 bs ! i)))
             = Inr (enc_all (bs ! i))"
    unfolding sst_holds_def by blast
  obtain hit where hit: "bloom_check (x_sip x) (sst_bloom s) kb = Some hit"
    using bloom.check_ok [OF bs(6)] by blast
  show ?thesis
  proof (cases hit)
    case False
    have "kb \<notin> set (map (kbytes \<circ> fst) es)"
    proof
      assume "kb \<in> set (map (kbytes \<circ> fst) es)"
      from bloom.no_false_negative [OF bloom_new_1000_ok bs(5) [unfolded filter_of_def] this] hit False
      show False by simp
    qed
    then have "latest es kb = None" by (auto simp: latest_None_iff)
    with hit False show ?thesis by (simp add: sst_search_def)
  next
    case True
    let ?i = "length (takeWhile (\<lambda>b. fst (last b) < key_new kb (-1)) bs)"
    have sorted: "run_sorted (concat bs)" using assms(2) bs(1) by simp
    note L = latest_blocks [OF sorted bs(2), of kb]
    show ?thesis
    proof (cases "?i < length bs")
      case False
      with L bs(1) True hit show ?thesis
        by (simp add: sst_search_def bs(4) layout_partition Let_def)
    next
      case i: True
      then have b: "bs ! ?i \<in> set bs" by simp
      with bs(1) bs(3) have "list_all entry_ok (bs ! ?i)" using list_all_concat by metis
      moreover have "run_sorted (bs ! ?i)"
        using sorted b by (rule run_sorted_block)
      ultimately have "scan_block kb (enc_all (bs ! ?i)) = Inr (map_option snd (latest (bs ! ?i) kb))"
        by (rule scan_block_enc)
      with rd i have "search_block x f s kb (snd (snd (layout x 0 bs ! ?i))) = Inr (map_option snd (latest (bs ! ?i) kb))"
        by (simp add: search_block_def)
      with L i bs(1) True hit show ?thesis
        by (simp add: sst_search_def bs(4) layout_partition Let_def layout_nth)
    qed
  qed
qed

text \<open>
  The entries still to come from an iterator: the rest of the block it is in, then the blocks
  after it.
\<close>

definition iter_rest :: "ext \<Rightarrow> fs \<Rightarrow> sst_iter \<Rightarrow> entry list \<Rightarrow> bool" where
  "iter_rest x f it rest \<longleftrightarrow>
     (\<exists>bs cur. rest = cur @ concat (drop (it_block_idx it) bs) \<and> [] \<notin> set bs \<and> list_all entry_ok (cur @ concat bs)
        \<and> sst_index (it_sst it) = layout x 0 bs
        \<and> (case it_block it of None \<Rightarrow> cur = [] | Some c \<Rightarrow> c = enc_all cur)
        \<and> (\<forall>i < length bs. read_block_with_crc_at x (data f (sst_file (it_sst it))) (snd (snd (layout x 0 bs ! i)))
             = Inr (enc_all (bs ! i))))"

lemma iter_rest_new: "sst_holds x f s es \<Longrightarrow> iter_rest x f (sst_iter_new s) es"
  unfolding sst_holds_def iter_rest_def sst_iter_new_def by auto

lemma block_iter_next_enc:
  "entry_ok e \<Longrightarrow> block_iter_next (entry_encode e @ rest) = Some (Inr (e, rest))"
  by (cases e) (auto simp: block_iter_next_def entry_encode_eq key.dec_enc val.dec_enc dest: key.enc_nonempty)

lemma enc_all_Nil_iff [simp]: "enc_all es = [] \<longleftrightarrow> es = []"
  by (cases es) auto

lemma iter_next_in_block:
  assumes "it_block it1 = Some (enc_all (e # cur))" "entry_ok e" "ensure_block_loaded x f it = Inr (True, it1)"
  shows "sst_iter_next x f it = Some (Inr (e, it1\<lparr>it_block := Some (enc_all cur)\<rparr>))"
  using assms block_iter_next_enc [of e "enc_all cur"] by (simp add: sst_iter_next_def)

text \<open>One step of the iterator: the head of what is still to come, or the end.\<close>

lemma sst_iter_next_rest:
  assumes "iter_rest x f it rest"
  shows "case rest of [] \<Rightarrow> sst_iter_next x f it = None
    | e # es \<Rightarrow> \<exists>it'. sst_iter_next x f it = Some (Inr (e, it')) \<and> iter_rest x f it' es \<and> it_sst it' = it_sst it"
proof -
  from assms obtain bs cur where rest: "rest = cur @ concat (drop (it_block_idx it) bs)"
    and ne: "[] \<notin> set bs" and ok: "list_all entry_ok (cur @ concat bs)"
    and ix: "sst_index (it_sst it) = layout x 0 bs"
    and blk: "case it_block it of None \<Rightarrow> cur = [] | Some c \<Rightarrow> c = enc_all cur"
    and rd: "\<forall>i < length bs. read_block_with_crc_at x (data f (sst_file (it_sst it))) (snd (snd (layout x 0 bs ! i)))
             = Inr (enc_all (bs ! i))"
    unfolding iter_rest_def by blast
  show ?thesis
  proof (cases cur)
    case (Cons e cur')
    with blk obtain c where c: "it_block it = Some c" "c = enc_all (e # cur')" by (cases "it_block it") auto
    then have "ensure_block_loaded x f it = Inr (True, it)"
      by (simp add: ensure_block_loaded_def)
    with c ok Cons have "sst_iter_next x f it = Some (Inr (e, it\<lparr>it_block := Some (enc_all cur')\<rparr>))"
      by (intro iter_next_in_block) auto
    moreover have "iter_rest x f (it\<lparr>it_block := Some (enc_all cur')\<rparr>) (cur' @ concat (drop (it_block_idx it) bs))"
      unfolding iter_rest_def using ne ok ix rd Cons by (intro exI [of _ bs] exI [of _ cur']) simp
    ultimately show ?thesis using rest Cons by simp
  next
    case Nil
    with blk have empty: "case it_block it of None \<Rightarrow> True | Some cursor \<Rightarrow> cursor = []"
      by (auto split: option.splits)
    show ?thesis
    proof (cases "it_block_idx it < length bs")
      case False
      with empty have "ensure_block_loaded x f it = Inr (False, it)" by (simp add: ensure_block_loaded_def ix)
      then show ?thesis using False rest Nil by (simp add: sst_iter_next_def)
    next
      case True
      let ?b = "bs ! it_block_idx it"
      let ?it1 = "it\<lparr>it_block := Some (enc_all ?b), it_block_idx := it_block_idx it + 1\<rparr>"
      from True ne have "?b \<noteq> []" by (metis nth_mem)
      then obtain e b' where b: "?b = e # b'" by (cases ?b) auto
      have "list_all entry_ok (e # b')"
        using ok nth_mem [OF True] by (metis b list_all_append list_all_concat)
      then have "entry_ok e" "list_all entry_ok b'" by simp_all
      have "ensure_block_loaded x f it = Inr (True, ?it1)"
        using empty True rd by (simp add: ensure_block_loaded_def ix case_prod_unfold)
      with b \<open>entry_ok e\<close> have "sst_iter_next x f it = Some (Inr (e, ?it1\<lparr>it_block := Some (enc_all b')\<rparr>))"
        by (intro iter_next_in_block) auto
      moreover have "iter_rest x f (?it1\<lparr>it_block := Some (enc_all b')\<rparr>) (b' @ concat (drop (Suc (it_block_idx it)) bs))"
        unfolding iter_rest_def using ne ok ix rd \<open>list_all entry_ok b'\<close> Nil
        by (intro exI [of _ bs] exI [of _ b']) simp
      moreover have "rest = e # b' @ concat (drop (Suc (it_block_idx it)) bs)"
        using rest Nil b True by (simp add: Cons_nth_drop_Suc [symmetric])
      ultimately show ?thesis by auto
    qed
  qed
qed

subsection \<open>From the writer to the reader\<close>

text \<open>Create a file, write a run to it, and close it: what flush and compaction do for one SSTable.\<close>

definition sst_build :: "ext \<Rightarrow> string \<Rightarrow> entry list \<Rightarrow> fs \<Rightarrow> (file_meta result \<times> fs) option" where
  "sst_build x path es f =
     (let (w, f1) = writer_new f path in
      map_option (\<lambda>w. writer_finalize x w f1) (writer_write_all x es w))"

lemma sst_build_opens:
  assumes "fs_wf f" "ext_ok x" "es \<noteq> []" "run_fits es" "parse_u32 (path_stem path) = Some n"
  shows "\<exists>meta f' s. sst_build x path es f = Some (Inr meta, f')
    \<and> min_key meta = fst (hd es) \<and> max_key meta = fst (last es) \<and> fs_wf f'
    \<and> (\<exists>bytes. f' = fs_put f path bytes)
    \<and> sst_new x f' path = Inr s \<and> sst_holds x f' s es \<and> sst_id s = of_nat n
    \<and> fs_lookup f' path = Some (sst_file s)"
proof -
  obtain w0 f1 where w0: "writer_new f path = (w0, f1)" by (cases "writer_new f path")
  from writer_write_all_inv [OF writer_inv_new [OF w0], where es = es and x = x] obtain w blocks cur where
    w: "writer_write_all x es w0 = Some w" "wr_file w = wr_file w0" and inv: "writer_inv x es blocks cur w"
    by auto
  have bl: "filter_of x es = Some (wr_bloom w)" "bloom_ok (wr_bloom w)"
    using inv unfolding writer_inv_def by blast+
  have "length (bitmap (wr_bloom w)) = 150"
    using bloom_set_all_length [OF bl(1) [unfolded filter_of_def]] by (simp add: bloom_new_1000_def bloom_new_def)
  moreover from this have "\<exists>bd. x_ser x (wr_bloom w) = Some bd \<and> x_de x bd = Some (wr_bloom w)
      \<and> length bd \<le> 52 + 8 * length (bitmap (wr_bloom w))"
    using assms(2) [unfolded ext_ok_def, rule_format, of "wr_bloom w"] by simp
  ultimately obtain bd where bd: "x_ser x (wr_bloom w) = Some bd" "x_de x bd = Some (wr_bloom w)" "length bd < 2 ^ 31"
    by auto
  from writer_finalize_image [OF inv assms(3) bd(1), of f1] obtain bs meta where bs: "concat bs = es" "[] \<notin> set bs"
    and fin: "writer_finalize x w f1 = (Inr meta, fs_set f1 (wr_file w) (sst_image x bs bd))"
    and meta: "min_key meta = fst (hd es)" "max_key meta = fst (last es)" by auto
  let ?f' = "fs_put f path (sst_image x bs bd)"
  have cr: "fs_create f path = (wr_file w0, f1)"
    using w0 by (auto simp: writer_new_def split: prod.splits)
  then have f': "fs_set f1 (wr_file w) (sst_image x bs bd) = ?f'" by (simp add: fs_put_def w(2))
  have lk: "fs_lookup ?f' path = Some (wr_file w)"
    using fs_create_lookup [OF cr, of path] by (simp add: f' [symmetric] w(2))
  have dt: "data ?f' (wr_file w) = sst_image x bs bd" by (simp add: f' [symmetric])
  obtain s where "sst_new x ?f' path = Inr s" "sst_holds x ?f' s es" "sst_id s = of_nat n"
    and ino: "sst_file s = wr_file w"
    using sst_new_image [OF lk dt assms(5) bs assms(3,4) bl bd(2,3)] by blast
  moreover have "fs_lookup ?f' path = Some (sst_file s)" by (simp only: lk ino)
  moreover have "sst_build x path es f = Some (Inr meta, ?f')"
    by (simp add: sst_build_def w0 w(1) fin f')
  ultimately show ?thesis using meta fs_put_wf [OF assms(1)] by blast
qed

text \<open>An empty file: the index block holds nothing, not even the two keys the reader expects.\<close>

lemma sst_build_empty:
  assumes "ext_ok x" "parse_u32 (path_stem path) = Some n"
  shows "\<exists>meta f'. sst_build x path [] f = Some (Inr meta, f') \<and> sst_new x f' path = Inl (Io UnexpectedEof)"
proof -
  obtain i f1 where cr: "fs_create f path = (i, f1)" by (cases "fs_create f path")
  have "length (bitmap bloom_new_1000) = 150" by (simp add: bloom_new_1000_def bloom_new_def)
  with assms(1) [unfolded ext_ok_def, rule_format, of bloom_new_1000] obtain bd where
    bd: "x_ser x bloom_new_1000 = Some bd" "x_de x bd = Some bloom_new_1000" "length bd \<le> 1252" by auto
  let ?I = "wrap_block x []" and ?B = "wrap_block x bd"
  let ?footer = "to_le 8 (0 :: u64) @ to_le 8 (8 :: u64)"
  let ?F = "?footer @ to_le 4 (x_crc x ?footer) @ MAGIC_NUMBER_BYTES"
  let ?f' = "fs_set f1 i (?I @ ?B @ ?F)"
  have lk: "fs_lookup ?f' path = Some i" by (simp add: fs_create_lookup [OF cr])
  have dt: "data ?f' i = ?I @ ?B @ ?F" by simp
  have len: "length (data ?f' i) = 8 + (8 + length bd) + 24" by (simp add: MAGIC_NUMBER_BYTES_def)
  have foot: "drop (length (data ?f' i) - 24) (data ?f' i) = ?F" unfolding len by simp
  have parts: "take 8 ?F = to_le 8 (0 :: u64)" "take 8 (drop 8 ?F) = to_le 8 (8 :: u64)" "take 16 ?F = ?footer"
    "take 4 (drop 16 ?F) = to_le 4 (x_crc x ?footer)" "drop 20 ?F = MAGIC_NUMBER_BYTES" by simp_all
  have r1: "read_block_with_crc_at x (data ?f' i) 8 = Inr bd"
    using read_block_wrap [of ?I 8 bd x ?F] bd by simp
  have r2: "read_block_with_crc_at x (data ?f' i) 0 = Inr []"
    using read_block_wrap [of "[]" 0 "[]" x "?B @ ?F"] by simp
  have "\<not> length (data ?f' i) < 24" by (simp add: len)
  then have "sst_new x ?f' path = Inl (Io UnexpectedEof)"
    unfolding sst_new_def assms(2) lk option.case Let_def foot parts from_le_to_le_64 from_le_to_le_32 r1 r2
    by (simp add: bd key_decode_def u64_decode_def read_exact_short)
  moreover have "\<exists>meta. sst_build x path [] f = Some (Inr meta, ?f')"
    by (simp add: sst_build_def writer_new_def cr writer_write_all_def writer_finalize_def block_is_empty_def
        block_new_def bd index_encode_def Let_def)
  ultimately show ?thesis by blast
qed

subsection \<open>Properties\<close>

text \<open>The entries of an iterator up to its end; \<open>None\<close> if there are more than \<open>n\<close>.\<close>

fun iter_collect :: "ext \<Rightarrow> fs \<Rightarrow> nat \<Rightarrow> sst_iter \<Rightarrow> entry list result option" where
  "iter_collect x f 0 it = None"
| "iter_collect x f (Suc n) it =
     (case sst_iter_next x f it of
        None \<Rightarrow> Some (Inr [])
      | Some (Inl e) \<Rightarrow> Some (Inl e)
      | Some (Inr (e, it')) \<Rightarrow> map_option (\<lambda>r. and_then r (\<lambda>es. Inr (e # es))) (iter_collect x f n it'))"

lemma iter_collect_rest: "iter_rest x f it rest \<Longrightarrow> iter_collect x f (Suc (length rest)) it = Some (Inr rest)"
proof (induction rest arbitrary: it)
  case Nil
  then show ?case using sst_iter_next_rest [OF Nil] by simp
next
  case (Cons e rest)
  from sst_iter_next_rest [OF Cons.prems] obtain it' where
    "sst_iter_next x f it = Some (Inr (e, it'))" "iter_rest x f it' rest" by auto
  with Cons.IH [of it'] show ?case by simp
qed

text \<open>A concrete instance of the crates, used to evaluate the model: checksum and hash constant, the
  fields of the filter one after the other.\<close>

definition sample_ser :: "bloom \<Rightarrow> bytes option" where
  "sample_ser b =
     (case sip_keys b of ((a, c), (d, e)) \<Rightarrow>
       Some (vec_encode u64_encode (bitmap b) @ u64_encode (bitmap_bits b) @ u32_encode (k_num b)
         @ u64_encode a @ u64_encode c @ u64_encode d @ u64_encode e))"

definition sample_de :: "bytes \<Rightarrow> bloom option" where
  "sample_de bs =
     (case and_then (vec_decode u64_decode bs) (\<lambda>(bm, b1).
           and_then (u64_decode b1) (\<lambda>(bits, b2). and_then (u32_decode b2) (\<lambda>(k, b3).
           and_then (u64_decode b3) (\<lambda>(a, b4). and_then (u64_decode b4) (\<lambda>(c, b5).
           and_then (u64_decode b5) (\<lambda>(d, b6). and_then (u64_decode b6) (\<lambda>(e, _).
             Inr \<lparr>bitmap = bm, bitmap_bits = bits, k_num = k, sip_keys = ((a, c), (d, e))\<rparr>))))))) of
        Inl _ \<Rightarrow> None
      | Inr b \<Rightarrow> Some b)"

definition sample_ext :: ext where
  "sample_ext = \<lparr>x_crc = (\<lambda>bs. of_nat (length bs)), x_sip = (\<lambda>_ bs. of_nat (length bs)),
     x_ser = sample_ser, x_de = sample_de\<rparr>"

lemma length_vec_u64: "length (vec_encode u64_encode ws) = 4 + 8 * length ws"
  by (induction ws) (simp_all add: vec_encode_def)

lemma sample_ext_ok: "ext_ok sample_ext"
proof -
  have "\<exists>bs. sample_ser b = Some bs \<and> sample_de bs = Some b \<and> length bs \<le> 52 + 8 * length (bitmap b)"
    if "length (bitmap b) < 2 ^ 32" for b
  proof -
    obtain a c d e where k: "sip_keys b = ((a, c), (d, e))" by (metis surj_pair)
    let ?bs = "vec_encode u64_encode (bitmap b) @ u64_encode (bitmap_bits b) @ u32_encode (k_num b)
         @ u64_encode a @ u64_encode c @ u64_encode d @ u64_encode e"
    have "sample_de ?bs = Some b"
      using that k by (simp add: sample_de_def u64.vec.dec_enc list_all_iff primitive_codecs)
    moreover have "length ?bs \<le> 52 + 8 * length (bitmap b)" by (simp add: length_vec_u64)
    moreover have "sample_ser b = Some ?bs" by (simp add: sample_ser_def k)
    ultimately show ?thesis by blast
  qed
  then show ?thesis by (simp add: ext_ok_def sample_ext_def)
qed

definition sample_run :: "entry list" where
  "sample_run = [(Key 7 [1], Bytes [5, 6]), (Key 2 [1], Tombstone), (Key 9 [3, 4], IntV 11)]"

lemma sample_run_ok: "run_sorted sample_run" "run_fits sample_run" "sample_run \<noteq> []"
  by (simp_all add: sample_run_def run_fits_def key_less_iff key_ok_def length_entry_encode val_payload_def)

text \<open>C14: What a flush or a compaction writes to an SSTable is what is read back from it: the file opens
  under the number of its name, its range is the first and the last key, a lookup of any user key
  returns the newest version of it in the run or nothing, with no false negative of the filter or of
  the index, and the iterator yields exactly the run, in order.\<close>

theorem sst_write_read:
  assumes "fs_wf f" "ext_ok x" "es \<noteq> []" "run_sorted es" "run_fits es" "n < 2 ^ 32"
  shows "\<exists>meta f' s. sst_build x (sst_name n) es f = Some (Inr meta, f') \<and> sst_new x f' (sst_name n) = Inr s
    \<and> sst_id s = of_nat n \<and> min_key meta = fst (hd es) \<and> max_key meta = fst (last es)
    \<and> (\<forall>kb. sst_search x f' s kb = Some (Inr (map_option snd (latest es kb))))
    \<and> iter_collect x f' (Suc (length es)) (sst_iter_new s) = Some (Inr es)"
proof -
  have "parse_u32 (path_stem (sst_name n)) = Some n" using assms(6) by (simp add: parse_fmt05)
  from sst_build_opens [OF assms(1,2,3,5) this] obtain meta f' s where
    "sst_build x (sst_name n) es f = Some (Inr meta, f')" "sst_new x f' (sst_name n) = Inr s"
    "sst_id s = of_nat n" "min_key meta = fst (hd es)" "max_key meta = fst (last es)"
    and holds: "sst_holds x f' s es" by blast
  with sst_search_latest [OF holds assms(4)] iter_collect_rest [OF iter_rest_new [OF holds]] show ?thesis
    by blast
qed

theorem sst_write_read_witness:
  "\<exists>meta f' s. sst_build sample_ext (sst_name 4) sample_run fs_empty = Some (Inr meta, f')
    \<and> sst_new sample_ext f' (sst_name 4) = Inr s
    \<and> sst_search sample_ext f' s [1] = Some (Inr (Some (Bytes [5, 6])))
    \<and> sst_search sample_ext f' s [2] = Some (Inr None)
    \<and> iter_collect sample_ext f' 4 (sst_iter_new s) = Some (Inr sample_run)"
proof -
  from sst_write_read [OF fs_wf_empty sample_ext_ok sample_run_ok(3,1,2), of 4] obtain meta f' s where
    "sst_build sample_ext (sst_name 4) sample_run fs_empty = Some (Inr meta, f')"
    "sst_new sample_ext f' (sst_name 4) = Inr s"
    "\<forall>kb. sst_search sample_ext f' s kb = Some (Inr (map_option snd (latest sample_run kb)))"
    "iter_collect sample_ext f' (Suc (length sample_run)) (sst_iter_new s) = Some (Inr sample_run)" by auto
  moreover have "Suc (length sample_run) = 4" "map_option snd (latest sample_run [1]) = Some (Bytes [5, 6])"
    "map_option snd (latest sample_run [2]) = None" by (simp_all add: sample_run_def)
  ultimately show ?thesis by metis
qed

text \<open>A writer that is closed without an entry reports success, but the file it leaves cannot be opened:
  the reader runs into the end of the index block, where it expects the smallest key.\<close>

theorem sst_empty_unreadable:
  assumes "ext_ok x" "n < 2 ^ 32"
  shows "\<exists>meta f'. sst_build x (sst_name n) [] f = Some (Inr meta, f')
    \<and> sst_new x f' (sst_name n) = Inl (Io UnexpectedEof)"
  using assms by (intro sst_build_empty) (simp_all add: parse_fmt05)

theorem sst_empty_unreadable_witness:
  "\<exists>meta f'. sst_build sample_ext (sst_name 0) [] fs_empty = Some (Inr meta, f')
    \<and> sst_new sample_ext f' (sst_name 0) = Inl (Io UnexpectedEof)"
  by (rule sst_empty_unreadable [OF sample_ext_ok]) simp

end
