(* ===== verification/Merge.thy ===== *)
theory Merge
  imports Sstable "HOL-Library.Multiset"
begin

text \<open>
  The merging iterator of compaction (\<open>MergeIterItem\<close> and \<open>MergeIterator\<close> of
  \<open>src/compact.rs\<close>). The \<open>BinaryHeap\<close> of the standard library, with the reversed order of
  \<open>MergeIterItem\<close>, is a list from which an item of smallest key is taken; its contract is the
  locale \<open>min_heap\<close>. The streams that are merged satisfy the locale \<open>entry_stream\<close>, which
  SSTable iterators do; the lemmas on merging are proved from the two contracts.
\<close>

subsection \<open>The heap\<close>

record merge_item =
  mi_key :: key
  mi_val :: val
  mi_idx :: nat

definition merge_item_cmp :: "merge_item \<Rightarrow> merge_item \<Rightarrow> ordering" where
  "merge_item_cmp a b = key_cmp (mi_key b) (mi_key a)"

definition heap_push :: "merge_item \<Rightarrow> merge_item list \<Rightarrow> merge_item list" where
  "heap_push i h = i # h"

text \<open>\<open>BinaryHeap::pop\<close> removes a greatest item.\<close>

fun heap_max :: "merge_item \<Rightarrow> merge_item list \<Rightarrow> merge_item" where
  "heap_max a [] = a"
| "heap_max a (b # h) = heap_max (if merge_item_cmp b a = Greater then b else a) h"

definition heap_pop :: "merge_item list \<Rightarrow> (merge_item \<times> merge_item list) option" where
  "heap_pop h = (case h of [] \<Rightarrow> None | a # h' \<Rightarrow> let m = heap_max a h' in Some (m, remove1 m h))"

locale min_heap =
  fixes push :: "'i \<Rightarrow> 'h \<Rightarrow> 'h"
    and pop :: "'h \<Rightarrow> ('i \<times> 'h) option"
    and items :: "'h \<Rightarrow> 'i multiset"
    and prio :: "'i \<Rightarrow> 'k::linorder"
  assumes items_push: "items (push i h) = add_mset i (items h)"
    and pop_empty: "pop h = None \<longleftrightarrow> items h = {#}"
    and pop_items: "pop h = Some (i, h') \<Longrightarrow> items h = add_mset i (items h')"
    and pop_min: "pop h = Some (i, h') \<Longrightarrow> j \<in># items h \<Longrightarrow> prio i \<le> prio j"
begin

lemma pop_some: "items h \<noteq> {#} \<Longrightarrow> \<exists>i h'. pop h = Some (i, h')"
  using pop_empty [of h] by (cases "pop h") auto

lemma pop_member: "pop h = Some (i, h') \<Longrightarrow> i \<in># items h"
  by (simp add: pop_items)

end

lemma merge_item_cmp_Greater: "merge_item_cmp b a = Greater \<longleftrightarrow> mi_key b < mi_key a"
  by (auto simp: merge_item_cmp_def key_cmp_eq_cmp cmp_def)

lemma heap_max_in: "heap_max a h \<in> set (a # h)"
  by (induction h arbitrary: a) auto

lemma heap_max_le: "j \<in> set (a # h) \<Longrightarrow> mi_key (heap_max a h) \<le> mi_key j"
proof (induction h arbitrary: a j)
  case (Cons b h)
  let ?c = "if merge_item_cmp b a = Greater then b else a"
  have c: "mi_key ?c \<le> mi_key a" "mi_key ?c \<le> mi_key b" by (auto simp: merge_item_cmp_Greater)
  from Cons.prems consider "j = a" | "j = b" | "j \<in> set h" by auto
  then show ?case
  proof cases
    case 1
    with Cons.IH [of ?c ?c] c show ?thesis by simp
  next
    case 2
    with Cons.IH [of ?c ?c] c show ?thesis by simp
  next
    case 3
    with Cons.IH [of j ?c] show ?thesis by simp
  qed
qed simp

interpretation heap: min_heap heap_push heap_pop mset mi_key
proof unfold_locales
  fix h i h' j
  assume pop: "heap_pop h = Some (i, h')"
  then obtain a t where h: "h = a # t" "i = heap_max a t" "h' = remove1 i h"
    by (auto simp: heap_pop_def Let_def split: list.splits)
  with heap_max_in [of a t] show "mset h = add_mset i (mset h')" by (auto simp: insert_DiffM)
  show "j \<in># mset h \<Longrightarrow> mi_key i \<le> mi_key j" using heap_max_le [of j a t] h by simp
qed (auto simp: heap_push_def heap_pop_def Let_def split: list.split)

subsection \<open>The merging iterator\<close>

record 'it merge =
  peek_heap :: "merge_item list"
  iters :: "'it list"

text \<open>The initial population: the first entry of every stream.\<close>

fun merge_fill ::
  "('it \<Rightarrow> (entry \<times> 'it) result option) \<Rightarrow> nat \<Rightarrow> 'it list \<Rightarrow> merge_item list \<Rightarrow>
   (merge_item list \<times> 'it list) result" where
  "merge_fill nxt i [] heap = Inr (heap, [])"
| "merge_fill nxt i (it # its) heap =
     (case nxt it of
        None \<Rightarrow> and_then (merge_fill nxt (Suc i) its heap) (\<lambda>(h, js). Inr (h, it # js))
      | Some (Inl e) \<Rightarrow> Inl e
      | Some (Inr ((k, v), it')) \<Rightarrow>
          and_then (merge_fill nxt (Suc i) its (heap_push \<lparr>mi_key = k, mi_val = v, mi_idx = i\<rparr> heap))
            (\<lambda>(h, js). Inr (h, it' # js)))"

definition merge_new :: "('it \<Rightarrow> (entry \<times> 'it) result option) \<Rightarrow> 'it list \<Rightarrow> 'it merge result" where
  "merge_new nxt its =
     and_then (merge_fill nxt 0 its []) (\<lambda>(h, js). Inr \<lparr>peek_heap = h, iters = js\<rparr>)"

definition merge_next ::
  "('it \<Rightarrow> (entry \<times> 'it) result option) \<Rightarrow> 'it merge \<Rightarrow> (entry \<times> 'it merge) result option" where
  "merge_next nxt m =
     (case heap_pop (peek_heap m) of
        None \<Rightarrow> None
      | Some (item, heap) \<Rightarrow>
          let idx = mi_idx item; e = (mi_key item, mi_val item) in
          (case nxt (iters m ! idx) of
             Some (Inr ((k, v), it')) \<Rightarrow>
               Some (Inr (e, m\<lparr>peek_heap := heap_push \<lparr>mi_key = k, mi_val = v, mi_idx = idx\<rparr> heap,
                               iters := (iters m)[idx := it']\<rparr>))
           | Some (Inl err) \<Rightarrow> Some (Inl err)
           | None \<Rightarrow> Some (Inr (e, m\<lparr>peek_heap := heap\<rparr>))))"

text \<open>All that a merge yields, up to its end; \<open>None\<close> if it is not at its end after \<open>n\<close> steps.\<close>

fun merge_collect ::
  "('it \<Rightarrow> (entry \<times> 'it) result option) \<Rightarrow> nat \<Rightarrow> 'it merge \<Rightarrow> entry list result option" where
  "merge_collect nxt 0 m = None"
| "merge_collect nxt (Suc n) m =
     (case merge_next nxt m of
        None \<Rightarrow> Some (Inr [])
      | Some (Inl e) \<Rightarrow> Some (Inl e)
      | Some (Inr (e, m')) \<Rightarrow> map_option (\<lambda>r. and_then r (\<lambda>es. Inr (e # es))) (merge_collect nxt n m'))"

subsection \<open>Streams\<close>

text \<open>
  A stream yields its entries one after the other, then ends; \<open>src\<close> is what it reads from and
  does not change.
\<close>

locale entry_stream =
  fixes nxt :: "'it \<Rightarrow> (entry \<times> 'it) result option"
    and rest :: "'it \<Rightarrow> entry list \<Rightarrow> bool"
    and src :: "'it \<Rightarrow> 's"
  assumes next_end: "rest it [] \<Longrightarrow> nxt it = None"
    and next_entry: "rest it (e # es) \<Longrightarrow> \<exists>it'. nxt it = Some (Inr (e, it')) \<and> rest it' es \<and> src it' = src it"
begin

text \<open>
  The state of a merge: what is left of every stream, and the item of the heap that belongs to
  it; the entries still to come are those of the heap and those left in the streams.
\<close>

definition stream_left :: "merge_item multiset \<Rightarrow> nat \<Rightarrow> entry list \<Rightarrow> bool" where
  "stream_left h i es \<longleftrightarrow>
     (\<forall>j \<in># h. mi_idx j = i \<longrightarrow> (\<forall>e \<in> set es. mi_key j \<le> fst e))
     \<and> sorted_wrt (\<lambda>a b. fst a \<le> fst b) es \<and> (es \<noteq> [] \<longrightarrow> (\<exists>j \<in># h. mi_idx j = i))"

definition merge_left :: "merge_item multiset \<Rightarrow> 'it list \<Rightarrow> entry list list \<Rightarrow> bool" where
  "merge_left h its rs \<longleftrightarrow>
     length rs = length its
     \<and> (\<forall>i < length rs. rest (its ! i) (rs ! i) \<and> stream_left h i (rs ! i))
     \<and> (\<forall>i. size {# j \<in># h. mi_idx j = i #} \<le> 1) \<and> (\<forall>j \<in># h. mi_idx j < length rs)"

abbreviation item_entry :: "merge_item \<Rightarrow> entry" where
  "item_entry j \<equiv> (mi_key j, mi_val j)"

definition merge_inv :: "'it merge \<Rightarrow> entry multiset \<Rightarrow> bool" where
  "merge_inv m pend \<longleftrightarrow>
     (\<exists>rs. merge_left (mset (peek_heap m)) (iters m) rs
       \<and> pend = image_mset item_entry (mset (peek_heap m)) + (\<Sum>r \<leftarrow> rs. mset r))"

lemma sum_update:
  "i < length rs \<Longrightarrow> (\<Sum>r \<leftarrow> rs. mset r) = mset (rs ! i) + (\<Sum>r \<leftarrow> rs[i := []]. mset r)"
  for rs :: "entry list list"
proof (induction rs arbitrary: i)
  case (Cons r rs)
  then show ?case by (cases i) (auto simp: ac_simps)
qed simp

lemma in_sum_mset: "e \<in># (\<Sum>r \<leftarrow> rs. mset r) \<longleftrightarrow> (\<exists>r \<in> set rs. e \<in> set r)"
  for rs :: "entry list list"
  by (induction rs) auto

lemma merge_left_min:
  assumes left: "merge_left h its rs" and "j \<in># h" and min: "\<And>j'. j' \<in># h \<Longrightarrow> mi_key j \<le> mi_key j'"
    and e: "e \<in># image_mset item_entry h + (\<Sum>r \<leftarrow> rs. mset r)"
  shows "mi_key j \<le> fst e"
proof -
  from e consider j' where "j' \<in># h" "e = item_entry j'" | r where "r \<in> set rs" "e \<in> set r"
    by (auto simp: in_sum_mset)
  then show ?thesis
  proof cases
    case 1
    with min show ?thesis by simp
  next
    case (2 r)
    then obtain i where i: "i < length rs" "r = rs ! i" by (auto simp: in_set_conv_nth)
    with left have "stream_left h i r" by (simp add: merge_left_def)
    with 2 obtain j' where "j' \<in># h" "mi_key j' \<le> fst e" by (auto simp: stream_left_def)
    with min [of j'] show ?thesis by auto
  qed
qed

lemma merge_left_pop:
  assumes left: "merge_left (add_mset j h) its rs" and "rs ! mi_idx j = []"
  shows "merge_left h its rs"
proof -
  have "stream_left h i (rs ! i)" if "i < length rs" for i
  proof -
    from left that have "stream_left (add_mset j h) i (rs ! i)" by (simp add: merge_left_def)
    with assms(2) show ?thesis by (cases "mi_idx j = i") (auto simp: stream_left_def)
  qed
  moreover have "size {# j' \<in># h. mi_idx j' = i #} \<le> 1" for i
  proof -
    have "size {# j' \<in># h. mi_idx j' = i #} \<le> size {# j' \<in># add_mset j h. mi_idx j' = i #}" by simp
    also from left have "\<dots> \<le> 1" by (simp add: merge_left_def)
    finally show ?thesis .
  qed
  ultimately show ?thesis using left by (auto simp: merge_left_def)
qed

lemma merge_left_advance:
  assumes left: "merge_left (add_mset j h) its rs" and r: "rs ! mi_idx j = (k, v) # es"
    and it': "rest it' es"
  shows "merge_left (add_mset \<lparr>mi_key = k, mi_val = v, mi_idx = mi_idx j\<rparr> h)
    (its[mi_idx j := it']) (rs[mi_idx j := es])"
proof -
  let ?i = "mi_idx j" and ?j = "\<lparr>mi_key = k, mi_val = v, mi_idx = mi_idx j\<rparr>"
  from left have i: "?i < length rs" and len: "length rs = length its" by (simp_all add: merge_left_def)
  have one: "size {# j' \<in># add_mset j h. mi_idx j' = i #} \<le> 1" for i
    using left by (simp add: merge_left_def)
  then have "size {# j' \<in># h. mi_idx j' = ?i #} = 0" by (metis (mono_tags) add_is_0 filter_mset_add_mset le_0_eq not_less_eq_eq One_nat_def size_add_mset)
  then have none: "\<forall>j' \<in># h. mi_idx j' \<noteq> ?i" by auto
  have "rest (its[?i := it'] ! i) (rs[?i := es] ! i) \<and> stream_left (add_mset ?j h) i (rs[?i := es] ! i)"
    if "i < length rs" for i
  proof (cases "i = ?i")
    case True
    from left i have "stream_left (add_mset j h) ?i ((k, v) # es)" unfolding merge_left_def by (metis r)
    with none have "stream_left (add_mset ?j h) ?i es" by (auto simp: stream_left_def)
    with True it' i len show ?thesis by simp
  next
    case False
    from left that have "rest (its ! i) (rs ! i)" "stream_left (add_mset j h) i (rs ! i)"
      by (simp_all add: merge_left_def)
    with False show ?thesis by (auto simp: stream_left_def)
  qed
  moreover have "size {# j' \<in># add_mset ?j h. mi_idx j' = i #} \<le> 1" for i
    using one [of i] by (cases "mi_idx j = i") simp_all
  ultimately show ?thesis using left by (auto simp: merge_left_def)
qed

lemma merge_next_inv:
  assumes inv: "merge_inv m pend"
  shows "(pend = {#} \<and> merge_next nxt m = None) \<or>
    (\<exists>e m'. merge_next nxt m = Some (Inr (e, m')) \<and> e \<in># pend \<and> merge_inv m' (pend - {#e#})
       \<and> (\<forall>e' \<in># pend. fst e \<le> fst e') \<and> map src (iters m') = map src (iters m))"
proof -
  from inv obtain rs where left: "merge_left (mset (peek_heap m)) (iters m) rs"
    and pend: "pend = image_mset item_entry (mset (peek_heap m)) + (\<Sum>r \<leftarrow> rs. mset r)"
    by (auto simp: merge_inv_def)
  show ?thesis
  proof (cases "heap_pop (peek_heap m)")
    case None
    then have "mset (peek_heap m) = {#}" by (simp only: heap.pop_empty)
    with left have "rs ! i = []" if "i < length rs" for i
      using that by (auto simp: merge_left_def stream_left_def)
    then have "\<forall>r \<in> set rs. r = []" by (metis in_set_conv_nth)
    then have "(\<Sum>r \<leftarrow> rs. mset r) = {#}" by (induction rs) auto
    with None pend \<open>mset (peek_heap m) = {#}\<close> show ?thesis by (simp add: merge_next_def)
  next
    case (Some jh)
    obtain j h where jh: "jh = (j, h)" by (cases jh)
    note pop = Some [unfolded jh]
    from heap.pop_items [OF pop] have H: "mset (peek_heap m) = add_mset j (mset h)" .
    let ?i = "mi_idx j" and ?e = "item_entry j"
    from left have i: "?i < length rs" "length rs = length (iters m)" unfolding merge_left_def by (auto simp: H)
    have min: "\<forall>e' \<in># pend. fst ?e \<le> fst e'"
      using merge_left_min [OF left heap.pop_member [OF pop] heap.pop_min [OF pop]] pend by simp
    have rest: "rest (iters m ! ?i) (rs ! ?i)" using left i(1) by (simp add: merge_left_def)
    show ?thesis
    proof (cases "rs ! ?i")
      case Nil
      with rest have "nxt (iters m ! ?i) = None" by (simp add: next_end)
      then have "merge_next nxt m = Some (Inr (?e, m\<lparr>peek_heap := h\<rparr>))"
        by (simp add: merge_next_def pop Let_def)
      moreover have "merge_inv (m\<lparr>peek_heap := h\<rparr>) (pend - {#?e#})"
        using merge_left_pop [OF left [unfolded H] Nil] by (auto simp: merge_inv_def pend H)
      ultimately show ?thesis using min pend H by auto
    next
      case (Cons f es)
      obtain k v where f: "f = (k, v)" by (cases f)
      from rest Cons f obtain it' where it': "nxt (iters m ! ?i) = Some (Inr ((k, v), it'))"
        "rest it' es" "src it' = src (iters m ! ?i)" using next_entry by metis
      let ?m' = "m\<lparr>peek_heap := heap_push \<lparr>mi_key = k, mi_val = v, mi_idx = ?i\<rparr> h, iters := (iters m)[?i := it']\<rparr>"
      have "merge_next nxt m = Some (Inr (?e, ?m'))"
        by (simp add: merge_next_def pop Let_def it'(1))
      moreover have "merge_inv ?m' (pend - {#?e#})"
        unfolding merge_inv_def using merge_left_advance [OF left [unfolded H] Cons [unfolded f] it'(2)] i
        by (intro exI [of _ "rs[?i := es]"])
          (simp add: heap.items_push pend H sum_update [of ?i rs] sum_update [of ?i "rs[?i := es]"] Cons f)
      moreover have "map src (iters ?m') = map src (iters m)"
        using it'(3) i list_update_id [of "map src (iters m)" ?i] by (simp add: map_update)
      ultimately show ?thesis using min pend H by auto
    qed
  qed
qed

text \<open>The items the initial population puts on the heap.\<close>

fun fill_items :: "nat \<Rightarrow> entry list list \<Rightarrow> merge_item list" where
  "fill_items i [] = []"
| "fill_items i (r # rs) =
     (case r of [] \<Rightarrow> [] | (k, v) # _ \<Rightarrow> [\<lparr>mi_key = k, mi_val = v, mi_idx = i\<rparr>]) @ fill_items (Suc i) rs"

lemma merge_fill_streams:
  assumes "list_all2 rest its rs"
  shows "\<exists>h js. merge_fill nxt i its heap = Inr (h, js) \<and> mset h = mset heap + mset (fill_items i rs)
    \<and> list_all2 rest js (map tl rs) \<and> map src js = map src its"
  using assms
proof (induction its arbitrary: rs i heap)
  case Nil
  then show ?case by simp
next
  case (Cons it its)
  then obtain r rs' where rs: "rs = r # rs'" "rest it r" "list_all2 rest its rs'"
    by (cases rs) auto
  show ?case
  proof (cases r)
    case Nil
    with rs Cons.IH [OF rs(3), of "Suc i" heap] next_end show ?thesis by fastforce
  next
    case (Cons e es)
    obtain k v where e: "e = (k, v)" by (cases e)
    with rs(2) Cons obtain it' where it': "nxt it = Some (Inr ((k, v), it'))" "rest it' es" "src it' = src it"
      using next_entry by metis
    from Cons.IH [OF rs(3), of "Suc i" "heap_push \<lparr>mi_key = k, mi_val = v, mi_idx = i\<rparr> heap"] it' rs Cons e
    show ?thesis by (auto simp: heap.items_push)
  qed
qed

lemma fill_items_idx: "j \<in> set (fill_items i rs) \<Longrightarrow> i \<le> mi_idx j \<and> mi_idx j < i + length rs"
  by (induction rs arbitrary: i) (fastforce split: list.splits)+

lemma fill_items_unique: "size {# j \<in># mset (fill_items i rs). mi_idx j = n #} \<le> 1"
proof (induction rs arbitrary: i)
  case (Cons r rs)
  have "{# j \<in># mset (fill_items (Suc i) rs). mi_idx j = n #} = {#}" if "n = i"
    using that by (auto simp: filter_mset_eq_conv dest!: fill_items_idx)
  with Cons show ?case by (cases "n = i") (auto split: list.splits)
qed simp

lemma fill_items_nth:
  "n < length rs \<Longrightarrow> (\<exists>j \<in> set (fill_items i rs). mi_idx j = i + n) = (rs ! n \<noteq> [])
   \<and> (\<forall>j \<in> set (fill_items i rs). mi_idx j = i + n \<longrightarrow> rs ! n = item_entry j # tl (rs ! n))"
proof (induction rs arbitrary: i n)
  case (Cons r rs)
  show ?case
  proof (cases n)
    case 0
    have "\<forall>j \<in> set (fill_items (Suc i) rs). mi_idx j \<noteq> i" by (auto dest: fill_items_idx)
    with 0 show ?thesis
      by (cases r) (auto split: prod.splits dest: arg_cong [where f = mi_key] arg_cong [where f = mi_val])
  next
    case (Suc m)
    with Cons.prems Cons.IH [of m "Suc i"] show ?thesis by (cases r) auto
  qed
qed simp

lemma fill_items_mset:
  "image_mset item_entry (mset (fill_items i rs)) + (\<Sum>r \<leftarrow> map tl rs. mset r) = (\<Sum>r \<leftarrow> rs. mset r)"
proof (induction rs arbitrary: i)
  case (Cons r rs)
  then show ?case by (cases r) (auto simp: ac_simps)
qed simp

lemma merge_new_inv:
  assumes "list_all2 rest its rs" and sorted: "\<forall>r \<in> set rs. sorted_wrt (\<lambda>a b. fst a \<le> fst b) r"
  shows "\<exists>m. merge_new nxt its = Inr m \<and> merge_inv m (\<Sum>r \<leftarrow> rs. mset r) \<and> map src (iters m) = map src its"
proof -
  from merge_fill_streams [OF assms(1), of 0 "[]"] obtain h js where
    h: "merge_fill nxt 0 its [] = Inr (h, js)" "mset h = mset (fill_items 0 rs)"
    "list_all2 rest js (map tl rs)" "map src js = map src its" by auto
  have "stream_left (mset h) i (map tl rs ! i)" if "i < length rs" for i
  proof -
    from that sorted have "sorted_wrt (\<lambda>a b. fst a \<le> fst b) (rs ! i)" by simp
    with fill_items_nth [OF that, of 0] that h(2) show ?thesis
      unfolding stream_left_def by (cases "rs ! i") fastforce+
  qed
  moreover have "length js = length rs" using h(3) by (auto dest: list_all2_lengthD)
  moreover have "mi_idx j < length rs" if "j \<in># mset h" for j
    using that fill_items_idx [of j 0 rs] by (simp add: h(2))
  ultimately have "merge_left (mset h) js (map tl rs)"
    using h(3) fill_items_unique [of _ 0 rs]
    by (auto simp: merge_left_def list_all2_conv_all_nth h(2))
  then have "merge_inv \<lparr>peek_heap = h, iters = js\<rparr> (\<Sum>r \<leftarrow> rs. mset r)"
    unfolding merge_inv_def using fill_items_mset [of 0 rs] h(2) by (intro exI [of _ "map tl rs"]) simp
  with h show ?thesis by (auto simp: merge_new_def)
qed

lemma merge_collect_inv:
  "merge_inv m pend \<Longrightarrow> \<exists>out. merge_collect nxt (Suc (size pend)) m = Some (Inr out)
     \<and> mset out = pend \<and> sorted_wrt (\<lambda>a b. fst a \<le> fst b) out"
proof (induction "size pend" arbitrary: m pend)
  case 0
  with merge_next_inv [OF 0(2)] show ?case by auto
next
  case (Suc n)
  from merge_next_inv [OF Suc.prems] Suc.hyps(2) obtain e m' where
    m': "merge_next nxt m = Some (Inr (e, m'))" "e \<in># pend" "merge_inv m' (pend - {#e#})"
    and min: "\<forall>e' \<in># pend. fst e \<le> fst e'" by auto
  from m'(2) Suc.hyps(2) have "n = size (pend - {#e#})" by (simp add: size_Diff_singleton)
  from Suc.hyps(1) [OF this m'(3)] obtain out where
    out: "merge_collect nxt (Suc n) m' = Some (Inr out)" "mset out = pend - {#e#}"
    "sorted_wrt (\<lambda>a b. fst a \<le> fst b) out" using \<open>n = _\<close> by metis
  have "\<forall>e' \<in> set out. fst e \<le> fst e'" using min out(2) by (metis in_diffD set_mset_mset)
  moreover have "merge_collect nxt (Suc (size pend)) m = Some (Inr (e # out))"
    unfolding Suc.hyps(2) [symmetric] using m'(1) out(1) by (simp del: merge_collect.simps add: merge_collect.simps(2) [of nxt "Suc n"])
  ultimately show ?case using out m'(2) by auto
qed

end

text \<open>The iterator of an SSTable is a stream; what it reads from is its file.\<close>

interpretation sst_stream: entry_stream "sst_iter_next x f" "iter_rest x f" "\<lambda>it. sst_file (it_sst it)"
  for x f
proof unfold_locales
  fix it e es
  assume "iter_rest x f it (e # es)"
  from sst_iter_next_rest [OF this] show "\<exists>it'. sst_iter_next x f it = Some (Inr (e, it')) \<and> iter_rest x f it' es
      \<and> sst_file (it_sst it') = sst_file (it_sst it)" by auto
next
  fix it
  assume "iter_rest x f it []"
  from sst_iter_next_rest [OF this] show "sst_iter_next x f it = None" by simp
qed

lemma sst_stream_new:
  "list_all2 (sst_holds x f) ssts rs \<Longrightarrow> list_all2 (iter_rest x f) (map sst_iter_new ssts) rs"
  by (simp add: list_all2_map1) (auto elim: list_all2_mono intro: iter_rest_new)

lemma run_sorted_le: "run_sorted r \<Longrightarrow> sorted_wrt (\<lambda>a b. fst a \<le> fst b) r"
  by (induction r) (auto intro: less_imp_le)

text \<open>In a sequence sorted by internal key the first version of a user key is the newest.\<close>

lemma latest_sorted_newest:
  assumes "sorted_wrt (\<lambda>a b. fst a \<le> fst b) out" "latest out kb = Some e" "e' \<in> set out" "kbytes (fst e') = kb"
  shows "lsn (fst e') \<le> lsn (fst e)"
  using assms by (induction out) (auto simp: key_le_iff split: if_splits)

subsection \<open>Properties\<close>

text \<open>C15: Merging SSTables yields every entry of every input exactly once and nothing else, in the order of
  the internal keys, whatever their ranges and however many versions a key has in them; so the first
  version of a user key that comes out is the newest one in any of the inputs.\<close>

theorem merge_ssts_sorted:
  assumes "list_all2 (sst_holds x f) ssts rs" and "\<forall>r \<in> set rs. run_sorted r"
  shows "\<exists>m out. merge_new (sst_iter_next x f) (map sst_iter_new ssts) = Inr m
    \<and> merge_collect (sst_iter_next x f) (Suc (sum_list (map length rs))) m = Some (Inr out)
    \<and> mset out = (\<Sum>r \<leftarrow> rs. mset r) \<and> sorted_wrt (\<lambda>a b. fst a \<le> fst b) out
    \<and> (\<forall>kb e r e'. latest out kb = Some e \<and> r \<in> set rs \<and> e' \<in> set r \<and> kbytes (fst e') = kb
        \<longrightarrow> lsn (fst e') \<le> lsn (fst e))"
proof -
  have "\<forall>r \<in> set rs. sorted_wrt (\<lambda>a b. fst a \<le> fst b) r" using assms(2) run_sorted_le by blast
  from sst_stream.merge_new_inv [OF sst_stream_new [OF assms(1)] this] obtain m where
    m: "merge_new (sst_iter_next x f) (map sst_iter_new ssts) = Inr m"
    "sst_stream.merge_inv x f m (\<Sum>r \<leftarrow> rs. mset r)" by blast
  have "size (\<Sum>r \<leftarrow> rs. mset r) = sum_list (map length rs)" by (induction rs) auto
  with sst_stream.merge_collect_inv [OF m(2)] obtain out where
    out: "merge_collect (sst_iter_next x f) (Suc (sum_list (map length rs))) m = Some (Inr out)"
    "mset out = (\<Sum>r \<leftarrow> rs. mset r)" "sorted_wrt (\<lambda>a b. fst a \<le> fst b) out" by metis
  have "e' \<in> set out" if "r \<in> set rs" "e' \<in> set r" for r e'
    using that out(2) sst_stream.in_sum_mset [of e' rs] by (metis set_mset_mset)
  with m(1) out show ?thesis using latest_sorted_newest [OF out(3)] by blast
qed

definition sample_run2 :: "entry list" where
  "sample_run2 = [(Key 8 [1], Bytes [7]), (Key 5 [2], Bytes [8]), (Key 6 [9], Tombstone)]"

lemma sample_run2_ok: "run_sorted sample_run2" "run_fits sample_run2" "sample_run2 \<noteq> []"
  by (simp_all add: sample_run2_def run_fits_def key_less_iff key_ok_def length_entry_encode val_payload_def)

text \<open>An SSTable written next to another one leaves that as it is.\<close>

lemma sst_holds_put_other:
  assumes "fs_wf f" "sst_holds x f s es" "fs_lookup f nm = Some (sst_file s)" "nm \<noteq> nm'"
  shows "sst_holds x (fs_put f nm' bs) s es \<and> fs_lookup (fs_put f nm' bs) nm = Some (sst_file s)"
proof -
  have "fs_lookup f nm' \<noteq> Some (sst_file s)" using assms fs_lookup_inj by metis
  then have "data (fs_put f nm' bs) (sst_file s) = data f (sst_file s)"
    using fs_lookup_less [OF assms(1,3)] by (intro fs_put_data_other)
  from sst_holds_data [OF this] assms show ?thesis by (simp add: fs_put_lookup)
qed

lemma two_ssts:
  "\<exists>f s1 s2. sst_holds sample_ext f s1 sample_run \<and> sst_holds sample_ext f s2 sample_run2"
proof -
  have n: "parse_u32 (path_stem (sst_name 1)) = Some 1" "parse_u32 (path_stem (sst_name 2)) = Some 2"
    by (simp_all add: parse_fmt05)
  from sst_build_opens [OF fs_wf_empty sample_ext_ok sample_run_ok(3,2) n(1)] obtain f1 s1 where
    f1: "fs_wf f1" "sst_holds sample_ext f1 s1 sample_run" "fs_lookup f1 (sst_name 1) = Some (sst_file s1)"
    by (elim exE conjE) (rule that)
  from sst_build_opens [OF f1(1) sample_ext_ok sample_run2_ok(3,2) n(2)] obtain f2 s2 bytes where
    f2: "f2 = fs_put f1 (sst_name 2) bytes" "sst_holds sample_ext f2 s2 sample_run2"
    by (elim exE conjE) (rule that)
  have "sst_holds sample_ext f2 s1 sample_run"
    using sst_holds_put_other [OF f1, of "sst_name 2" bytes] f2(1) by simp
  with f2(2) show ?thesis by blast
qed

theorem merge_ssts_sorted_witness:
  "\<exists>f s1 s2 m out. merge_new (sst_iter_next sample_ext f) (map sst_iter_new [s1, s2]) = Inr m
    \<and> merge_collect (sst_iter_next sample_ext f) 7 m = Some (Inr out)
    \<and> mset out = mset sample_run + mset sample_run2 \<and> sorted_wrt (\<lambda>a b. fst a \<le> fst b) out"
proof -
  from two_ssts obtain f s1 s2 where
    "sst_holds sample_ext f s1 sample_run" "sst_holds sample_ext f s2 sample_run2" by blast
  then have "list_all2 (sst_holds sample_ext f) [s1, s2] [sample_run, sample_run2]" by simp
  moreover have "\<forall>r \<in> set [sample_run, sample_run2]. run_sorted r"
    using sample_run_ok(1) sample_run2_ok(1) by simp
  ultimately obtain m out where "merge_new (sst_iter_next sample_ext f) (map sst_iter_new [s1, s2]) = Inr m"
    "merge_collect (sst_iter_next sample_ext f) (Suc (sum_list (map length [sample_run, sample_run2]))) m = Some (Inr out)"
    "mset out = (\<Sum>r \<leftarrow> [sample_run, sample_run2]. mset r)" "sorted_wrt (\<lambda>a b. fst a \<le> fst b) out"
    using merge_ssts_sorted by blast
  moreover have "Suc (sum_list (map length [sample_run, sample_run2])) = 7"
    by (simp add: sample_run_def sample_run2_def)
  moreover have "(\<Sum>r \<leftarrow> [sample_run, sample_run2]. mset r) = mset sample_run + mset sample_run2" by simp
  ultimately show ?thesis by metis
qed

end
