(* ===== verification/Version.thy ===== *)
theory Version
  imports Memtable Merge
begin

text \<open>
  The state readers see (\<open>DbVersion\<close> of \<open>src/lib.rs\<close>) and the read path \<open>Db::get\<close>. A version
  is immutable and swapped as a whole, so a lookup runs on one version from its start to its
  end; it searches the mutable memtable, then the frozen memtables from the newest to the
  oldest, then the SSTables level by level in the order they are stored.
\<close>

subsection \<open>Versions\<close>

record 'm db_version =
  v_next_lsn :: u64
  mutable_memtable :: "'m memtable"
  frozen_memtables :: "'m memtable list"
  mutable_wal :: wal
  sstables :: "sstable list list"

subsection \<open>Lookup\<close>

fun get_frozen :: "'m skipmap \<Rightarrow> bytes \<Rightarrow> 'm memtable list \<Rightarrow> val option" where
  "get_frozen sm key [] = None"
| "get_frozen sm key (m # ms) =
     (case memtable_get sm m key of Some v \<Rightarrow> Some v | None \<Rightarrow> get_frozen sm key ms)"

fun get_level :: "ext \<Rightarrow> fs \<Rightarrow> bytes \<Rightarrow> sstable list \<Rightarrow> val option result option" where
  "get_level x f key [] = Some (Inr None)"
| "get_level x f key (s # ss) =
     (case sst_search x f s key of
        None \<Rightarrow> None
      | Some (Inl e) \<Rightarrow> Some (Inl e)
      | Some (Inr (Some v)) \<Rightarrow> Some (Inr (Some v))
      | Some (Inr None) \<Rightarrow> get_level x f key ss)"

fun get_levels :: "ext \<Rightarrow> fs \<Rightarrow> bytes \<Rightarrow> sstable list list \<Rightarrow> val option result option" where
  "get_levels x f key [] = Some (Inr None)"
| "get_levels x f key (l # ls) =
     (case get_level x f key l of
        Some (Inr None) \<Rightarrow> get_levels x f key ls
      | r \<Rightarrow> r)"

definition db_get :: "ext \<Rightarrow> 'm skipmap \<Rightarrow> fs \<Rightarrow> 'm db_version \<Rightarrow> bytes \<Rightarrow> val option result option" where
  "db_get x sm f v key =
     (case memtable_get sm (mutable_memtable v) key of
        Some val \<Rightarrow> Some (Inr (Some val))
      | None \<Rightarrow>
     (case get_frozen sm key (rev (frozen_memtables v)) of
        Some val \<Rightarrow> Some (Inr (Some val))
      | None \<Rightarrow> get_levels x f key (sstables v)))"

subsection \<open>What a version holds\<close>

text \<open>The sources of a version: the runs of its SSTables, level by level.\<close>

definition version_holds :: "ext \<Rightarrow> 'm skipmap \<Rightarrow> fs \<Rightarrow> 'm db_version \<Rightarrow> entry list list list \<Rightarrow> bool" where
  "version_holds x sm f v lvls \<longleftrightarrow>
     memtable_ok sm (mutable_memtable v) \<and> (\<forall>m \<in> set (frozen_memtables v). memtable_ok sm m)
     \<and> list_all2 (list_all2 (sst_holds x f)) (sstables v) lvls
     \<and> (\<forall>l \<in> set lvls. \<forall>r \<in> set l. run_sorted r)"

text \<open>The first answer of a list of sources.\<close>

fun first_some :: "'a option list \<Rightarrow> 'a option" where
  "first_some [] = None"
| "first_some (Some a # xs) = Some a"
| "first_some (None # xs) = first_some xs"

lemma first_some_append: "first_some (xs @ ys) = (case first_some xs of Some a \<Rightarrow> Some a | None \<Rightarrow> first_some ys)"
  by (induction xs rule: first_some.induct) auto

lemma get_frozen_first:
  "skipmap_ok sm \<Longrightarrow> get_frozen sm key ms = first_some (map (\<lambda>m. visible (latest (memtable_iter sm m) key)) ms)"
proof (induction ms)
  case (Cons m ms)
  then show ?case
    by (cases "visible (latest (memtable_iter sm m) key)") (simp_all add: memtable_get_latest)
qed simp

lemma get_level_first:
  assumes "list_all2 (sst_holds x f) ss rs" "\<forall>r \<in> set rs. run_sorted r"
  shows "get_level x f key ss = Some (Inr (first_some (map (\<lambda>r. map_option snd (latest r key)) rs)))"
  using assms
proof (induction ss rs rule: list_all2_induct)
  case (Cons s ss r rs)
  then have "sst_search x f s key = Some (Inr (map_option snd (latest r key)))"
    by (intro sst_search_latest) auto
  with Cons show ?case by (cases "latest r key") auto
qed simp

lemma get_levels_first:
  assumes "list_all2 (list_all2 (sst_holds x f)) ls lvls" "\<forall>l \<in> set lvls. \<forall>r \<in> set l. run_sorted r"
  shows "get_levels x f key ls = Some (Inr (first_some (map (\<lambda>r. map_option snd (latest r key)) (concat lvls))))"
  using assms
proof (induction ls lvls rule: list_all2_induct)
  case (Cons l ls level lvls)
  then have "get_level x f key l = Some (Inr (first_some (map (\<lambda>r. map_option snd (latest r key)) level)))"
    by (intro get_level_first) auto
  with Cons show ?case
    by (cases "first_some (map (\<lambda>r. map_option snd (latest r key)) level)") (auto simp: first_some_append)
qed simp

lemma db_get_first:
  assumes "skipmap_ok sm" "version_holds x sm f v lvls"
  shows "db_get x sm f v key = Some (Inr (first_some (
      map (\<lambda>m. visible (latest (memtable_iter sm m) key)) (mutable_memtable v # rev (frozen_memtables v))
      @ map (\<lambda>r. map_option snd (latest r key)) (concat lvls))))"
proof -
  from assms(2) have "get_levels x f key (sstables v) =
      Some (Inr (first_some (map (\<lambda>r. map_option snd (latest r key)) (concat lvls))))"
    by (intro get_levels_first) (auto simp: version_holds_def)
  then show ?thesis
    by (auto simp: db_get_def memtable_get_latest [OF assms(1)] get_frozen_first [OF assms(1)] first_some_append
        split: option.split)
qed

text \<open>
  The runs in the order they are searched, and a recency condition for one key: each of its
  versions in an earlier run is newer than each in a later run.
\<close>

definition search_order :: "'m skipmap \<Rightarrow> 'm db_version \<Rightarrow> entry list list list \<Rightarrow> entry list list" where
  "search_order sm v lvls =
     map (memtable_iter sm) (mutable_memtable v # rev (frozen_memtables v)) @ concat lvls"

definition newest_first :: "bytes \<Rightarrow> entry list list \<Rightarrow> bool" where
  "newest_first key rs \<longleftrightarrow>
     sorted_wrt (\<lambda>r r'. \<forall>e \<in> set r. \<forall>e' \<in> set r'.
       kbytes (fst e) = key \<and> kbytes (fst e') = key \<longrightarrow> lsn (fst e') < lsn (fst e)) rs"

text \<open>The newest version of a key in a collection of runs.\<close>

definition is_newest :: "bytes \<Rightarrow> entry list list \<Rightarrow> entry \<Rightarrow> bool" where
  "is_newest key rs e \<longleftrightarrow>
     e \<in> set (concat rs) \<and> kbytes (fst e) = key
     \<and> (\<forall>e' \<in> set (concat rs). kbytes (fst e') = key \<longrightarrow> lsn (fst e') \<le> lsn (fst e))"

text \<open>With the newest first, the first run with a version has the newest one first.\<close>

lemma newest_is_first:
  assumes "newest_first key rs" "is_newest key rs e" "\<forall>r \<in> set rs. run_sorted r"
  shows "\<exists>us r vs. rs = us @ r # vs \<and> (\<forall>u \<in> set us. latest u key = None) \<and> latest r key = Some e"
proof -
  from assms(2) obtain r where r: "r \<in> set rs" "e \<in> set r" "kbytes (fst e) = key"
    and max: "\<And>e'. e' \<in> set (concat rs) \<Longrightarrow> kbytes (fst e') = key \<Longrightarrow> lsn (fst e') \<le> lsn (fst e)"
    by (auto simp: is_newest_def)
  from split_list [OF r(1)] obtain us vs where rs: "rs = us @ r # vs" by blast
  have "latest u key = None" if "u \<in> set us" for u
  proof (rule ccontr)
    assume "latest u key \<noteq> None"
    then obtain e' where "latest u key = Some e'" by blast
    then have e': "e' \<in> set u" "kbytes (fst e') = key" by (auto dest: latest_SomeD)
    with assms(1) rs that r have "lsn (fst e) < lsn (fst e')"
      by (auto simp: newest_first_def sorted_wrt_append)
    moreover from max [of e'] e' rs that have "lsn (fst e') \<le> lsn (fst e)" by auto
    ultimately show False by simp
  qed
  moreover have "latest r key = Some e"
  proof (cases "latest r key")
    case None
    with r show ?thesis by (simp add: latest_None_iff)
  next
    case (Some e')
    then have e': "e' \<in> set r" "kbytes (fst e') = key" by (auto dest: latest_SomeD)
    have srt: "run_sorted r" using assms(3) r(1) by blast
    have "lsn (fst e) \<le> lsn (fst e')" using latest_is_newest [OF srt Some r(2,3)] .
    moreover have "lsn (fst e') \<le> lsn (fst e)" using max [of e'] e' rs by auto
    ultimately have "fst e = fst e'" using e'(2) r(3) by (cases "fst e"; cases "fst e'") auto
    moreover have "distinct (map fst r)"
      using srt by (auto simp: run_sorted_def strict_sorted_iff)
    ultimately show ?thesis using Some e'(1) r(2) by (metis eq_key_imp_eq_value prod.collapse)
  qed
  ultimately show ?thesis using rs by blast
qed

lemma first_some_skip: "(\<forall>a \<in> set xs. a = None) \<Longrightarrow> first_some (xs @ ys) = first_some ys"
  by (induction xs) auto

lemma search_order_sorted: "version_holds x sm f v lvls \<Longrightarrow> \<forall>r \<in> set (search_order sm v lvls). run_sorted r"
  by (auto simp: version_holds_def search_order_def memtable_ok_def)

text \<open>The answer of a run: a memtable hides a tombstone, an SSTable does not.\<close>

lemma db_get_order:
  assumes "skipmap_ok sm" "version_holds x sm f v lvls"
  shows "\<exists>answers. db_get x sm f v key = Some (Inr (first_some answers))
    \<and> list_all2 (\<lambda>a r. a = visible (latest r key) \<or> a = map_option snd (latest r key)) answers (search_order sm v lvls)"
  unfolding db_get_first [OF assms]
  by (intro exI conjI refl)
    (auto simp: search_order_def list.rel_map intro!: list_all2_appendI list.rel_refl)

lemma first_some_answers:
  assumes "list_all2 (\<lambda>a r. a = visible (latest r key) \<or> a = map_option snd (latest r key)) answers (us @ r # vs)"
    and "\<forall>u \<in> set us. latest u key = None" and "latest r key = Some (k, val)" "val \<noteq> Tombstone"
  shows "first_some answers = Some val"
  using assms
proof (induction us arbitrary: answers)
  case Nil
  then show ?case by (auto simp: list_all2_Cons2)
next
  case (Cons u us)
  then show ?case by (auto simp: list_all2_Cons2)
qed

subsection \<open>Properties\<close>

text \<open>C3: If the sources of a version are in order of recency for a key, a lookup returns its newest version
  anywhere in the version, when that is not a deletion; if no source has a version, it returns nothing.
  In every case, a newest version that is a deletion included, it returns a result: it never fails or
  panics.\<close>

theorem get_returns_newest:
  assumes "skipmap_ok sm" "version_holds x sm f v lvls" "newest_first key (search_order sm v lvls)"
  shows "(\<exists>r. db_get x sm f v key = Some (Inr r))
    \<and> (is_newest key (search_order sm v lvls) (k, val) \<and> val \<noteq> Tombstone \<longrightarrow>
      db_get x sm f v key = Some (Inr (Some val)))
    \<and> ((\<forall>e \<in> set (concat (search_order sm v lvls)). kbytes (fst e) \<noteq> key) \<longrightarrow>
      db_get x sm f v key = Some (Inr None))"
proof (intro conjI impI)
  show "\<exists>r. db_get x sm f v key = Some (Inr r)" using db_get_first [OF assms(1,2)] by blast
next
  assume new: "is_newest key (search_order sm v lvls) (k, val) \<and> val \<noteq> Tombstone"
  from newest_is_first [OF assms(3) conjunct1 [OF new] search_order_sorted [OF assms(2)]] obtain us r vs where
    "search_order sm v lvls = us @ r # vs" "\<forall>u \<in> set us. latest u key = None" "latest r key = Some (k, val)"
    by blast
  with db_get_order [OF assms(1,2), of key] new show "db_get x sm f v key = Some (Inr (Some val))"
    by (auto dest!: first_some_answers)
next
  assume none: "\<forall>e \<in> set (concat (search_order sm v lvls)). kbytes (fst e) \<noteq> key"
  then have none: "latest r key = None" if "r \<in> set (search_order sm v lvls)" for r
    using that by (auto simp: latest_None_iff)
  from db_get_order [OF assms(1,2), of key] obtain answers where
    get: "db_get x sm f v key = Some (Inr (first_some answers))"
    and ans: "list_all2 (\<lambda>a r. a = visible (latest r key) \<or> a = map_option snd (latest r key)) answers
      (search_order sm v lvls)" by blast
  have "a = None" if "a \<in> set answers" for a
  proof -
    from that ans obtain r where "r \<in> set (search_order sm v lvls)"
      "a = visible (latest r key) \<or> a = map_option snd (latest r key)"
      unfolding list_all2_conv_all_nth in_set_conv_nth by metis
    with none show ?thesis by auto
  qed
  then show "db_get x sm f v key = Some (Inr None)"
    using get first_some_skip [of answers "[]"] by simp
qed

text \<open>A concrete memtable and version.\<close>

definition sample_mem :: "entry list \<Rightarrow> entry list memtable" where
  "sample_mem es = memtable_put_batch alist_skipmap es (memtable_new alist_skipmap)"

definition sample_version :: "entry list \<Rightarrow> entry list list \<Rightarrow> sstable list list \<Rightarrow> entry list db_version" where
  "sample_version mem frozen ssts =
     \<lparr>v_next_lsn = 1, mutable_memtable = sample_mem mem, frozen_memtables = map sample_mem frozen,
      mutable_wal = \<lparr>wal_id = 0, wal_file = 0\<rparr>, sstables = ssts\<rparr>"

lemma sample_mem_ok [simp]: "memtable_ok alist_skipmap (sample_mem es)"
  by (simp add: sample_mem_def memtable_ok_put_batch)

lemma sample_mem_iter: "memtable_iter alist_skipmap (sample_mem es) = fold (\<lambda>(k, v). ins_entry k v) es []"
  by (simp add: sample_mem_def memtable_iter_put_batch memtable_iter_new)

lemma sample_version_holds:
  "list_all2 (sst_holds x f) ss rs \<Longrightarrow> \<forall>r \<in> set rs. run_sorted r \<Longrightarrow>
   version_holds x alist_skipmap f (sample_version mem frozen [ss]) [rs]"
  by (simp add: version_holds_def sample_version_def)

theorem get_returns_newest_witness:
  "\<exists>f s1 s2. db_get sample_ext alist_skipmap f (sample_version [(Key 12 [1], Bytes [9])] [] [[s2, s1]]) [1]
      = Some (Inr (Some (Bytes [9])))
    \<and> db_get sample_ext alist_skipmap f (sample_version [(Key 12 [1], Bytes [9])] [] [[s2, s1]]) [7]
      = Some (Inr None)"
proof -
  from two_ssts obtain f s1 s2 where
    "sst_holds sample_ext f s1 sample_run" "sst_holds sample_ext f s2 sample_run2" by blast
  then have "version_holds sample_ext alist_skipmap f (sample_version [(Key 12 [1], Bytes [9])] [] [[s2, s1]])
      [[sample_run2, sample_run]]"
    using sample_run_ok(1) sample_run2_ok(1) by (intro sample_version_holds) simp_all
  note get = get_returns_newest [OF alist_skipmap_ok this]
  have order: "search_order alist_skipmap (sample_version [(Key 12 [1], Bytes [9])] [] [[s2, s1]]) [[sample_run2, sample_run]]
      = [[(Key 12 [1], Bytes [9])], sample_run2, sample_run]"
    by (simp add: search_order_def sample_version_def sample_mem_iter)
  have "newest_first [1] [[(Key 12 [1], Bytes [9])], sample_run2, sample_run]"
    by (simp add: newest_first_def sample_run_def sample_run2_def)
  moreover have "is_newest [1] [[(Key 12 [1], Bytes [9])], sample_run2, sample_run] (Key 12 [1], Bytes [9])"
    by (simp add: is_newest_def sample_run_def sample_run2_def)
  moreover have "newest_first [7] [[(Key 12 [1], Bytes [9])], sample_run2, sample_run]"
    "\<forall>e \<in> set (concat [[(Key 12 [1], Bytes [9])], sample_run2, sample_run]). kbytes (fst e) \<noteq> [7]"
    by (simp_all add: newest_first_def sample_run_def sample_run2_def)
  ultimately show ?thesis using get [unfolded order] by blast
qed

text \<open>C25: A deletion is not final: if the newest version of a key is a tombstone in the mutable memtable and
  the newest frozen memtable still holds a value of the key, a lookup returns that old value.\<close>

theorem get_resurrects_deleted:
  assumes "skipmap_ok sm" "latest (memtable_iter sm (mutable_memtable v)) key = Some (k, Tombstone)"
    and "frozen_memtables v = ms @ [m]" "latest (memtable_iter sm m) key = Some (k', val)" "val \<noteq> Tombstone"
  shows "db_get x sm f v key = Some (Inr (Some val))"
  using assms by (simp add: db_get_def memtable_get_latest)

theorem get_resurrects_deleted_witness:
  "db_get sample_ext alist_skipmap fs_empty
     (sample_version [(Key 2 [1], Tombstone)] [[(Key 1 [1], Bytes [5])]] []) [1] = Some (Inr (Some (Bytes [5])))"
  by (rule get_resurrects_deleted [OF alist_skipmap_ok, where ms = "[]" and m = "sample_mem [(Key 1 [1], Bytes [5])]"
      and k = "Key 2 [1]" and k' = "Key 1 [1]"])
    (simp_all add: sample_version_def sample_mem_iter)

text \<open>C26: Among SSTables the first in storage order with a version of the key decides, whatever it holds: a
  tombstone is returned to the caller as a value, and a newer version in a later SSTable of the same
  level is not seen.\<close>

theorem get_first_sstable_decides:
  assumes "skipmap_ok sm" "version_holds x sm f v lvls"
    and "\<forall>m \<in> set (mutable_memtable v # frozen_memtables v). latest (memtable_iter sm m) key = None"
    and "concat lvls = us @ r # vs" "\<forall>u \<in> set us. latest u key = None" "latest r key = Some (k, val)"
  shows "db_get x sm f v key = Some (Inr (Some val))"
proof -
  let ?mem = "map (\<lambda>m. visible (latest (memtable_iter sm m) key)) (mutable_memtable v # rev (frozen_memtables v))"
  let ?us = "map (\<lambda>r. map_option snd (latest r key)) us"
  have "\<forall>a \<in> set (?mem @ ?us). a = None" using assms(3,5) by auto
  from first_some_skip [OF this] show ?thesis
    unfolding db_get_first [OF assms(1,2)] assms(4) using assms(6) by simp
qed

theorem get_first_sstable_decides_witness:
  "\<exists>f s1 s2. db_get sample_ext alist_skipmap f (sample_version [] [] [[s1, s2]]) [1] = Some (Inr (Some (Bytes [5, 6])))
    \<and> db_get sample_ext alist_skipmap f (sample_version [] [] [[s1, s2]]) [9] = Some (Inr (Some Tombstone))
    \<and> latest sample_run2 [1] = Some (Key 8 [1], Bytes [7]) \<and> latest sample_run [1] = Some (Key 7 [1], Bytes [5, 6])"
proof -
  from two_ssts obtain f s1 s2 where
    "sst_holds sample_ext f s1 sample_run" "sst_holds sample_ext f s2 sample_run2" by blast
  then have holds: "version_holds sample_ext alist_skipmap f (sample_version [] [] [[s1, s2]]) [[sample_run, sample_run2]]"
    using sample_run_ok(1) sample_run2_ok(1) by (intro sample_version_holds) simp_all
  have none: "\<forall>m \<in> set (mutable_memtable (sample_version [] [] [[s1, s2]]) # frozen_memtables (sample_version [] [] [[s1, s2]])).
      latest (memtable_iter alist_skipmap m) key = None" for key
    by (simp add: sample_version_def sample_mem_iter)
  have "latest sample_run [1] = Some (Key 7 [1], Bytes [5, 6])" "latest sample_run2 [1] = Some (Key 8 [1], Bytes [7])"
    "latest sample_run [9] = None" "latest sample_run2 [9] = Some (Key 6 [9], Tombstone)"
    by (simp_all add: sample_run_def sample_run2_def)
  with get_first_sstable_decides [OF alist_skipmap_ok holds none, of "[]" sample_run "[sample_run2]" "[1]" "Key 7 [1]" "Bytes [5, 6]"]
    get_first_sstable_decides [OF alist_skipmap_ok holds none, of "[sample_run]" sample_run2 "[]" "[9]" "Key 6 [9]" Tombstone]
  show ?thesis by (intro exI [of _ f] exI [of _ s1] exI [of _ s2]) simp
qed

end
