(* ===== verification/Compact.thy ===== *)
theory Compact
  imports Version
begin

text \<open>
  The background worker of \<open>src/compact.rs\<close>: flushing frozen memtables to SSTables of level 0,
  merging levels, collecting files no manifest refers to, and the triggers of its loop. The
  worker shares three things with the writers: the manifest (under its lock), the directory
  and the current version. Every phase that runs under one lock, or only on files, is one
  definition; a run of the worker without interference composes them. \<open>None\<close> is a panic.
\<close>

subsection \<open>Flush: preparation\<close>

record 'm flush_job =
  fj_memtables :: "'m memtable list"
  fj_sst_id :: u32
  fj_wals :: "u32 list"

definition flush_prepare :: "manifest \<Rightarrow> 'm db_version \<Rightarrow> 'm flush_job option result \<times> manifest" where
  "flush_prepare m v =
     (if frozen_memtables v = [] then (Inr None, m)
      else
        let sid = next_sstable_id m;
            m1 = m\<lparr>next_sstable_id := next_sstable_id m + 1\<rparr>;
            memtables = frozen_memtables v;
            wals_to_delete = take (length memtables) (wals m1)
        in if length wals_to_delete \<noteq> length memtables
           then (Inl (DataCorrupted ''CRITICAL ERROR: WAL len mismatch Memtable len''), m1)
           else (Inr (Some \<lparr>fj_memtables = memtables, fj_sst_id = sid, fj_wals = wals_to_delete\<rparr>), m1))"

subsection \<open>Flush: the files\<close>

fun flush_files ::
  "ext \<Rightarrow> 'm skipmap \<Rightarrow> u32 \<Rightarrow> 'm memtable list \<Rightarrow> fs \<Rightarrow> (file_meta list result \<times> fs) option" where
  "flush_files x sm sid [] f = Some (Inr [], f)"
| "flush_files x sm sid (mt # mts) f =
     Option.bind (sst_build x (sst_name (unat sid)) (memtable_iter sm mt) f) (\<lambda>(r, f1).
       case r of
         Inl e \<Rightarrow> Some (Inl (Io (OtherIo ''Failed to finalize SSTable'')), f1)
       | Inr meta \<Rightarrow>
           map_option (\<lambda>(rs, f2). (and_then rs (\<lambda>metas. Inr (meta\<lparr>file_id := sid\<rparr> # metas)), f2))
             (flush_files x sm (sid + 1) mts f1))"

fun open_new_ssts :: "ext \<Rightarrow> fs \<Rightarrow> file_meta list \<Rightarrow> sstable list result" where
  "open_new_ssts x f [] = Inr []"
| "open_new_ssts x f (meta # metas) =
     (case sst_new x f (sst_name (unat (file_id meta))) of
        Inl e \<Rightarrow> Inl (Io (OtherIo ''Failed to open new SSTable''))
      | Inr s \<Rightarrow> and_then (open_new_ssts x f metas) (\<lambda>ss. Inr (s # ss)))"

subsection \<open>Flush: the commit\<close>

definition push_l0 :: "file_meta \<Rightarrow> manifest \<Rightarrow> manifest" where
  "push_l0 meta m =
     (let ls = (if levels m = [] then [level_default] else levels m)
      in m\<lparr>levels := ls[0 := (ls ! 0)\<lparr>files := files (ls ! 0) @ [meta]\<rparr>]\<rparr>)"

definition flush_mutator :: "file_meta list \<Rightarrow> u32 list \<Rightarrow> manifest \<Rightarrow> manifest result" where
  "flush_mutator new_sstables wals_to_delete m =
     (let m1 = fold push_l0 new_sstables m;
          current_wals = take (length wals_to_delete) (wals m1)
      in if current_wals \<noteq> wals_to_delete
         then Inl (DataCorrupted ''Manifest mismatch during flush commit'')
         else Inr (m1\<lparr>wals := drop (length wals_to_delete) (wals m1)\<rparr>))"

definition flush_install :: "nat \<Rightarrow> sstable list \<Rightarrow> 'm db_version \<Rightarrow> 'm db_version" where
  "flush_install num_flushed new_objs v =
     (let ls = (if sstables v = [] then [[]] else sstables v)
      in v\<lparr>frozen_memtables := drop num_flushed (frozen_memtables v),
           sstables := ls[0 := ls ! 0 @ new_objs]\<rparr>)"

subsection \<open>Garbage collection\<close>

text \<open>\<open>prepare_gc_snapshot\<close>: the files the manifest in memory refers to.\<close>

definition gc_snapshot :: "manifest \<Rightarrow> u32 set \<times> u32 set" where
  "gc_snapshot m = (set (wals m), set (map file_id (concat (map files (levels m)))))"

definition gc_manifest_files :: "fs \<Rightarrow> (nat \<times> string) list" where
  "gc_manifest_files f =
     List.map_filter (\<lambda>(nm, _).
       if suffix ''.mf'' nm then map_option (\<lambda>v. (v, nm)) (parse_u64 (trim_end_matches ''.mf'' nm))
       else None) (names f)"

definition gc_other_files :: "fs \<Rightarrow> string list" where
  "gc_other_files f = filter (\<lambda>nm. \<not> suffix ''.mf'' nm) (map fst (names f))"

text \<open>\<open>sort_by(|a, b| b.0.cmp(&a.0))\<close>: stable, greatest version first.\<close>

definition gc_sort :: "(nat \<times> string) list \<Rightarrow> (nat \<times> string) list" where
  "gc_sort ms = rev (sort_key fst (rev ms))"

text \<open>The identifiers of the manifests that are kept and can be read, with those of the snapshot.\<close>

definition gc_references ::
  "(bytes \<Rightarrow> u32) \<Rightarrow> fs \<Rightarrow> (nat \<times> string) list \<Rightarrow> u32 set \<times> u32 set \<Rightarrow> u32 set \<times> u32 set" where
  "gc_references crc f keep live =
     fold (\<lambda>(_, fname) (ws, ss).
       case fs_read f fname of
         None \<Rightarrow> (ws, ss)
       | Some bs \<Rightarrow>
           (case manifest_decode crc bs of
              Inl _ \<Rightarrow> (ws, ss)
            | Inr (m, _) \<Rightarrow> (ws \<union> set (wals m), ss \<union> set (map file_id (concat (map files (levels m)))))))
     keep live"

definition gc_obsolete :: "u32 set \<times> u32 set \<Rightarrow> string \<Rightarrow> bool" where
  "gc_obsolete refs fname =
     (if suffix ''.wal'' fname then
        (case parse_u32 (trim_end_matches ''.wal'' fname) of
           Some i \<Rightarrow> of_nat i \<notin> fst refs | None \<Rightarrow> False)
      else if suffix ''.sst'' fname then
        (case parse_u32 (trim_end_matches ''.sst'' fname) of
           Some i \<Rightarrow> of_nat i \<notin> snd refs | None \<Rightarrow> False)
      else False)"

definition garbage_collect :: "(bytes \<Rightarrow> u32) \<Rightarrow> u32 set \<times> u32 set \<Rightarrow> fs \<Rightarrow> fs" where
  "garbage_collect crc live f =
     (let manifest_files = gc_sort (gc_manifest_files f);
          keep = take 2 manifest_files;
          delete = drop 2 manifest_files;
          refs = gc_references crc f keep live;
          f1 = fold (\<lambda>(_, fname) f. fs_remove f fname) delete f
      in fold (\<lambda>fname f. if gc_obsolete refs fname then fs_remove f fname else f) (gc_other_files f) f1)"

subsection \<open>Flush: all phases\<close>

definition flush_memtables ::
  "ext \<Rightarrow> 'm skipmap \<Rightarrow> (nat \<Rightarrow> manifest \<times> fs \<Rightarrow> manifest \<times> fs) \<Rightarrow>
   manifest \<times> fs \<times> 'm db_version \<Rightarrow> (unit result \<times> manifest \<times> fs \<times> 'm db_version) option" where
  "flush_memtables x sm others st =
     (case st of (m, f, v) \<Rightarrow>
     (case flush_prepare m v of
        (Inl e, m1) \<Rightarrow> Some (Inl e, m1, f, v)
      | (Inr None, m1) \<Rightarrow> Some (Inr (), m1, f, v)
      | (Inr (Some job), m1) \<Rightarrow>
          Option.bind (flush_files x sm (fj_sst_id job) (fj_memtables job) f) (\<lambda>(r, f1).
          case r of
            Inl e \<Rightarrow> Some (Inl e, m1, f1, v)
          | Inr new_sstables \<Rightarrow>
         (case open_new_ssts x f1 new_sstables of
            Inl e \<Rightarrow> Some (Inl e, m1, f1, v)
          | Inr new_objs \<Rightarrow>
         (case apply_atomic_update (x_crc x) (\<lambda>m f. (flush_mutator new_sstables (fj_wals job) m, f)) others (m1, f1) of
            (Inl e, m2, f2) \<Rightarrow> Some (Inl e, m2, f2, v)
          | (Inr _, m2, f2) \<Rightarrow>
              Some (Inr (), m2, garbage_collect (x_crc x) (gc_snapshot m2) f2,
                    flush_install (length new_sstables) new_objs v))))))"

text \<open>The phases up to the commit of the manifest, before the version is loaded again and swapped.\<close>

definition flush_commit ::
  "ext \<Rightarrow> 'm skipmap \<Rightarrow> (nat \<Rightarrow> manifest \<times> fs \<Rightarrow> manifest \<times> fs) \<Rightarrow>
   manifest \<times> fs \<times> 'm db_version \<Rightarrow> ((nat \<times> sstable list) option result \<times> manifest \<times> fs) option" where
  "flush_commit x sm others st =
     (case st of (m, f, v) \<Rightarrow>
     (case flush_prepare m v of
        (Inl e, m1) \<Rightarrow> Some (Inl e, m1, f)
      | (Inr None, m1) \<Rightarrow> Some (Inr None, m1, f)
      | (Inr (Some job), m1) \<Rightarrow>
          Option.bind (flush_files x sm (fj_sst_id job) (fj_memtables job) f) (\<lambda>(r, f1).
          case r of
            Inl e \<Rightarrow> Some (Inl e, m1, f1)
          | Inr new_sstables \<Rightarrow>
         (case open_new_ssts x f1 new_sstables of
            Inl e \<Rightarrow> Some (Inl e, m1, f1)
          | Inr new_objs \<Rightarrow>
         (case apply_atomic_update (x_crc x) (\<lambda>m f. (flush_mutator new_sstables (fj_wals job) m, f)) others (m1, f1) of
            (Inl e, m2, f2) \<Rightarrow> Some (Inl e, m2, f2)
          | (Inr _, m2, f2) \<Rightarrow> Some (Inr (Some (length new_sstables, new_objs)), m2, f2))))))"

text \<open>A flush is its commit, the swap of the version and a collection of garbage.\<close>

lemma flush_memtables_commit:
  "flush_memtables x sm others (m, f, v) = map_option (\<lambda>(r, m2, f2).
     case r of
       Inl e \<Rightarrow> (Inl e, m2, f2, v)
     | Inr None \<Rightarrow> (Inr (), m2, f2, v)
     | Inr (Some (n, objs)) \<Rightarrow> (Inr (), m2, garbage_collect (x_crc x) (gc_snapshot m2) f2, flush_install n objs v))
     (flush_commit x sm others (m, f, v))"
  by (auto simp: flush_memtables_def flush_commit_def map_option_bind o_def split: prod.splits sum.splits option.splits intro!: Option.bind_cong)

subsection \<open>What garbage collection removes\<close>

lemma fs_read_remove_all:
  "fs_read (fold (\<lambda>(_, fname) f. fs_remove f fname) ds f) nm = (if nm \<in> snd ` set ds then None else fs_read f nm)"
  by (induction ds arbitrary: f) (auto simp: fs_read_remove)

lemma fs_read_remove_if:
  "fs_read (fold (\<lambda>fname f. if P fname then fs_remove f fname else f) ns f) nm =
     (if nm \<in> set ns \<and> P nm then None else fs_read f nm)"
  by (induction ns arbitrary: f) (auto simp: fs_read_remove)

lemma names_remove_all:
  "names (fold (\<lambda>(_, fname) f. fs_remove f fname) ds f) = filter (\<lambda>(n, _). n \<notin> snd ` set ds) (names f)"
proof (induction ds arbitrary: f)
  case Nil
  then show ?case by simp
next
  case (Cons d ds)
  then show ?case by (auto simp: fs_remove_def case_prod_unfold intro!: filter_cong)
qed

lemma names_remove_if:
  "names (fold (\<lambda>fname f. if P fname then fs_remove f fname else f) ns f) =
     filter (\<lambda>(n, _). \<not> (n \<in> set ns \<and> P n)) (names f)"
proof (induction ns arbitrary: f)
  case Nil
  then show ?case by simp
next
  case (Cons n ns)
  then show ?case by (auto simp: fs_remove_def case_prod_unfold intro!: filter_cong)
qed

definition gc_removed :: "(bytes \<Rightarrow> u32) \<Rightarrow> u32 set \<times> u32 set \<Rightarrow> fs \<Rightarrow> string \<Rightarrow> bool" where
  "gc_removed crc live f nm \<longleftrightarrow>
     nm \<in> snd ` set (drop 2 (gc_sort (gc_manifest_files f)))
     \<or> nm \<in> set (gc_other_files f)
       \<and> gc_obsolete (gc_references crc f (take 2 (gc_sort (gc_manifest_files f))) live) nm"

lemma gc_read: "fs_read (garbage_collect crc live f) nm = (if gc_removed crc live f nm then None else fs_read f nm)"
  by (auto simp: garbage_collect_def Let_def gc_removed_def fs_read_remove_all fs_read_remove_if)

lemma gc_names: "names (garbage_collect crc live f) = filter (\<lambda>(nm, _). \<not> gc_removed crc live f nm) (names f)"
  by (auto simp: garbage_collect_def Let_def gc_removed_def names_remove_all names_remove_if intro!: filter_cong)

lemma gc_lookup: "fs_lookup (garbage_collect crc live f) nm = (if gc_removed crc live f nm then None else fs_lookup f nm)"
proof -
  have "map_of (filter (\<lambda>(n, _). \<not> P n) xs) nm = (if P nm then None else map_of xs nm)" for P and xs :: "(string \<times> inode) list"
    by (induction xs) auto
  then show ?thesis by (simp add: fs_lookup_def gc_names)
qed

lemma fs_remove_inodes [simp]:
  "data (fs_remove f nm) = data f" "next_inode (fs_remove f nm) = next_inode f"
  by (simp_all add: fs_remove_def)

lemma gc_data [simp]: "data (garbage_collect crc live f) = data f"
proof -
  have "data (fold (\<lambda>(_, fname) f. fs_remove f fname) ds f) = data f" for ds :: "(nat \<times> string) list" and f
    by (induction ds arbitrary: f) auto
  moreover have "data (fold (\<lambda>fname f. if P fname then fs_remove f fname else f) ns f) = data f" for P ns f
    by (induction ns arbitrary: f) auto
  ultimately show ?thesis by (simp add: garbage_collect_def Let_def)
qed

lemma gc_wf: "fs_wf f \<Longrightarrow> fs_wf (garbage_collect crc live f)"
proof -
  assume "fs_wf f"
  moreover have "fs_wf (fold (\<lambda>(_, fname) f. fs_remove f fname) ds f)" if "fs_wf f" for ds :: "(nat \<times> string) list" and f
    using that by (induction ds arbitrary: f) (auto simp: fs_wf_remove)
  moreover have "fs_wf (fold (\<lambda>fname f. if P fname then fs_remove f fname else f) ns f)" if "fs_wf f" for P ns f
    using that by (induction ns arbitrary: f) (auto simp: fs_wf_remove)
  ultimately show ?thesis by (simp add: garbage_collect_def Let_def)
qed

text \<open>Which references are collected: the live ones and those of every kept manifest.\<close>

lemma gc_references_simps:
  "gc_references crc f [] live = live"
  "gc_references crc f ((v, nm) # keep) (ws, ss) = gc_references crc f keep
     (case fs_read f nm of None \<Rightarrow> (ws, ss)
      | Some bs \<Rightarrow> (case manifest_decode crc bs of Inl _ \<Rightarrow> (ws, ss)
          | Inr (m, _) \<Rightarrow> (ws \<union> set (wals m), ss \<union> set (map file_id (concat (map files (levels m)))))))"
  by (simp_all add: gc_references_def)

lemma gc_references_live: "fst live \<subseteq> fst (gc_references crc f keep live) \<and> snd live \<subseteq> snd (gc_references crc f keep live)"
proof (induction keep arbitrary: live)
  case Nil
  then show ?case by (simp add: gc_references_simps)
next
  case (Cons k keep)
  obtain v nm ws ss where k: "k = (v, nm)" and live: "live = (ws, ss)" by (metis surj_pair)
  show ?case
  proof (cases "fs_read f nm")
    case None
    with Cons [of live] show ?thesis by (simp add: k live gc_references_simps)
  next
    case (Some bs)
    show ?thesis
    proof (cases "manifest_decode crc bs")
      case (Inl e)
      with Some Cons [of live] show ?thesis by (simp add: k live gc_references_simps)
    next
      case (Inr mr)
      obtain m r where mr: "mr = (m, r)" by (cases mr)
      let ?live = "(ws \<union> set (wals m), ss \<union> set (map file_id (concat (map files (levels m)))))"
      have "gc_references crc f (k # keep) live = gc_references crc f keep ?live"
        using Some Inr by (simp add: k live gc_references_simps mr)
      with Cons [of ?live] show ?thesis by (simp add: live)
    qed
  qed
qed

lemma gc_references_kept:
  assumes "(v, nm) \<in> set keep" "fs_read f nm = Some bs" "manifest_decode crc bs = Inr (m, rest)"
  shows "set (wals m) \<subseteq> fst (gc_references crc f keep live)
    \<and> set (map file_id (concat (map files (levels m)))) \<subseteq> snd (gc_references crc f keep live)"
proof -
  from split_list [OF assms(1)] obtain us vs where keep: "keep = us @ (v, nm) # vs" by blast
  have "gc_references crc f keep live = gc_references crc f vs
      (fst (gc_references crc f us live) \<union> set (wals m),
       snd (gc_references crc f us live) \<union> set (map file_id (concat (map files (levels m)))))"
    by (simp add: gc_references_def keep assms(2,3) case_prod_unfold)
  with gc_references_live [of "(fst (gc_references crc f us live) \<union> set (wals m),
       snd (gc_references crc f us live) \<union> set (map file_id (concat (map files (levels m)))))" crc f vs]
  show ?thesis by simp
qed

lemma trim_once: "pat \<noteq> [] \<Longrightarrow> \<not> suffix pat s \<Longrightarrow> trim_end_matches pat (s @ pat) = s"
  by (simp add: suffixI trim_end_matches.simps [of pat "s @ pat"] trim_end_matches.simps [of pat s])

lemma digits_no_suffix: "\<not> is_digit (last pat) \<Longrightarrow> pat \<noteq> [] \<Longrightarrow> \<not> suffix pat (fmt05 n)"
  using fmt05_last [of n] by (auto simp: suffix_def) (metis append_is_Nil_conv last_append last_snoc)

lemma trim_names [simp]:
  "trim_end_matches ''.wal'' (wal_name n) = fmt05 n" "trim_end_matches ''.sst'' (sst_name n) = fmt05 n"
  "trim_end_matches ''.mf'' (mf_name n) = fmt05 n"
  unfolding file_name_defs by (rule trim_once; simp add: digits_no_suffix)+

lemma name_suffixes [simp]:
  "suffix ''.wal'' (wal_name n)" "suffix ''.sst'' (sst_name n)" "suffix ''.mf'' (mf_name n)"
  "\<not> suffix ''.mf'' (wal_name n)" "\<not> suffix ''.mf'' (sst_name n)" "\<not> suffix ''.wal'' (sst_name n)"
  by (simp_all add: file_name_defs suffix_def)

lemma gc_manifest_files_suffix: "(v, nm) \<in> set (gc_manifest_files f) \<Longrightarrow> suffix ''.mf'' nm"
  by (auto simp: gc_manifest_files_def List.map_filter_def split: if_splits)

lemma set_gc_sort [simp]: "set (gc_sort ms) = set ms"
  by (simp add: gc_sort_def)

lemma gc_keeps_wal:
  assumes "w \<in> fst (gc_references crc f (take 2 (gc_sort (gc_manifest_files f))) live)"
  shows "\<not> gc_removed crc live f (wal_name (unat w))"
  using assms unat_u32_less [of w]
  by (auto simp: gc_removed_def gc_obsolete_def parse_fmt05 dest!: in_set_dropD gc_manifest_files_suffix)

lemma gc_keeps_sst:
  assumes "s \<in> snd (gc_references crc f (take 2 (gc_sort (gc_manifest_files f))) live)"
  shows "\<not> gc_removed crc live f (sst_name (unat s))"
  using assms unat_u32_less [of s]
  by (auto simp: gc_removed_def gc_obsolete_def parse_fmt05 dest!: in_set_dropD gc_manifest_files_suffix)

subsection \<open>The newest manifest survives\<close>

text \<open>Every name that ends in \<open>.mf\<close> is the name of a version.\<close>

definition mf_names_ok :: "fs \<Rightarrow> bool" where
  "mf_names_ok f \<longleftrightarrow> (\<forall>nm \<in> fst ` set (names f). suffix ''.mf'' nm \<longrightarrow> (\<exists>n < 2 ^ 32. nm = mf_name n))"

lemma path_extension_suffix:
  assumes "path_extension s = Some ext"
  shows "suffix (CHR ''.'' # ext) s"
proof -
  let ?P = "\<lambda>c. c \<noteq> CHR ''.''"
  from assms obtain before after where r: "rsplit_dot s = Some (before, after)" "ext = after"
    by (auto simp: path_extension_def split: option.splits if_splits)
  then obtain c where c: "dropWhile ?P (rev s) = c # rev before" and after: "after = rev (takeWhile ?P (rev s))"
    by (auto simp: rsplit_dot_def split: list.splits)
  have "rev after @ dropWhile ?P (rev s) = rev s" unfolding after by simp
  then have "rev (rev after @ c # rev before) = rev (rev s)" unfolding c by (rule arg_cong)
  then have "before @ c # after = s" by simp
  then have "suffix (c # after) s" unfolding suffix_def by (intro exI [of _ before]) (rule sym)
  moreover have "\<not> ?P c" using c unfolding dropWhile_eq_Cons_conv by blast
  ultimately show ?thesis using r(2) by simp
qed

lemma gc_manifest_files_candidates:
  assumes "mf_names_ok f"
  shows "gc_manifest_files f = manifest_candidates f"
proof -
  have "(case e of (nm, _) \<Rightarrow> if suffix ''.mf'' nm
          then map_option (\<lambda>v. (v, nm)) (parse_u64 (trim_end_matches ''.mf'' nm)) else None) =
        (case e of (nm, _) \<Rightarrow> if path_extension nm = Some ''mf''
          then map_option (\<lambda>v. (v, nm)) (parse_u32 (path_stem nm)) else None)" if e: "e \<in> set (names f)" for e
  proof (cases "suffix ''.mf'' (fst e)")
    case True
    with assms e obtain n where "n < 2 ^ 32" "fst e = mf_name n" by (auto simp: mf_names_ok_def)
    then show ?thesis by (simp add: case_prod_unfold parse_fmt05)
  next
    case False
    then have "path_extension (fst e) \<noteq> Some ''mf''" by (auto dest: path_extension_suffix)
    with False show ?thesis by (simp add: case_prod_unfold)
  qed
  then have eq: "\<forall>e \<in> set (names f). (case e of (nm, _) \<Rightarrow> if suffix ''.mf'' nm
          then map_option (\<lambda>v. (v, nm)) (parse_u64 (trim_end_matches ''.mf'' nm)) else None) =
        (case e of (nm, _) \<Rightarrow> if path_extension nm = Some ''mf''
          then map_option (\<lambda>v. (v, nm)) (parse_u32 (path_stem nm)) else None)" by blast
  have "List.map_filter g xs = List.map_filter h xs" if "\<forall>e \<in> set xs. g e = h e"
    for g h :: "string \<times> inode \<Rightarrow> (nat \<times> string) option" and xs
    using that by (induction xs) (auto simp: List.map_filter_simps split: option.split)
  from this [OF eq] show ?thesis by (simp add: gc_manifest_files_def manifest_candidates_def)
qed

lemma candidates_names:
  assumes "mf_names_ok f" "(v, nm) \<in> set (manifest_candidates f)"
  shows "nm = mf_name v"
proof -
  from assms(2) have c: "nm \<in> fst ` set (names f)" "path_extension nm = Some ''mf''" "parse_u32 (path_stem nm) = Some v"
    by (auto simp: candidates_iff)
  with assms(1) path_extension_suffix [OF c(2)] obtain n where "n < 2 ^ 32" "nm = mf_name n"
    by (auto simp: mf_names_ok_def)
  with c(3) show ?thesis by (simp add: parse_fmt05)
qed

lemma gc_sort_first:
  assumes "x \<in> set ms" "\<forall>y \<in> set ms. fst y < fst x \<or> y = x"
  shows "x \<in> set (take 2 (gc_sort ms))"
proof -
  let ?s = "gc_sort ms"
  have "sorted (map fst (sort_key fst (rev ms)))" by simp
  then have "sorted_wrt (\<ge>) (map fst ?s)" by (simp add: gc_sort_def rev_map [symmetric] sorted_wrt_rev)
  moreover from assms(1) obtain a t where s: "?s = a # t" by (cases ?s) (auto dest: arg_cong [where f = set])
  ultimately have "\<forall>y \<in> set t. fst y \<le> fst a" by auto
  moreover have "x = a \<or> x \<in> set t" "a \<in> set ms" using assms(1) s by (metis set_gc_sort set_ConsD, metis list.set_intros(1) set_gc_sort)
  ultimately have "x = a" using assms(2) by fastforce
  then show ?thesis by (simp add: s numeral_2_eq_2)
qed

lemma max_by_version_unique:
  assumes "x \<in> set xs" "\<forall>y \<in> set xs. fst y < fst x \<or> y = x"
  shows "max_by_version xs = Some x"
proof (cases "max_by_version xs")
  case None
  with assms(1) show ?thesis by simp
next
  case (Some z)
  from max_by_version_Some [OF this] assms(1) have "z \<in> set xs" "fst x \<le> fst z" by auto
  with assms(2) Some show ?thesis by fastforce
qed

lemma gc_candidates:
  "set (manifest_candidates (garbage_collect crc live f)) =
     {(v, nm). (v, nm) \<in> set (manifest_candidates f) \<and> \<not> gc_removed crc live f nm}"
  by (force simp: candidates_iff gc_names)

lemma gc_keeps_manifest:
  assumes ok: "mf_names_ok f" and keep: "(v, nm) \<in> set (take 2 (gc_sort (gc_manifest_files f)))"
    and dist: "distinct (map fst (names f))"
  shows "\<not> gc_removed crc live f nm"
proof -
  let ?s = "gc_sort (gc_manifest_files f)"
  have "distinct (map snd (gc_manifest_files f))"
  proof -
    have "distinct (map fst xs) \<Longrightarrow> distinct (map snd (List.map_filter (\<lambda>(nm, _). if suffix ''.mf'' nm
       then map_option (\<lambda>v. (v, nm)) (parse_u64 (trim_end_matches ''.mf'' nm)) else None) xs))"
      for xs :: "(string \<times> inode) list"
    proof (induction xs)
      case (Cons a xs)
      have "\<forall>v nm. (v, nm) \<in> set (List.map_filter (\<lambda>(nm, _). if suffix ''.mf'' nm
         then map_option (\<lambda>v. (v, nm)) (parse_u64 (trim_end_matches ''.mf'' nm)) else None) xs) \<longrightarrow> nm \<in> fst ` set xs"
        by (auto simp: List.map_filter_def split: if_splits intro: rev_image_eqI)
      with Cons show ?case by (fastforce simp: List.map_filter_simps split: option.split prod.split if_splits)
    qed (simp add: List.map_filter_simps)
    from this [OF dist] show ?thesis by (simp add: gc_manifest_files_def)
  qed
  then have "distinct (map snd ?s)" by (simp add: gc_sort_def rev_map [symmetric] distinct_map inj_on_def)
  then have "snd ` set (take 2 ?s) \<inter> snd ` set (drop 2 ?s) = {}"
    by (metis append_take_drop_id distinct_append list.set_map map_append)
  with keep have "nm \<notin> snd ` set (drop 2 ?s)" by force
  moreover from keep have "suffix ''.mf'' nm" by (auto dest!: in_set_takeD gc_manifest_files_suffix)
  ultimately show ?thesis by (simp add: gc_removed_def gc_other_files_def)
qed

text \<open>Recovery finds the same manifest before and after a collection.\<close>

lemma gc_newest:
  assumes wf: "fs_wf f" and ok: "mf_names_ok f" and ne: "manifest_candidates f \<noteq> []"
  obtains v nm where "max_by_version (manifest_candidates f) = Some (v, nm)"
    "max_by_version (manifest_candidates (garbage_collect crc live f)) = Some (v, nm)" "\<not> gc_removed crc live f nm"
proof -
  from ne obtain v nm where mx: "max_by_version (manifest_candidates f) = Some (v, nm)"
    by (cases "max_by_version (manifest_candidates f)") auto
  have x: "(v, nm) \<in> set (manifest_candidates f)" and le: "\<And>y. y \<in> set (manifest_candidates f) \<Longrightarrow> fst y \<le> v"
    using max_by_version_Some [OF mx] by auto
  have uniq: "\<forall>y \<in> set (manifest_candidates f). fst y < fst (v, nm) \<or> y = (v, nm)"
  proof
    fix y
    assume y: "y \<in> set (manifest_candidates f)"
    obtain w n where wn: "y = (w, n)" by (cases y)
    have "w \<le> v" using le [OF y] by (simp add: wn)
    moreover have "n = mf_name w" "nm = mf_name v" using candidates_names [OF ok] y x by (simp_all add: wn)
    ultimately show "fst y < fst (v, nm) \<or> y = (v, nm)" by (auto simp: wn)
  qed
  have keep: "(v, nm) \<in> set (take 2 (gc_sort (gc_manifest_files f)))"
    unfolding gc_manifest_files_candidates [OF ok] using gc_sort_first [OF x uniq] .
  from wf have "distinct (map fst (names f))" by (simp add: fs_wf_def)
  from gc_keeps_manifest [OF ok keep this] have kept: "\<not> gc_removed crc live f nm" .
  have "max_by_version (manifest_candidates (garbage_collect crc live f)) = Some (v, nm)"
    using x kept uniq by (intro max_by_version_unique) (auto simp: gc_candidates)
  from that [OF mx this kept] show thesis .
qed

lemma gc_recover_same:
  assumes "fs_wf f" "mf_names_ok f" "manifest_candidates f \<noteq> []"
  shows "fst (recover_or_init crc (garbage_collect crc live f)) = fst (recover_or_init crc f)"
proof -
  from gc_newest [OF assms, of crc live] obtain v nm where mx: "max_by_version (manifest_candidates f) = Some (v, nm)"
    "max_by_version (manifest_candidates (garbage_collect crc live f)) = Some (v, nm)" "\<not> gc_removed crc live f nm" .
  have "try_open crc (garbage_collect crc live f) nm = try_open crc f nm"
    using mx(3) by (intro try_open_cong) (simp add: gc_read)
  with mx(1,2) show ?thesis by (simp add: recover_or_init_def split: sum.split)
qed

subsection \<open>What a step leaves alone in the directory\<close>

text \<open>Only files with a name in \<open>A\<close> may have been created, written or renamed.\<close>

definition fs_frame :: "string set \<Rightarrow> fs \<Rightarrow> fs \<Rightarrow> bool" where
  "fs_frame A f f' \<longleftrightarrow>
     next_inode f \<le> next_inode f'
     \<and> (\<forall>nm. nm \<notin> A \<longrightarrow> fs_lookup f' nm = fs_lookup f nm)
     \<and> (\<forall>j < next_inode f. (\<forall>nm \<in> A. fs_lookup f nm \<noteq> Some j) \<longrightarrow> data f' j = data f j)"

lemma fs_frame_refl [simp]: "fs_frame A f f"
  by (simp add: fs_frame_def)

lemma fs_frame_put: "fs_frame {nm} f (fs_put f nm bs)"
  by (simp add: fs_frame_def fs_put_next_inode fs_put_lookup fs_put_data_other)

lemma fs_frame_trans:
  assumes "fs_frame A f f1" "fs_frame B f1 f2" "A \<inter> B = {}"
  shows "fs_frame (A \<union> B) f f2"
proof -
  have "data f2 j = data f j" if j: "j < next_inode f" "\<forall>nm \<in> A \<union> B. fs_lookup f nm \<noteq> Some j" for j
  proof -
    from assms(1) j have "data f1 j = data f j" "j < next_inode f1" by (auto simp: fs_frame_def)
    moreover have "\<forall>nm \<in> B. fs_lookup f1 nm \<noteq> Some j" using assms(1,3) j(2) by (auto simp: fs_frame_def)
    ultimately show ?thesis using assms(2) by (simp add: fs_frame_def)
  qed
  with assms show ?thesis by (auto simp: fs_frame_def)
qed

text \<open>An SSTable whose file has a name outside \<open>A\<close> holds what it held, and opens as it did.\<close>

lemma fs_frame_sst:
  assumes "fs_frame A f f'" "fs_wf f" "fs_lookup f nm = Some (sst_file s)" "nm \<notin> A"
  shows "sst_holds x f' s es = sst_holds x f s es" and "fs_lookup f' nm = Some (sst_file s)"
proof -
  from assms have "data f' (sst_file s) = data f (sst_file s)"
    unfolding fs_frame_def using fs_lookup_less fs_lookup_inj by metis
  then show "sst_holds x f' s es = sst_holds x f s es" by (rule sst_holds_data)
  from assms show "fs_lookup f' nm = Some (sst_file s)" by (simp add: fs_frame_def)
qed

lemma fs_frame_sst_new:
  assumes "fs_frame A f f'" "fs_wf f" "fs_lookup f nm = Some i" "nm \<notin> A"
  shows "sst_new x f' nm = sst_new x f nm"
proof -
  from assms have dt: "data f' i = data f i"
    unfolding fs_frame_def using fs_lookup_less fs_lookup_inj by metis
  have lk: "fs_lookup f' nm = Some i" using assms by (simp add: fs_frame_def)
  show ?thesis by (simp only: sst_new_def lk assms(3) option.case dt)
qed

lemma candidates_lookup:
  "(v, nm) \<in> set (manifest_candidates f) \<longleftrightarrow>
   fs_lookup f nm \<noteq> None \<and> path_extension nm = Some ''mf'' \<and> parse_u32 (path_stem nm) = Some v"
  unfolding candidates_iff by (simp add: fs_lookup_def map_of_eq_None_iff)

lemma fs_frame_candidates:
  assumes "fs_frame A f f'" "\<forall>nm \<in> A. path_extension nm \<noteq> Some ''mf''"
  shows "set (manifest_candidates f') = set (manifest_candidates f)"
  using assms by (force simp: candidates_lookup fs_frame_def)

subsection \<open>The files of a flush\<close>

definition sst_names :: "u32 \<Rightarrow> nat \<Rightarrow> string set" where
  "sst_names sid n = {sst_name (unat sid + i) | i. i < n}"

lemma sst_names_Suc:
  assumes "unat sid + Suc n \<le> 2 ^ 32" "0 < n"
  shows "sst_names sid (Suc n) = insert (sst_name (unat sid)) (sst_names (sid + 1) n)"
    and "sst_name (unat sid) \<notin> sst_names (sid + 1) n" and "unat (sid + 1) = unat sid + 1"
proof -
  from assms show u: "unat (sid + 1) = unat sid + 1" by (simp add: unat_add_lem [THEN iffD1])
  show "sst_names sid (Suc n) = insert (sst_name (unat sid)) (sst_names (sid + 1) n)"
  proof (rule set_eqI)
    fix nm
    have "(\<exists>i. nm = sst_name (unat sid + i) \<and> i < Suc n) \<longleftrightarrow>
        nm = sst_name (unat sid) \<or> (\<exists>i. nm = sst_name (unat sid + Suc i) \<and> i < n)"
      by (metis add.right_neutral less_Suc_eq_0_disj)
    then show "(nm \<in> sst_names sid (Suc n)) = (nm \<in> insert (sst_name (unat sid)) (sst_names (sid + 1) n))"
      by (simp add: sst_names_def u)
  qed
  show "sst_name (unat sid) \<notin> sst_names (sid + 1) n" by (auto simp: sst_names_def u)
qed

text \<open>A run that can be an SSTable.\<close>

definition run_ok :: "entry list \<Rightarrow> bool" where
  "run_ok es \<longleftrightarrow> es \<noteq> [] \<and> run_fits es \<and> run_sorted es"

definition meta_of :: "u32 \<Rightarrow> entry list \<Rightarrow> file_meta \<Rightarrow> bool" where
  "meta_of sid es meta \<longleftrightarrow> file_id meta = sid \<and> min_key meta = fst (hd es) \<and> max_key meta = fst (last es)"

lemma flush_files_ok:
  assumes "fs_wf f" "ext_ok x" "unat sid + length mts \<le> 2 ^ 32" "\<forall>mt \<in> set mts. run_ok (memtable_iter sm mt)"
  shows "\<exists>metas ss f'. flush_files x sm sid mts f = Some (Inr metas, f') \<and> fs_wf f'
    \<and> open_new_ssts x f' metas = Inr ss \<and> fs_frame (sst_names sid (length mts)) f f'
    \<and> length metas = length mts \<and> length ss = length mts
    \<and> (\<forall>i < length mts. meta_of (sid + of_nat i) (memtable_iter sm (mts ! i)) (metas ! i)
         \<and> sst_holds x f' (ss ! i) (memtable_iter sm (mts ! i)) \<and> sst_id (ss ! i) = sid + of_nat i
         \<and> fs_lookup f' (sst_name (unat sid + i)) = Some (sst_file (ss ! i)))"
  using assms
proof (induction mts arbitrary: sid f)
  case Nil
  then show ?case by simp
next
  case (Cons mt mts)
  let ?es = "memtable_iter sm mt" and ?nm = "sst_name (unat sid)"
  from Cons.prems(4) have es: "?es \<noteq> []" "run_fits ?es" by (simp_all add: run_ok_def)
  have "parse_u32 (path_stem ?nm) = Some (unat sid)" 
    using parse_fmt05 [OF unat_u32_less [of sid]] by simp
  from sst_build_opens [OF Cons.prems(1,2) es this] obtain meta f1 s bytes where
    b: "sst_build x ?nm ?es f = Some (Inr meta, f1)" "min_key meta = fst (hd ?es)" "max_key meta = fst (last ?es)"
    and f1: "fs_wf f1" "f1 = fs_put f ?nm bytes" and s: "sst_new x f1 ?nm = Inr s" "sst_holds x f1 s ?es"
    "sst_id s = of_nat (unat sid)" "fs_lookup f1 ?nm = Some (sst_file s)" by blast
  have sid: "sst_id s = sid" using s(3) by simp
  have fr1: "fs_frame {?nm} f f1" by (simp add: f1(2) fs_frame_put)
  show ?case
  proof (cases "mts = []")
    case True
    then show ?thesis
      using b f1(1) s sid fr1 by (intro exI [of _ "[meta\<lparr>file_id := sid\<rparr>]"] exI [of _ "[s]"] exI [of _ f1])
        (simp add: meta_of_def sst_names_def)
  next
    case False
    then have n: "0 < length mts" "unat sid + Suc (length mts) \<le> 2 ^ 32" using Cons.prems(3) by simp_all
    note names = sst_names_Suc [OF n(2,1)]
    have "unat (sid + 1) + length mts \<le> 2 ^ 32" using n names(3) by simp
    from Cons.IH [OF f1(1) Cons.prems(2) this] Cons.prems(4) obtain metas ss f' where
      IH: "flush_files x sm (sid + 1) mts f1 = Some (Inr metas, f')" "fs_wf f'"
      "open_new_ssts x f' metas = Inr ss" "fs_frame (sst_names (sid + 1) (length mts)) f1 f'"
      "length metas = length mts" "length ss = length mts"
      and each: "\<And>i. i < length mts \<Longrightarrow> meta_of (sid + 1 + of_nat i) (memtable_iter sm (mts ! i)) (metas ! i)
         \<and> sst_holds x f' (ss ! i) (memtable_iter sm (mts ! i)) \<and> sst_id (ss ! i) = sid + 1 + of_nat i
         \<and> fs_lookup f' (sst_name (unat (sid + 1) + i)) = Some (sst_file (ss ! i))" by auto
    have frame: "fs_frame (sst_names sid (length (mt # mts))) f f'"
      using fs_frame_trans [OF fr1 IH(4)] names by simp
    note old = fs_frame_sst [OF IH(4) f1(1) s(4) names(2)]
    have open_s: "sst_new x f' ?nm = Inr s"
      using fs_frame_sst_new [OF IH(4) f1(1) s(4) names(2)] s(1) by simp
    show ?thesis
    proof (intro exI conjI)
      show "flush_files x sm sid (mt # mts) f = Some (Inr (meta\<lparr>file_id := sid\<rparr> # metas), f')"
        using b IH by simp
      show "open_new_ssts x f' (meta\<lparr>file_id := sid\<rparr> # metas) = Inr (s # ss)"
        using open_s IH(3) by simp
      show "\<forall>i < length (mt # mts). meta_of (sid + of_nat i) (memtable_iter sm ((mt # mts) ! i)) ((meta\<lparr>file_id := sid\<rparr> # metas) ! i)
         \<and> sst_holds x f' ((s # ss) ! i) (memtable_iter sm ((mt # mts) ! i)) \<and> sst_id ((s # ss) ! i) = sid + of_nat i
         \<and> fs_lookup f' (sst_name (unat sid + i)) = Some (sst_file ((s # ss) ! i))"
        using b(2,3) old s(2) sid each names(3) by (auto simp: less_Suc_eq_0_disj meta_of_def add.assoc)
    qed (use IH frame in simp_all)
  qed
qed

subsection \<open>The commit of a flush\<close>

text \<open>The first level, which is made if there is none, gets more at its end.\<close>

definition add_first :: "'a list \<Rightarrow> 'a list list \<Rightarrow> 'a list list" where
  "add_first new ls = (case ls of [] \<Rightarrow> [new] | l # ls' \<Rightarrow> (l @ new) # ls')"

definition level_files :: "manifest \<Rightarrow> file_meta list list" where
  "level_files m = map files (levels m)"

lemma push_l0_files:
  "level_files (push_l0 meta m) = add_first [meta] (level_files m)"
  "wals (push_l0 meta m) = wals m" "version (push_l0 meta m) = version m"
  "next_sstable_id (push_l0 meta m) = next_sstable_id m"
  by (cases "levels m"; simp add: push_l0_def level_files_def add_first_def Let_def level_default_def)+

lemma add_first_add_first: "add_first ys (add_first xs ls) = add_first (xs @ ys) ls"
  by (simp add: add_first_def split: list.split)

lemma push_all_files:
  "level_files (fold push_l0 metas m) = (if metas = [] then level_files m else add_first metas (level_files m))"
  "wals (fold push_l0 metas m) = wals m" "version (fold push_l0 metas m) = version m"
  "next_sstable_id (fold push_l0 metas m) = next_sstable_id m"
proof -
  show "level_files (fold push_l0 metas m) = (if metas = [] then level_files m else add_first metas (level_files m))"
    by (induction metas arbitrary: m) (auto simp: push_l0_files add_first_add_first)
  show "wals (fold push_l0 metas m) = wals m" "version (fold push_l0 metas m) = version m"
    "next_sstable_id (fold push_l0 metas m) = next_sstable_id m"
    by (induction metas arbitrary: m) (auto simp: push_l0_files)
qed

lemma flush_mutator_ok:
  assumes "take (length ws) (wals m) = ws" "metas \<noteq> []"
  shows "\<exists>m1. flush_mutator metas ws m = Inr m1 \<and> wals m1 = drop (length ws) (wals m)
    \<and> level_files m1 = add_first metas (level_files m) \<and> version m1 = version m
    \<and> next_sstable_id m1 = next_sstable_id m"
  using assms push_all_files [of metas m] by (simp add: flush_mutator_def Let_def level_files_def)

text \<open>Room in the encoding of a manifest for \<open>n\<close> more files.\<close>

definition manifest_room :: "manifest \<Rightarrow> nat \<Rightarrow> bool" where
  "manifest_room m n \<longleftrightarrow>
     manifest_ok m \<and> length (manifest_body m) + 4 + 131098 * n < 2 ^ 32"

lemma length_file_meta_encode: "file_meta_ok meta \<Longrightarrow> length (file_meta_encode meta) \<le> 131098"
  by (simp add: file_meta_encode_def file_meta_ok_def key_ok_def length_key_encode)

lemma length_manifest_body:
  "length (manifest_body m) = 8 + 4 * length (wals m)
     + sum_list (map (\<lambda>fs. 4 + sum_list (map (length \<circ> file_meta_encode) fs)) (level_files m))"
proof -
  have w: "length (vec_encode u32_encode ws) = 4 + 4 * length ws" for ws
    by (induction ws) (simp_all add: vec_encode_def)
  have f: "length (vec_encode file_meta_encode fs) = 4 + sum_list (map (length \<circ> file_meta_encode) fs)" for fs
    by (simp add: vec_encode_def length_concat o_def)
  have l: "length (vec_encode level_encode ls) =
      4 + sum_list (map (\<lambda>fs. 4 + sum_list (map (length \<circ> file_meta_encode) fs)) (map files ls))" for ls
  proof -
    have "length (concat (map level_encode ls)) = sum_list (map (\<lambda>l. length (level_encode l)) ls)"
      by (simp add: length_concat o_def)
    also have "map (\<lambda>l. length (level_encode l)) ls =
        map (\<lambda>fs. 4 + sum_list (map (length \<circ> file_meta_encode) fs)) (map files ls)"
      by (simp add: level_encode_def f)
    finally show ?thesis by (simp add: vec_encode_def)
  qed
  show ?thesis by (simp add: manifest_body_def w l level_files_def)
qed

lemma manifest_ok_files:
  "manifest_ok m \<longleftrightarrow> length (wals m) < 2 ^ 32 \<and> length (level_files m) < 2 ^ 32
     \<and> (\<forall>fs \<in> set (level_files m). length fs < 2 ^ 32 \<and> list_all file_meta_ok fs) \<and> length (manifest_body m) < 2 ^ 32"
  by (auto simp: manifest_ok_def level_files_def level_ok_def list_all_iff)

lemma manifest_body_bounds:
  "length (level_files m) \<le> length (manifest_body m)"
  "fs \<in> set (level_files m) \<Longrightarrow> length fs \<le> length (manifest_body m)"
proof -
  have *: "length fss \<le> sum_list (map (\<lambda>fs. 4 + sum_list (map (length \<circ> file_meta_encode) fs)) fss)"
    for fss :: "file_meta list list"
    by (induction fss) auto
  show "length (level_files m) \<le> length (manifest_body m)"
    using * [of "level_files m"] by (simp add: length_manifest_body)
  have meta: "length (file_meta_encode a) = 28 + length (kbytes (min_key a)) + length (kbytes (max_key a))" for a
    by (simp add: file_meta_encode_def length_key_encode)
  have fs: "length fs \<le> sum_list (map (length \<circ> file_meta_encode) fs)" for fs
    by (induction fs) (auto simp: meta)
  have "length fs \<le> sum_list (map (\<lambda>fs. 4 + sum_list (map (length \<circ> file_meta_encode) fs)) fss)" if "fs \<in> set fss"
    for fss :: "file_meta list list"
    using that fs [of fs] by (induction fss) auto
  then show "fs \<in> set (level_files m) \<Longrightarrow> length fs \<le> length (manifest_body m)"
    by (fastforce simp: length_manifest_body)
qed

lemma manifest_room_flush:
  assumes room: "manifest_room m (length metas)" and metas: "list_all file_meta_ok metas"
    and m1: "wals m1 = drop n (wals m)" "level_files m1 = add_first metas (level_files m)"
  shows "manifest_ok m1"
proof -
  let ?sz = "\<lambda>fs. 4 + sum_list (map (length \<circ> file_meta_encode) fs)"
  have grow: "sum_list (map (length \<circ> file_meta_encode) metas) \<le> 131098 * length metas"
    using metas by (induction metas) (auto dest: length_file_meta_encode)
  have "sum_list (map ?sz (level_files m1)) \<le> sum_list (map ?sz (level_files m)) + 4 + 131098 * length metas"
    using grow by (simp add: m1(2) add_first_def split: list.split)
  moreover have "length (manifest_body m) + 4 + 131098 * length metas < 2 ^ 32"
    using room by (simp add: manifest_room_def)
  moreover have "4 * length (wals m1) \<le> 4 * length (wals m)" by (simp add: m1(1))
  ultimately have len: "length (manifest_body m1) < 2 ^ 32"
    unfolding length_manifest_body by linarith
  have "list_all file_meta_ok fs" if "fs \<in> set (level_files m1)" for fs
    using that room metas unfolding m1(2) manifest_room_def manifest_ok_files
    by (auto simp: add_first_def split: list.splits)
  moreover have "length (wals m1) < 2 ^ 32" using len by (simp add: length_manifest_body)
  ultimately show ?thesis
    using len manifest_body_bounds(1) [of m1] manifest_body_bounds(2) [of _ m1] unfolding manifest_ok_files
    by (meson order.strict_trans1)
qed

subsection \<open>A flush without interference\<close>

text \<open>
  What a flush needs: the directory and the manifest belong together, there is something to
  flush, the memtables fit their SSTables, the WALs are there, and the identifiers it will use
  are not those of open SSTables.
\<close>

definition flush_ready :: "'m skipmap \<Rightarrow> manifest \<Rightarrow> fs \<Rightarrow> 'm db_version \<Rightarrow> bool" where
  "flush_ready sm m f v \<longleftrightarrow>
     (let n = length (frozen_memtables v); sid = next_sstable_id m in
      fs_wf f \<and> mf_names_ok f \<and> versions_upto f (version m) \<and> unat (version m) + 1 < 2 ^ 32
      \<and> 0 < n \<and> n \<le> length (wals m) \<and> unat sid + n \<le> 2 ^ 32 \<and> manifest_room m n
      \<and> (\<forall>mt \<in> set (frozen_memtables v). run_ok (memtable_iter sm mt))
      \<and> (\<forall>s \<in> set (concat (sstables v)). fs_lookup f (sst_name (unat (sst_id s))) = Some (sst_file s)
           \<and> sst_name (unat (sst_id s)) \<notin> sst_names sid n))"

lemma sst_names_extension: "nm \<in> sst_names sid n \<Longrightarrow> path_extension nm = Some ''sst''"
  by (auto simp: sst_names_def)

lemma mf_names_lookup: "mf_names_ok f \<longleftrightarrow> (\<forall>nm. fs_lookup f nm \<noteq> None \<longrightarrow> suffix ''.mf'' nm \<longrightarrow> (\<exists>n < 2 ^ 32. nm = mf_name n))"
  unfolding mf_names_ok_def fs_lookup_def
  by (metis (no_types, opaque_lifting) map_of_eq_None_iff)

lemma fs_frame_mf_names:
  assumes "mf_names_ok f" "fs_frame A f f'" "\<forall>nm \<in> A. \<not> suffix ''.mf'' nm"
  shows "mf_names_ok f'"
  using assms unfolding mf_names_lookup fs_frame_def by metis

lemma update_alone:
  assumes "fs_wf f" "versions_upto f (version m)" "unat (version m) + 1 < 2 ^ 32" "mf_names_ok f"
    and "mutator m f = (Inr m1, f)" "version m1 = version m" "manifest_ok m1"
  defines "m2 \<equiv> m1\<lparr>version := version m + 1\<rparr>"
  shows "\<exists>f4. apply_atomic_update crc mutator alone (m, f) = (Inr m2, m2, f4) \<and> fs_wf f4 \<and> mf_names_ok f4
    \<and> versions_upto f4 (version m2) \<and> recover_or_init crc f4 = (Inr (manifest_reopened m2 (version m2)), f4)
    \<and> manifest_candidates f4 \<noteq> []
    \<and> fs_frame {mf_tmp_name (unat (version m2)), mf_name (unat (version m2))} f f4"
proof -
  let ?v = "version m + 1"
  have v: "unat ?v = unat (version m) + 1" using assms(3) by (simp add: unat_add_lem [THEN iffD1])
  with assms(2) have up: "versions_upto f ?v" by (auto simp: versions_upto_def)
  have ok: "manifest_ok m2" using assms(7) by (simp add: manifest_ok_def manifest_body_def m2_def)
  obtain f4 where f4: "fs_rename (write_to_path crc m2 (mf_tmp_name (unat ?v)) f) (mf_tmp_name (unat ?v)) (mf_name (unat ?v)) = Inr f4"
    and c: "fs_wf f4" "versions_upto f4 ?v" "recover_or_init crc f4 = (Inr (manifest_reopened m2 ?v), f4)"
    and fr: "next_inode f \<le> next_inode f4"
      "\<forall>nm. nm \<noteq> mf_tmp_name (unat ?v) \<and> nm \<noteq> mf_name (unat ?v) \<longrightarrow> fs_lookup f4 nm = fs_lookup f nm"
      "\<forall>j < next_inode f. fs_lookup f (mf_tmp_name (unat ?v)) \<noteq> Some j \<longrightarrow> data f4 j = data f j"
    using commit_alone [OF assms(1) up ok, of crc] by blast
  have frame: "fs_frame {mf_tmp_name (unat ?v), mf_name (unat ?v)} f f4"
    using fr by (simp add: fs_frame_def)
  have tmp: "\<not> suffix ''.mf'' (mf_tmp_name n)" for n by (simp add: mf_tmp_name_def suffix_def)
  have mf: "mf_names_ok f4"
    unfolding mf_names_lookup
  proof (intro allI impI)
    fix nm
    assume nm: "fs_lookup f4 nm \<noteq> None" "suffix ''.mf'' nm"
    show "\<exists>n < 2 ^ 32. nm = mf_name n"
    proof (cases "nm = mf_name (unat ?v)")
      case True
      then show ?thesis using unat_u32_less [of ?v] by blast
    next
      case False
      with nm tmp fr(2) have "fs_lookup f nm \<noteq> None" by metis
      with assms(4) nm(2) show ?thesis unfolding mf_names_lookup by blast
    qed
  qed
  have "fs_lookup f4 (mf_name (unat ?v)) \<noteq> None"
    using fs_rename_lookup [OF f4, of "mf_name (unat ?v)"] fs_put_lookup_same [of f "mf_tmp_name (unat ?v)" "manifest_encode crc m2"]
    by (auto simp: write_to_path_put)
  then have "(unat ?v, mf_name (unat ?v)) \<in> set (manifest_candidates f4)"
    using parse_fmt05 [OF unat_u32_less [of ?v]] by (simp add: candidates_lookup)
  then have "manifest_candidates f4 \<noteq> []" by auto
  moreover have "apply_atomic_update crc mutator alone (m, f) = (Inr m2, m2, f4)"
    using f4 by (simp add: apply_atomic_update_def alone_def assms(5,6) Let_def numeral_3_eq_3 m2_def)
  ultimately show ?thesis using c mf frame by (auto simp: m2_def)
qed

text \<open>The runs of the flushed memtables, after those already in level 0.\<close>

definition flushed_runs :: "'m skipmap \<Rightarrow> 'm db_version \<Rightarrow> entry list list list \<Rightarrow> entry list list list" where
  "flushed_runs sm v lvls = add_first (map (memtable_iter sm) (frozen_memtables v)) lvls"

lemma flush_install_eq:
  "length new = length (frozen_memtables v) \<Longrightarrow> flush_install (length new) objs v =
     v\<lparr>frozen_memtables := [], sstables := add_first objs (sstables v)\<rparr>"
  by (simp add: flush_install_def add_first_def Let_def split: list.split)

lemma list_all2_add_first:
  "list_all2 (list_all2 P) ls ls' \<Longrightarrow> list_all2 P new new' \<Longrightarrow> list_all2 (list_all2 P) (add_first new ls) (add_first new' ls')"
  by (cases ls; cases ls') (auto simp: add_first_def list_all2_appendI)

lemma version_holds_flushed:
  assumes "version_holds x sm f v lvls" "\<forall>mt \<in> set (frozen_memtables v). run_ok (memtable_iter sm mt)"
    and old: "\<forall>s \<in> set (concat (sstables v)). \<forall>es. sst_holds x f' s es = sst_holds x f s es"
    and new: "list_all2 (sst_holds x f') objs (map (memtable_iter sm) (frozen_memtables v))"
  shows "version_holds x sm f' (v\<lparr>frozen_memtables := [], sstables := add_first objs (sstables v)\<rparr>) (flushed_runs sm v lvls)"
proof -
  from assms(1) have "list_all2 (list_all2 (sst_holds x f)) (sstables v) lvls" by (simp add: version_holds_def)
  then have "list_all2 (list_all2 (sst_holds x f')) (sstables v) lvls"
    using old by (auto intro!: list.rel_mono_strong [of "list_all2 (sst_holds x f)"] list.rel_mono_strong [of "sst_holds x f"])
  from list_all2_add_first [OF this new] have
    "list_all2 (list_all2 (sst_holds x f')) (add_first objs (sstables v)) (flushed_runs sm v lvls)"
    by (simp add: flushed_runs_def)
  moreover have "\<forall>l \<in> set (flushed_runs sm v lvls). \<forall>r \<in> set l. run_sorted r"
    using assms(1,2) by (auto simp: flushed_runs_def add_first_def version_holds_def run_ok_def split: list.splits)
  ultimately show ?thesis using assms(1) by (simp add: version_holds_def)
qed

lemma flush_memtables_ok:
  assumes ready: "flush_ready sm m f v" and ext: "ext_ok x" and holds: "version_holds x sm f v lvls"
  defines "n \<equiv> length (frozen_memtables v)"
  shows "\<exists>m' f' v' objs metas. flush_memtables x sm alone (m, f, v) = Some (Inr (), m', f', v')
    \<and> v' = v\<lparr>frozen_memtables := [], sstables := add_first objs (sstables v)\<rparr>
    \<and> version_holds x sm f' v' (flushed_runs sm v lvls)
    \<and> wals m' = drop n (wals m) \<and> version m' = version m + 1
    \<and> level_files m' = add_first metas (level_files m) \<and> map file_id metas = map (\<lambda>i. next_sstable_id m + of_nat i) [0..<n]
    \<and> map sst_id objs = map file_id metas
    \<and> (\<forall>s \<in> set objs. fs_lookup f' (sst_name (unat (sst_id s))) = Some (sst_file s))
    \<and> next_sstable_id m' = next_sstable_id m + 1
    \<and> fst (recover_or_init (x_crc x) f') = Inr (manifest_reopened m' (version m'))"
proof -
  let ?sid = "next_sstable_id m" and ?mts = "frozen_memtables v" and ?ws = "take n (wals m)"
  let ?m1 = "m\<lparr>next_sstable_id := ?sid + 1\<rparr>"
  from ready have r: "fs_wf f" "mf_names_ok f" "versions_upto f (version m)" "unat (version m) + 1 < 2 ^ 32"
    "0 < n" "n \<le> length (wals m)" "unat ?sid + length ?mts \<le> 2 ^ 32" "manifest_room m n"
    "\<forall>mt \<in> set ?mts. run_ok (memtable_iter sm mt)"
    and ssts: "\<forall>s \<in> set (concat (sstables v)). fs_lookup f (sst_name (unat (sst_id s))) = Some (sst_file s)
           \<and> sst_name (unat (sst_id s)) \<notin> sst_names ?sid n"
    unfolding flush_ready_def n_def Let_def by auto
  have prep: "flush_prepare m v = (Inr (Some \<lparr>fj_memtables = ?mts, fj_sst_id = ?sid, fj_wals = ?ws\<rparr>), ?m1)"
    using r(5,6) by (auto simp: flush_prepare_def Let_def n_def)
  from flush_files_ok [OF r(1) ext r(7,9)] obtain metas objs f1 where
    f1: "flush_files x sm ?sid ?mts f = Some (Inr metas, f1)" "fs_wf f1" "open_new_ssts x f1 metas = Inr objs"
    and fr1: "fs_frame (sst_names ?sid n) f f1" and len: "length metas = n" "length objs = n"
    and each: "\<forall>i < n. meta_of (?sid + of_nat i) (memtable_iter sm (?mts ! i)) (metas ! i)
         \<and> sst_holds x f1 (objs ! i) (memtable_iter sm (?mts ! i)) \<and> sst_id (objs ! i) = ?sid + of_nat i
         \<and> fs_lookup f1 (sst_name (unat ?sid + i)) = Some (sst_file (objs ! i))"
    unfolding n_def by blast
  have "metas \<noteq> []" using len r(5) by auto
  moreover have "take (length ?ws) (wals ?m1) = ?ws" using r(6) by simp
  ultimately obtain m2 where m2: "flush_mutator metas ?ws ?m1 = Inr m2" "wals m2 = drop n (wals m)"
    "level_files m2 = add_first metas (level_files m)" "version m2 = version m" "next_sstable_id m2 = ?sid + 1"
    using flush_mutator_ok [of ?ws ?m1 metas] r(6) by (auto simp: level_files_def)
  have metas_ok: "list_all file_meta_ok metas"
  proof -
    have "file_meta_ok (metas ! i)" if "i < n" for i
    proof -
      let ?es = "memtable_iter sm (?mts ! i)"
      have "run_ok ?es" using r(9) that by (simp add: n_def)
      then have "list_all entry_ok ?es" "hd ?es \<in> set ?es" "last ?es \<in> set ?es"
        by (simp_all add: run_ok_def run_fits_def)
      then have "key_ok (fst (hd ?es))" "key_ok (fst (last ?es))" by (auto simp: list_all_iff)
      with each that show ?thesis by (simp add: file_meta_ok_def meta_of_def)
    qed
    then show ?thesis by (simp add: list_all_length len)
  qed
  have ok2: "manifest_ok m2"
    using manifest_room_flush [of m metas m2 n] r(8) metas_ok m2(2,3) len by simp
  have up1: "versions_upto f1 (version ?m1)"
    using r(3) fs_frame_candidates [OF fr1] by (simp add: versions_upto_def sst_names_extension)
  have mf1: "mf_names_ok f1"
    by (rule fs_frame_mf_names [OF r(2) fr1]) (auto simp: sst_names_def)
  let ?mut = "\<lambda>m f. (flush_mutator metas ?ws m, f)" and ?m3 = "m2\<lparr>version := version m + 1\<rparr>"
  obtain f4 where f4: "apply_atomic_update (x_crc x) ?mut alone (?m1, f1) = (Inr ?m3, ?m3, f4)" "fs_wf f4" "mf_names_ok f4"
    "recover_or_init (x_crc x) f4 = (Inr (manifest_reopened ?m3 (version ?m3)), f4)" "manifest_candidates f4 \<noteq> []"
    and fr4: "fs_frame {mf_tmp_name (unat (version ?m3)), mf_name (unat (version ?m3))} f1 f4"
    using update_alone [of f1 ?m1 ?mut m2 "x_crc x"] f1(2) up1 r(4) mf1 m2(1,4) ok2 by auto
  let ?f' = "garbage_collect (x_crc x) (gc_snapshot ?m3) f4"
  have old: "\<forall>s \<in> set (concat (sstables v)). \<forall>es. sst_holds x ?f' s es = sst_holds x f s es"
  proof (intro ballI allI)
    fix s es
    assume s: "s \<in> set (concat (sstables v))"
    from ssts s have nm: "fs_lookup f (sst_name (unat (sst_id s))) = Some (sst_file s)"
      "sst_name (unat (sst_id s)) \<notin> sst_names ?sid n" by blast+
    note s1 = fs_frame_sst [OF fr1 r(1) nm]
    have "sst_holds x f4 s es = sst_holds x f1 s es"
      by (rule fs_frame_sst(1) [OF fr4 f1(2) s1(2)]) simp
    moreover have "sst_holds x f1 s es = sst_holds x f s es" by (rule s1(1))
    ultimately show "sst_holds x ?f' s es = sst_holds x f s es" by (simp add: sst_holds_def)
  qed
  have new: "list_all2 (sst_holds x ?f') objs (map (memtable_iter sm) ?mts)"
  proof -
    have "sst_holds x ?f' (objs ! i) (memtable_iter sm (?mts ! i))" if "i < n" for i
    proof -
      have "sst_holds x f4 (objs ! i) (memtable_iter sm (?mts ! i)) = sst_holds x f1 (objs ! i) (memtable_iter sm (?mts ! i))"
      proof (rule fs_frame_sst(1) [OF fr4 f1(2)])
        show "fs_lookup f1 (sst_name (unat ?sid + i)) = Some (sst_file (objs ! i))" using each that by blast
      qed simp
      with each that show ?thesis by (simp add: sst_holds_def)
    qed
    then show ?thesis by (simp add: list_all2_conv_all_nth len n_def [symmetric])
  qed
  let ?v' = "flush_install (length metas) objs v"
  have v': "?v' = v\<lparr>frozen_memtables := [], sstables := add_first objs (sstables v)\<rparr>"
    using len by (intro flush_install_eq) (simp add: n_def)
  have "flush_memtables x sm alone (m, f, v) = Some (Inr (), ?m3, ?f', ?v')"
    by (simp add: flush_memtables_def prep f1(1,3) f4(1))
  moreover have "version_holds x sm ?f' ?v' (flushed_runs sm v lvls)"
    unfolding v' using version_holds_flushed [OF holds r(9) old new] .
  moreover have "fs_lookup ?f' (sst_name (unat (sst_id (objs ! i)))) = Some (sst_file (objs ! i))" if i: "i < n" for i
  proof -
    have "unat (of_nat i :: u32) = i" using i r(7) by (intro unat_of_nat_32) (simp add: n_def)
    then have "unat (?sid + of_nat i) = unat ?sid + i" using i r(7) by (simp add: unat_add_lem [THEN iffD1] n_def)
    then have lk: "fs_lookup f1 (sst_name (unat (sst_id (objs ! i)))) = Some (sst_file (objs ! i))" using each i by simp
    have "fs_lookup f4 (sst_name (unat (sst_id (objs ! i)))) = Some (sst_file (objs ! i))"
      by (rule fs_frame_sst(2) [OF fr4 f1(2) lk]) simp
    moreover have "sst_id (objs ! i) \<in> snd (gc_snapshot ?m3)"
    proof -
      have "metas ! i \<in> set (concat (level_files ?m3))"
        using i len m2(3) by (auto simp: level_files_def add_first_def split: list.splits)
      moreover have "sst_id (objs ! i) = file_id (metas ! i)" using each i by (simp add: meta_of_def)
      ultimately show ?thesis by (auto simp: gc_snapshot_def level_files_def)
    qed
    then have "\<not> gc_removed (x_crc x) (gc_snapshot ?m3) f4 (sst_name (unat (sst_id (objs ! i))))"
      using gc_references_live [of "gc_snapshot ?m3" "x_crc x" f4] by (intro gc_keeps_sst) blast
    ultimately show ?thesis by (simp add: gc_lookup)
  qed
  then have "\<forall>s \<in> set objs. fs_lookup ?f' (sst_name (unat (sst_id s))) = Some (sst_file s)"
    using len(2) by (metis in_set_conv_nth)
  moreover have "map file_id metas = map (\<lambda>i. ?sid + of_nat i) [0..<n]" "map sst_id objs = map file_id metas"
    using each len by (auto intro!: nth_equalityI simp: meta_of_def)
  moreover have "fst (recover_or_init (x_crc x) ?f') = Inr (manifest_reopened ?m3 (version ?m3))"
    using gc_recover_same [OF f4(2,3,5)] f4(4) by simp
  moreover have "level_files ?m3 = add_first metas (level_files m)" using m2(3) by (simp add: level_files_def)
  ultimately show ?thesis using v' m2(2,5) by (intro exI conjI) (assumption | simp)+
qed

subsection \<open>Properties\<close>

lemma pristine_mf_names: "mf_names_ok pristine_fs"
  by (auto simp: mf_names_ok_def pristine_fs_names intro: exI [of _ 0])

text \<open>The files a manifest refers to are as they were.\<close>

definition refs_kept :: "fs \<Rightarrow> fs \<Rightarrow> manifest \<Rightarrow> bool" where
  "refs_kept f f' m \<longleftrightarrow>
     (\<forall>w \<in> set (wals m). fs_read f' (wal_name (unat w)) = fs_read f (wal_name (unat w)))
     \<and> (\<forall>i \<in> set (map file_id (concat (map files (levels m)))).
          fs_read f' (sst_name (unat i)) = fs_read f (sst_name (unat i)))"

lemma refs_keptI:
  assumes "set (wals m) \<subseteq> ws" "set (map file_id (concat (map files (levels m)))) \<subseteq> ss"
    and "\<And>w. w \<in> ws \<Longrightarrow> \<not> gc_removed crc live f (wal_name (unat w))"
    and "\<And>i. i \<in> ss \<Longrightarrow> \<not> gc_removed crc live f (sst_name (unat i))"
  shows "refs_kept f (garbage_collect crc live f) m"
  unfolding refs_kept_def gc_read using assms by (meson subsetD)

lemma gc_removes:
  assumes "\<not> suffix ''.mf'' nm"
    and "gc_obsolete (gc_references crc f (take 2 (gc_sort (gc_manifest_files f))) live) nm"
  shows "fs_read (garbage_collect crc live f) nm = None"
proof (cases "fs_lookup f nm")
  case None
  then have "fs_read f nm = None" by (simp add: fs_read_def)
  then show ?thesis by (simp only: gc_read if_cancel)
next
  case (Some i)
  then have "nm \<in> set (gc_other_files f)"
    using assms(1) by (auto simp: gc_other_files_def fs_lookup_def dest: map_of_SomeD intro: rev_image_eqI)
  with assms(2) show ?thesis by (simp add: gc_read gc_removed_def)
qed

text \<open>C9: A collection keeps every WAL and SSTable the manifest in memory refers to, the two newest manifests
  on disk and every file these refer to, with their contents; it removes every other SSTable and WAL,
  and recovery finds the same manifest after it as before.\<close>

theorem gc_keeps_what_is_referenced:
  fixes m :: manifest and crc
  assumes "fs_wf f" "mf_names_ok f" "manifest_candidates f \<noteq> []"
  defines "f' \<equiv> garbage_collect crc (gc_snapshot m) f" and "keep \<equiv> take 2 (gc_sort (gc_manifest_files f))"
  shows "refs_kept f f' m
    \<and> (\<forall>(v, nm) \<in> set keep. fs_read f' nm = fs_read f nm
         \<and> (\<forall>bs m' rest. fs_read f nm = Some bs \<and> manifest_decode crc bs = Inr (m', rest) \<longrightarrow> refs_kept f f' m'))
    \<and> (\<forall>n < 2 ^ 32. (of_nat n \<notin> fst (gc_references crc f keep (gc_snapshot m)) \<longrightarrow> fs_read f' (wal_name n) = None)
         \<and> (of_nat n \<notin> snd (gc_references crc f keep (gc_snapshot m)) \<longrightarrow> fs_read f' (sst_name n) = None))
    \<and> fst (recover_or_init crc f') = fst (recover_or_init crc f)"
proof -
  let ?refs = "gc_references crc f keep (gc_snapshot m)"
  have kept: "refs_kept f f' m'" if "set (wals m') \<subseteq> fst ?refs" "set (map file_id (concat (map files (levels m')))) \<subseteq> snd ?refs" for m'
    unfolding f'_def using that gc_keeps_wal gc_keeps_sst unfolding keep_def by (intro refs_keptI)
  have live: "refs_kept f f' m"
    using gc_references_live [of "gc_snapshot m" crc f keep] by (intro kept) (simp_all add: gc_snapshot_def)
  have "distinct (map fst (names f))" using assms(1) by (simp add: fs_wf_def)
  then have mf: "fs_read f' nm = fs_read f nm" if "(v, nm) \<in> set keep" for v nm
    using gc_keeps_manifest [OF assms(2) that [unfolded keep_def]] by (simp add: f'_def gc_read)
  have gone: "fs_read f' nm = None" if "\<not> suffix ''.mf'' nm" "gc_obsolete ?refs nm" for nm
    unfolding f'_def keep_def using gc_removes [OF that(1), where f = f and crc = crc and live = "gc_snapshot m"] that(2) unfolding keep_def by blast
  have "fs_read f' (wal_name n) = None" if "n < 2 ^ 32" "of_nat n \<notin> fst ?refs" for n
    using that by (intro gone) (simp_all add: gc_obsolete_def parse_fmt05)
  moreover have "fs_read f' (sst_name n) = None" if "n < 2 ^ 32" "of_nat n \<notin> snd ?refs" for n
    using that by (intro gone) (simp_all add: gc_obsolete_def parse_fmt05)
  moreover have "refs_kept f f' m'"
    if "(v, nm) \<in> set keep" "fs_read f nm = Some bs" "manifest_decode crc bs = Inr (m', rest)" for v nm bs m' rest
    using gc_references_kept [OF that, of "gc_snapshot m"] by (intro kept) blast+
  moreover have "fst (recover_or_init crc f') = fst (recover_or_init crc f)"
    unfolding f'_def by (rule gc_recover_same [OF assms(1-3)])
  ultimately show ?thesis using live mf by blast
qed

theorem gc_keeps_what_is_referenced_witness:
  "fs_read (garbage_collect (\<lambda>_. 0) (gc_snapshot (manifest_new 0)) (fs_put pristine_fs (sst_name 3) [1, 2])) (wal_name 0)
     = fs_read (fs_put pristine_fs (sst_name 3) [1, 2]) (wal_name 0)
   \<and> fst (recover_or_init (\<lambda>_. 0) (garbage_collect (\<lambda>_. 0) (gc_snapshot (manifest_new 0)) (fs_put pristine_fs (sst_name 3) [1, 2])))
     = fst (recover_or_init (\<lambda>_. 0) (fs_put pristine_fs (sst_name 3) [1, 2]))"
proof -
  let ?f = "fs_put pristine_fs (sst_name 3) [1, 2]"
  note frame = fs_frame_put [of "sst_name 3" pristine_fs "[1, 2]"]
  have "fs_wf ?f" by (rule fs_put_wf [OF pristine_fs_wf])
  moreover have "mf_names_ok ?f" by (rule fs_frame_mf_names [OF pristine_mf_names frame]) simp
  moreover have "set (manifest_candidates ?f) = set (manifest_candidates pristine_fs)"
    by (rule fs_frame_candidates [OF frame]) simp
  then have "set (manifest_candidates ?f) \<noteq> {}" unfolding pristine_fs_candidates by simp
  then have "manifest_candidates ?f \<noteq> []" by blast
  ultimately have "refs_kept ?f (garbage_collect (\<lambda>_. 0) (gc_snapshot (manifest_new 0)) ?f) (manifest_new 0)"
    and "fst (recover_or_init (\<lambda>_. 0) (garbage_collect (\<lambda>_. 0) (gc_snapshot (manifest_new 0)) ?f))
      = fst (recover_or_init (\<lambda>_. 0) ?f)"
    using gc_keeps_what_is_referenced [of ?f "\<lambda>_. 0" "manifest_new 0"] by blast+
  then show ?thesis by (simp add: refs_kept_def manifest_new_def)
qed

text \<open>C4: A flush that nobody interferes with succeeds: every frozen memtable becomes an SSTable of level 0
  that holds exactly its entries, what was on disk before is still held, the manifest on disk lists
  the new files, has lost the flushed WALs, and is what a restart recovers.\<close>

theorem flush_writes_memtables:
  assumes "flush_ready sm m f v" "ext_ok x" "version_holds x sm f v lvls"
  shows "\<exists>m' f' v' objs metas. flush_memtables x sm alone (m, f, v) = Some (Inr (), m', f', v')
    \<and> v' = v\<lparr>frozen_memtables := [], sstables := add_first objs (sstables v)\<rparr>
    \<and> version_holds x sm f' v' (flushed_runs sm v lvls)
    \<and> wals m' = drop (length (frozen_memtables v)) (wals m) \<and> version m' = version m + 1
    \<and> level_files m' = add_first metas (level_files m) \<and> map sst_id objs = map file_id metas
    \<and> fst (recover_or_init (x_crc x) f') = Inr (manifest_reopened m' (version m'))"
  using flush_memtables_ok [OF assms] by blast

definition sample_manifest2 :: manifest where
  "sample_manifest2 = (manifest_new 0)\<lparr>wals := [0, 1, 2]\<rparr>"

definition sample_version2 :: "entry list db_version" where
  "sample_version2 = sample_version [] [[(Key 1 [1], Bytes [5])], [(Key 2 [1], Bytes [6])]] []"

lemma sample_flush_ready: "flush_ready alist_skipmap sample_manifest2 pristine_fs sample_version2"
proof -
  have "manifest_room sample_manifest2 (Suc (Suc 0))"
    by (simp add: manifest_room_def manifest_ok_def sample_manifest2_def manifest_new_def manifest_body_def
        vec_encode_def)
  moreover have "versions_upto pristine_fs 0" by (simp add: versions_upto_def pristine_fs_candidates)
  moreover have "run_ok [(Key 1 [1], Bytes [5])]" "run_ok [(Key 2 [1], Bytes [6])]"
    by (simp_all add: run_ok_def run_fits_def key_ok_def length_entry_encode val_payload_def)
  ultimately show ?thesis
    using pristine_fs_wf pristine_mf_names
    by (simp add: flush_ready_def sample_version2_def sample_version_def sample_mem_iter Let_def
        sample_manifest2_def manifest_new_def)
qed

lemma sample_version2_holds: "version_holds sample_ext alist_skipmap pristine_fs sample_version2 []"
  by (simp add: version_holds_def sample_version2_def sample_version_def)

theorem flush_writes_memtables_witness:
  "\<exists>m' f' v'. flush_memtables sample_ext alist_skipmap alone (sample_manifest2, pristine_fs, sample_version2)
      = Some (Inr (), m', f', v') \<and> wals m' = [2]
    \<and> version_holds sample_ext alist_skipmap f' v' [[[(Key 1 [1], Bytes [5])], [(Key 2 [1], Bytes [6])]]]"
proof -
  have "flushed_runs alist_skipmap sample_version2 [] = [[[(Key 1 [1], Bytes [5])], [(Key 2 [1], Bytes [6])]]]"
    by (simp add: flushed_runs_def add_first_def sample_version2_def sample_version_def sample_mem_iter)
  moreover have "drop (length (frozen_memtables sample_version2)) (wals sample_manifest2) = [2]"
    by (simp add: sample_version2_def sample_version_def sample_manifest2_def)
  ultimately show ?thesis
    using flush_writes_memtables [OF sample_flush_ready sample_ext_ok sample_version2_holds] by metis
qed

end
