(* ===== verification/Database.thy ===== *)
theory Database
  imports Compact
begin

text \<open>
  Opening a database, recovering its state and rotating its memtable (\<open>src/lib.rs\<close>), and the
  two effects of a write on the shared state, on the log and on the memtable. The state of an
  open database is the current version, the shared manifest, the control state of the write
  pipeline and the directory. Starting threads is not modelled. A panic while reading a file
  cannot happen here, so results are errors or values.
\<close>

subsection \<open>State\<close>

text \<open>
  \<open>WriteSyncs\<close>. The queue holds references to requests, here their numbers in the store of
  requests; the counters of type \<open>usize\<close> are natural numbers.
\<close>

record write_syncs =
  write_queue :: "nat list"
  wal_busy :: bool
  ticket_to_mem :: nat
  next_ticket :: nat
  ws_next_lsn :: u64

definition write_syncs_new :: "u64 \<Rightarrow> write_syncs" where
  "write_syncs_new start_lsn =
     \<lparr>write_queue = [], wal_busy = False, ticket_to_mem = 0, next_ticket = 0, ws_next_lsn = start_lsn\<rparr>"

definition MAX_MEMTABLE_SIZE :: nat where "MAX_MEMTABLE_SIZE = 4 * 1024 * 1024"

record 'm db =
  db_current :: "'m db_version"
  db_sync :: "write_syncs"
  db_manifest :: manifest
  max_memtable_size :: nat

record 'm recovered =
  rs_mutable :: "'m memtable"
  rs_wal :: wal
  rs_frozen :: "'m memtable list"
  rs_sstables :: "sstable list list"
  rs_next_lsn :: u64

subsection \<open>Recovery\<close>

definition replay_immutable_wal :: "(bytes \<Rightarrow> u32) \<Rightarrow> 'm skipmap \<Rightarrow> fs \<Rightarrow> string \<Rightarrow> 'm memtable result" where
  "replay_immutable_wal crc sm f path =
     and_then (wal_replay crc (\<lambda>(k, v). memtable_recover sm k v) f path (memtable_new sm))
       (\<lambda>m. Inr (memtable_freeze m))"

definition replay_mutable_wal :: "(bytes \<Rightarrow> u32) \<Rightarrow> 'm skipmap \<Rightarrow> fs \<Rightarrow> string \<Rightarrow> ('m memtable \<times> u64) result" where
  "replay_mutable_wal crc sm f path =
     wal_replay crc (\<lambda>(k, v) (m, last_lsn). (memtable_recover sm k v m, lsn k)) f path (memtable_new sm, 0)"

text \<open>\<open>collect::<Result<Vec<_>, _>>\<close>: all values, or the first error.\<close>

fun collect_results :: "'a result list \<Rightarrow> 'a list result" where
  "collect_results [] = Inr []"
| "collect_results (r # rs) = and_then r (\<lambda>a. and_then (collect_results rs) (\<lambda>as. Inr (a # as)))"

definition open_level :: "ext \<Rightarrow> fs \<Rightarrow> level \<Rightarrow> sstable list result" where
  "open_level x f l = collect_results (map (\<lambda>meta. sst_new x f (sst_name (unat (file_id meta)))) (files l))"

definition recover_state :: "ext \<Rightarrow> 'm skipmap \<Rightarrow> fs \<Rightarrow> manifest \<Rightarrow> 'm recovered result \<times> fs" where
  "recover_state x sm f m =
     (if wals m = [] then (Inl (DataCorrupted ''Manifest contains no WALs''), f)
      else
        let idx = length (wals m) - 1;
            mutable_wal_id = wals m ! idx;
            frozen_results = collect_results
              (map (\<lambda>w. replay_immutable_wal (x_crc x) sm f (wal_name (unat w))) (take idx (wals m)));
            mutable_res = replay_mutable_wal (x_crc x) sm f (wal_name (unat mutable_wal_id))
        in case and_then frozen_results (\<lambda>fr. and_then mutable_res (\<lambda>mu. Inr (fr, mu))) of
             Inl e \<Rightarrow> (Inl e, f)
           | Inr (frozen, mutable, max_lsn) \<Rightarrow>
          (case wal_open f mutable_wal_id of
             (Inl e, f1) \<Rightarrow> (Inl e, f1)
           | (Inr w, f1) \<Rightarrow>
               (and_then (collect_results (map (open_level x f1) (levels m))) (\<lambda>ssts.
                  Inr \<lparr>rs_mutable = mutable, rs_wal = w, rs_frozen = frozen, rs_sstables = ssts,
                       rs_next_lsn = max_lsn + 1\<rparr>), f1)))"

text \<open>\<open>Db::new\<close>; the first argument says whether the directory exists.\<close>

definition db_new :: "ext \<Rightarrow> 'm skipmap \<Rightarrow> bool \<Rightarrow> fs \<Rightarrow> 'm db result \<times> fs" where
  "db_new x sm dir_exists f =
     (if \<not> dir_exists then (Inl (DirectoryNotFound ''db_dir''), f)
      else case recover_or_init (x_crc x) f of
        (Inl e, f1) \<Rightarrow> (Inl e, f1)
      | (Inr m, f1) \<Rightarrow>
     (case recover_state x sm f1 m of
        (Inl e, f2) \<Rightarrow> (Inl e, f2)
      | (Inr st, f2) \<Rightarrow>
          (Inr \<lparr>db_current = \<lparr>v_next_lsn = rs_next_lsn st, mutable_memtable = rs_mutable st,
                  frozen_memtables = rs_frozen st, mutable_wal = rs_wal st, sstables = rs_sstables st\<rparr>,
                db_sync = write_syncs_new (rs_next_lsn st), db_manifest = m,
                max_memtable_size = MAX_MEMTABLE_SIZE\<rparr>, f2)))"

subsection \<open>The effects of a write\<close>

definition write_wal :: "'m db_version \<Rightarrow> bytes \<Rightarrow> fs \<Rightarrow> fs" where
  "write_wal v bs f = wal_write f (mutable_wal v) bs"

definition write_memtable :: "'m skipmap \<Rightarrow> entry list \<Rightarrow> 'm db_version \<Rightarrow> 'm db_version" where
  "write_memtable sm reqs v = v\<lparr>mutable_memtable := memtable_put_batch sm reqs (mutable_memtable v)\<rparr>"

definition active_memtable_size :: "'m db_version \<Rightarrow> nat" where
  "active_memtable_size v = memtable_size (mutable_memtable v)"

subsection \<open>Rotation\<close>

definition rotate_mutator :: "manifest \<Rightarrow> fs \<Rightarrow> manifest result \<times> fs" where
  "rotate_mutator m f =
     (let new_wal_id = next_wal_id m in
      case wal_open f new_wal_id of
        (Inl e, f1) \<Rightarrow> (Inl e, f1)
      | (Inr _, f1) \<Rightarrow> (Inr (m\<lparr>wals := wals m @ [new_wal_id]\<rparr>), f1))"

text \<open>The part before the version is swapped: commit a manifest with a new WAL and open it.\<close>

definition rotate_manifest ::
  "(bytes \<Rightarrow> u32) \<Rightarrow> (nat \<Rightarrow> manifest \<times> fs \<Rightarrow> manifest \<times> fs) \<Rightarrow> manifest \<times> fs \<Rightarrow> wal result \<times> manifest \<times> fs" where
  "rotate_manifest crc others st =
     (case apply_atomic_update crc rotate_mutator others st of
        (Inl e, m1, f1) \<Rightarrow> (Inl e, m1, f1)
      | (Inr new_manifest, m1, f1) \<Rightarrow>
          (if wals new_manifest = [] then (Inl (DataCorrupted ''No WALs after rotation''), m1, f1)
           else case wal_open f1 (last (wals new_manifest)) of (r, f2) \<Rightarrow> (r, m1, f2)))"

definition rotate_install :: "'m skipmap \<Rightarrow> wal \<Rightarrow> 'm db_version \<Rightarrow> 'm db_version" where
  "rotate_install sm new_wal v =
     v\<lparr>mutable_memtable := memtable_new sm, mutable_wal := new_wal,
       frozen_memtables := frozen_memtables v @ [memtable_freeze (mutable_memtable v)]\<rparr>"

definition rotate_memtable ::
  "(bytes \<Rightarrow> u32) \<Rightarrow> 'm skipmap \<Rightarrow> (nat \<Rightarrow> manifest \<times> fs \<Rightarrow> manifest \<times> fs) \<Rightarrow>
   manifest \<times> fs \<times> 'm db_version \<Rightarrow> unit result \<times> manifest \<times> fs \<times> 'm db_version" where
  "rotate_memtable crc sm others st =
     (case st of (m, f, v) \<Rightarrow>
     (case rotate_manifest crc others (m, f) of
        (Inl e, m1, f1) \<Rightarrow> (Inl e, m1, f1, v)
      | (Inr w, m1, f1) \<Rightarrow> (Inr (), m1, f1, rotate_install sm w v)))"

subsection \<open>What the disk says about a version\<close>

text \<open>
  A log mirrors a memtable if the memtable is what replaying the log's complete entries \<open>es\<close>
  gives; \<open>torn\<close> is what follows them, and reads as the end of the log.
\<close>

definition wal_mirrors ::
  "ext \<Rightarrow> 'm skipmap \<Rightarrow> fs \<Rightarrow> u32 \<Rightarrow> inode \<Rightarrow> entry list \<Rightarrow> bytes \<Rightarrow> 'm memtable \<Rightarrow> bool" where
  "wal_mirrors x sm f w i es torn mt \<longleftrightarrow>
     fs_lookup f (wal_name (unat w)) = Some i \<and> data f i = wal_bytes (x_crc x) es torn
     \<and> list_all entry_ok es \<and> wal_next (x_crc x) torn = None
     \<and> mt = memtable_put_batch sm es (memtable_new sm)"

text \<open>
  The directory alone determines the version: the manifest on disk is the shared one, its WALs
  mirror the memtables one to one with the mutable one last, and its files are the open
  SSTables. \<open>es\<close> are the entries of the mutable WAL.
\<close>

definition durable ::
  "ext \<Rightarrow> 'm skipmap \<Rightarrow> manifest \<Rightarrow> fs \<Rightarrow> 'm db_version \<Rightarrow> entry list \<Rightarrow> bytes \<Rightarrow> bool" where
  "durable x sm m f v es torn \<longleftrightarrow>
     fs_wf f \<and> mf_names_ok f \<and> versions_upto f (version m) \<and> manifest_candidates f \<noteq> []
     \<and> fst (recover_or_init (x_crc x) f) = Inr (manifest_reopened m (version m))
     \<and> (\<exists>ws. wals m = ws @ [wal_id (mutable_wal v)]
          \<and> list_all2 (\<lambda>w mt. \<exists>i es torn. wal_mirrors x sm f w i es torn mt) ws (frozen_memtables v))
     \<and> wal_mirrors x sm f (wal_id (mutable_wal v)) (wal_file (mutable_wal v)) es torn (mutable_memtable v)
     \<and> list_all2 (list_all2 (\<lambda>meta s. sst_new x f (sst_name (unat (file_id meta))) = Inr s))
         (level_files m) (sstables v)"

text \<open>The next LSN after a recovery, from the entries of the mutable WAL.\<close>

definition recovered_lsn :: "entry list \<Rightarrow> u64" where
  "recovered_lsn es = (case rev es of [] \<Rightarrow> 0 | e # _ \<Rightarrow> lsn (fst e)) + 1"

lemma replay_immutable_mirrors:
  "wal_mirrors x sm f w i es torn mt \<Longrightarrow> replay_immutable_wal (x_crc x) sm f (wal_name (unat w)) = Inr mt"
  by (simp add: wal_mirrors_def replay_immutable_wal_def wal_replay_bytes wal_for_each_end memtable_put_batch_def)

lemma fold_last_lsn:
  "fold (\<lambda>(k, v) (m, l). (memtable_recover sm k v m, lsn k)) es (m0, l0) =
     (memtable_put_batch sm es m0, case rev es of [] \<Rightarrow> l0 | e # _ \<Rightarrow> lsn (fst e))"
  by (induction es rule: rev_induct) (auto simp: memtable_put_batch_def)

lemma replay_mutable_mirrors:
  "wal_mirrors x sm f w i es torn mt \<Longrightarrow>
   replay_mutable_wal (x_crc x) sm f (wal_name (unat w)) =
     Inr (mt, case rev es of [] \<Rightarrow> 0 | e # _ \<Rightarrow> lsn (fst e))"
  by (simp add: wal_mirrors_def replay_mutable_wal_def wal_replay_bytes wal_for_each_end fold_last_lsn)

lemma wal_open_mirrors:
  "wal_mirrors x sm f w i es torn mt \<Longrightarrow> wal_open f w = (Inr \<lparr>wal_id = w, wal_file = i\<rparr>, f)"
  unfolding wal_mirrors_def by (blast intro: wal_open_existing)

lemma collect_results_all2: "list_all2 (\<lambda>a b. g a = Inr b) as bs \<Longrightarrow> collect_results (map g as) = Inr bs"
  by (induction rule: list_all2_induct) auto

lemma open_levels:
  assumes "list_all2 (list_all2 (\<lambda>meta s. sst_new x f (sst_name (unat (file_id meta))) = Inr s)) (level_files m) ssts"
  shows "collect_results (map (open_level x f) (levels m)) = Inr ssts"
proof (rule collect_results_all2)
  show "list_all2 (\<lambda>l ss. open_level x f l = Inr ss) (levels m) ssts"
    using assms unfolding level_files_def list_all2_map1
    by (rule list.rel_mono_strong) (simp add: open_level_def collect_results_all2)
qed

lemma recover_state_durable:
  assumes "durable x sm m f v es torn"
  shows "recover_state x sm f (manifest_reopened m (version m)) =
    (Inr \<lparr>rs_mutable = mutable_memtable v, rs_wal = mutable_wal v, rs_frozen = frozen_memtables v,
          rs_sstables = sstables v, rs_next_lsn = recovered_lsn es\<rparr>, f)"
proof -
  let ?w = "wal_id (mutable_wal v)"
  from assms obtain ws where ws: "wals m = ws @ [?w]"
    and frozen: "list_all2 (\<lambda>w mt. \<exists>i es torn. wal_mirrors x sm f w i es torn mt) ws (frozen_memtables v)"
    and mut: "wal_mirrors x sm f ?w (wal_file (mutable_wal v)) es torn (mutable_memtable v)"
    and ssts: "list_all2 (list_all2 (\<lambda>meta s. sst_new x f (sst_name (unat (file_id meta))) = Inr s))
      (level_files m) (sstables v)"
    unfolding durable_def by blast
  have "list_all2 (\<lambda>w mt. replay_immutable_wal (x_crc x) sm f (wal_name (unat w)) = Inr mt) ws (frozen_memtables v)"
    using frozen by (rule list_all2_mono) (auto dest: replay_immutable_mirrors)
  then have fr: "collect_results (map (\<lambda>w. replay_immutable_wal (x_crc x) sm f (wal_name (unat w))) ws) = Inr (frozen_memtables v)"
    by (rule collect_results_all2)
  have wals': "wals (manifest_reopened m (version m)) = ws @ [?w]"
    and levels': "levels (manifest_reopened m (version m)) = levels m"
    by (simp_all add: manifest_reopened_def ws)
  show ?thesis
    by (simp add: recover_state_def wals' levels' fr replay_mutable_mirrors [OF mut] wal_open_mirrors [OF mut]
        open_levels [OF ssts] recovered_lsn_def)
qed

lemma recover_unchanged: "manifest_candidates f \<noteq> [] \<Longrightarrow> snd (recover_or_init crc f) = f"
  by (cases "max_by_version (manifest_candidates f)") (auto simp: recover_or_init_def split: sum.split)

lemma db_new_durable:
  assumes "durable x sm m f v es torn"
  shows "db_new x sm True f =
    (Inr \<lparr>db_current = v\<lparr>v_next_lsn := recovered_lsn es\<rparr>, db_sync = write_syncs_new (recovered_lsn es),
          db_manifest = manifest_reopened m (version m), max_memtable_size = MAX_MEMTABLE_SIZE\<rparr>, f)"
proof -
  from assms have "manifest_candidates f \<noteq> []"
    "fst (recover_or_init (x_crc x) f) = Inr (manifest_reopened m (version m))"
    unfolding durable_def by blast+
  then have "recover_or_init (x_crc x) f = (Inr (manifest_reopened m (version m)), f)"
    using recover_unchanged by (metis prod.collapse)
  then show ?thesis by (simp add: db_new_def recover_state_durable [OF assms])
qed

lemma db_get_next_lsn [simp]: "db_get x sm f (v\<lparr>v_next_lsn := n\<rparr>) key = db_get x sm f v key"
  by (simp add: db_get_def split: option.split)

subsection \<open>Frames\<close>

text \<open>A step that leaves a file alone leaves alone what was read from it.\<close>

lemma fs_frame_data:
  assumes "fs_frame A f f'" "fs_wf f" "fs_lookup f nm = Some i" "nm \<notin> A"
  shows "fs_lookup f' nm = Some i \<and> data f' i = data f i"
  using assms unfolding fs_frame_def using fs_lookup_less fs_lookup_inj by metis

lemma wal_mirrors_frame:
  assumes "fs_frame A f f'" "fs_wf f" "wal_name (unat w) \<notin> A" "wal_mirrors x sm f w i es torn mt"
  shows "wal_mirrors x sm f' w i es torn mt"
  using fs_frame_data [OF assms(1,2) _ assms(3)] assms(4) by (simp add: wal_mirrors_def)

lemma sst_new_frame:
  assumes "fs_frame A f f'" "fs_wf f" "nm \<notin> A" "sst_new x f nm = Inr s"
  shows "sst_new x f' nm = Inr s"
proof -
  from assms(4) obtain i where "fs_lookup f nm = Some i"
    by (auto simp: sst_new_def split: option.splits)
  from fs_frame_sst_new [OF assms(1,2) this assms(3)] assms(4) show ?thesis by simp
qed

lemma ssts_frame:
  assumes "fs_frame A f f'" "fs_wf f" "\<forall>n. sst_name n \<notin> A"
    and "list_all2 (list_all2 (\<lambda>meta s. sst_new x f (sst_name (unat (file_id meta))) = Inr s)) metas ssts"
  shows "list_all2 (list_all2 (\<lambda>meta s. sst_new x f' (sst_name (unat (file_id meta))) = Inr s)) metas ssts"
  using assms(4) by (rule list.rel_mono_strong) (auto elim!: list.rel_mono_strong intro: sst_new_frame [OF assms(1,2)] simp: assms(3))

text \<open>An append to a file that is not a manifest.\<close>

lemma fs_append_frame:
  assumes "fs_lookup f nm = Some i"
  shows "fs_frame {nm} f (fs_append f i bs)" and "names (fs_append f i bs) = names f"
    and "fs_wf (fs_append f i bs) = fs_wf f"
  using assms by (simp_all add: fs_frame_def fs_append_def) (simp add: fs_set_def)+

lemma recover_append:
  assumes "fs_wf f" "fs_lookup f (wal_name n) = Some i" "manifest_candidates f \<noteq> []"
  shows "manifest_candidates (fs_append f i bs) = manifest_candidates f"
    and "fst (recover_or_init crc (fs_append f i bs)) = fst (recover_or_init crc f)"
proof -
  show c: "manifest_candidates (fs_append f i bs) = manifest_candidates f"
    by (simp add: manifest_candidates_def fs_append_frame(2) [OF assms(2)])
  from assms(3) obtain v nm where mx: "max_by_version (manifest_candidates f) = Some (v, nm)"
    by (cases "max_by_version (manifest_candidates f)") auto
  then have nm: "fs_lookup f nm \<noteq> None" "path_extension nm = Some ''mf''"
    using max_by_version_Some(1) [OF mx] by (simp_all add: candidates_lookup)
  then have "nm \<noteq> wal_name n" by auto
  then have "fs_read (fs_append f i bs) nm = fs_read f nm"
    using fs_frame_data [OF fs_append_frame(1) [OF assms(2)] assms(1), of nm _ bs] nm(1)
    by (auto simp: fs_read_def)
  then have "try_open crc (fs_append f i bs) nm = try_open crc f nm" by (rule try_open_cong)
  then show "fst (recover_or_init crc (fs_append f i bs)) = fst (recover_or_init crc f)"
    by (simp add: recover_or_init_def c mx split: sum.split)
qed

subsection \<open>A group of writes\<close>

text \<open>A write that was interrupted left some complete entries and a torn one.\<close>

lemma wal_log_prefix:
  assumes "prefix p (wal_log crc es)" "list_all entry_ok es"
  shows "\<exists>k torn. k \<le> length es \<and> p = wal_log crc (take k es) @ torn \<and> wal_next crc torn = None
    \<and> (p = wal_log crc es \<longrightarrow> k = length es \<and> torn = [])"
  using assms
proof (induction es arbitrary: p)
  case Nil
  then show ?case by simp
next
  case (Cons e es)
  obtain k v where e: "e = (k, v)" by (cases e)
  let ?e = "wal_encode_entry crc k v"
  from Cons.prems(2) have ok: "key_ok k" "val_ok v" "list_all entry_ok es" by (simp_all add: e)
  from Cons.prems(1) have "prefix p (?e @ wal_log crc es)" by (simp add: e)
  then consider "strict_prefix p ?e" | q where "p = ?e @ q" "prefix q (wal_log crc es)"
    by (cases "p = ?e") (auto simp: prefix_append strict_prefix_def)
  then show ?case
  proof cases
    case 1
    have "p \<noteq> wal_log crc (e # es)" using strict_prefix_length [OF 1] by (auto simp: e)
    then show ?thesis using wal_next_torn [OF ok(1,2) 1] by (intro exI [of _ 0] exI [of _ p]) simp
  next
    case (2 q)
    from Cons.IH [OF 2(2) ok(3)] obtain n torn where
      n: "n \<le> length es" "q = wal_log crc (take n es) @ torn" "wal_next crc torn = None"
      "q = wal_log crc es \<longrightarrow> n = length es \<and> torn = []" by blast
    have "p = wal_log crc (take (Suc n) (e # es)) @ torn" by (simp add: 2(1) n(2) e)
    moreover have "p = wal_log crc (e # es) \<longrightarrow> q = wal_log crc es" by (simp add: 2(1) e)
    then have "p = wal_log crc (e # es) \<longrightarrow> Suc n = length (e # es) \<and> torn = []" using n(4) by auto
    moreover have "Suc n \<le> length (e # es)" by (simp add: n(1))
    ultimately show ?thesis using n(3) by blast
  qed
qed

lemma durable_file: "durable x sm m f v es torn \<Longrightarrow> fs_lookup f (wal_name (unat (wal_id (mutable_wal v)))) = Some (wal_file (mutable_wal v))"
  unfolding durable_def wal_mirrors_def by blast

lemma durable_wal_exists:
  assumes "durable x sm m f v es torn" "u \<in> set (wals m)"
  shows "fs_lookup f (wal_name (unat u)) \<noteq> None"
proof -
  from assms obtain ws where "wals m = ws @ [wal_id (mutable_wal v)]"
    and frozen: "list_all2 (\<lambda>w mt. \<exists>i es torn. wal_mirrors x sm f w i es torn mt) ws (frozen_memtables v)"
    unfolding durable_def by blast
  with assms(2) consider "u = wal_id (mutable_wal v)" | "u \<in> set ws" by auto
  then show ?thesis
  proof cases
    case 1
    with durable_file [OF assms(1)] show ?thesis by simp
  next
    case 2
    then obtain i where "i < length ws" "u = ws ! i" by (auto simp: in_set_conv_nth)
    with list_all2_nthD [OF frozen] show ?thesis by (auto simp: wal_mirrors_def)
  qed
qed

lemma durable_append:
  assumes d: "durable x sm m f v es []" and new: "wal_id (mutable_wal v) \<notin> set (butlast (wals m))"
    and reqs: "list_all entry_ok reqs" and torn: "wal_next (x_crc x) torn = None"
  shows "durable x sm m (write_wal v (wal_log (x_crc x) reqs @ torn) f) (write_memtable sm reqs v) (es @ reqs) torn"
proof -
  let ?w = "wal_id (mutable_wal v)" and ?i = "wal_file (mutable_wal v)" and ?bs = "wal_log (x_crc x) reqs @ torn"
  let ?f = "fs_append f ?i ?bs"
  have f: "write_wal v ?bs f = ?f" by (simp add: write_wal_def wal_write_def)
  note lk = durable_file [OF d]
  note fr = fs_append_frame [OF lk, of ?bs]
  from d obtain ws where wf: "fs_wf f" "mf_names_ok f" "versions_upto f (version m)" "manifest_candidates f \<noteq> []"
      "fst (recover_or_init (x_crc x) f) = Inr (manifest_reopened m (version m))"
    and ws: "wals m = ws @ [?w]"
    and frozen: "list_all2 (\<lambda>w mt. \<exists>i es torn. wal_mirrors x sm f w i es torn mt) ws (frozen_memtables v)"
    and mut: "wal_mirrors x sm f ?w ?i es [] (mutable_memtable v)"
    and ssts: "list_all2 (list_all2 (\<lambda>meta s. sst_new x f (sst_name (unat (file_id meta))) = Inr s)) (level_files m) (sstables v)"
    unfolding durable_def by blast
  note rec = recover_append [OF wf(1) lk wf(4), where bs = ?bs]
  have "list_all2 (\<lambda>w mt. \<exists>i es torn. wal_mirrors x sm ?f w i es torn mt) ws (frozen_memtables v)"
  proof (rule list.rel_mono_strong [OF frozen])
    fix w mt
    assume w: "w \<in> set ws" and "\<exists>i es torn. wal_mirrors x sm f w i es torn mt"
    then obtain i es torn where m: "wal_mirrors x sm f w i es torn mt" by blast
    have "w \<noteq> ?w" using w new ws by auto
    then have "wal_name (unat w) \<notin> {wal_name (unat ?w)}" by (simp add: word_unat_eq_iff)
    from wal_mirrors_frame [OF fr(1) wf(1) this m] show "\<exists>i es torn. wal_mirrors x sm ?f w i es torn mt" by blast
  qed
  moreover have "wal_mirrors x sm ?f ?w ?i (es @ reqs) torn (mutable_memtable (write_memtable sm reqs v))"
    using mut wal_write_data [of f "mutable_wal v" ?bs] reqs torn
    by (simp add: wal_mirrors_def wal_write_def wal_bytes_def write_memtable_def memtable_put_batch_def)
  moreover have "list_all2 (list_all2 (\<lambda>meta s. sst_new x ?f (sst_name (unat (file_id meta))) = Inr s)) (level_files m) (sstables v)"
    by (rule ssts_frame [OF fr(1) wf(1) _ ssts]) simp
  moreover have "mf_names_ok ?f" using wf(2) by (simp add: mf_names_ok_def fr(2))
  ultimately show ?thesis
    using wf fr(3) rec ws by (simp add: durable_def f write_memtable_def versions_upto_def)
qed

subsection \<open>Rotation keeps the disk in step\<close>

lemma wal_open_put:
  assumes "fs_lookup f (wal_name (unat wid)) = None"
  shows "wal_open f wid = (Inr \<lparr>wal_id = wid, wal_file = next_inode f\<rparr>, fs_put f (wal_name (unat wid)) (wal_bytes crc [] []))"
  using assms
  by (simp add: wal_open_def fs_open_append_def fs_alloc_def fs_append_def fs_put_def fs_create_def
      fs_set_def wal_bytes_def Let_def)

lemma update_alone_from:
  "mutator m f = (Inr m1, f0) \<Longrightarrow>
   apply_atomic_update crc mutator alone (m, f) = apply_atomic_update crc (\<lambda>_ f. (Inr m1, f)) alone (m, f0)"
  by (simp add: apply_atomic_update_def alone_def Let_def numeral_3_eq_3)

lemma rotate_general:
  assumes d: "durable x sm m f v es torn"
    and opn: "wal_open f (next_wal_id m) = (Inr w, f0)" "fs_wf f0" "fs_frame A f f0"
    and A: "\<forall>u \<in> set (wals m). wal_name (unat u) \<notin> A" "\<forall>n. sst_name n \<notin> A"
      "\<forall>nm \<in> A. path_extension nm \<noteq> Some ''mf'' \<and> \<not> suffix ''.mf'' nm"
    and new: "wal_mirrors x sm f0 (next_wal_id m) (wal_file w) es0 torn0 mt0" "wal_id w = next_wal_id m"
    and bounds: "unat (version m) + 1 < 2 ^ 32" "manifest_ok (m\<lparr>wals := wals m @ [next_wal_id m]\<rparr>)"
  defines "m' \<equiv> m\<lparr>wals := wals m @ [next_wal_id m], version := version m + 1\<rparr>"
  shows "\<exists>f'. rotate_memtable (x_crc x) sm alone (m, f, v) = (Inr (), m', f', rotate_install sm w v)
    \<and> durable x sm m' f' ((rotate_install sm w v)\<lparr>mutable_memtable := mt0\<rparr>) es0 torn0
    \<and> fs_frame {mf_tmp_name (unat (version m')), mf_name (unat (version m'))} f0 f'"
proof -
  let ?m1 = "m\<lparr>wals := wals m @ [next_wal_id m]\<rparr>" and ?wid = "next_wal_id m"
  from d obtain ws where wf: "fs_wf f" "mf_names_ok f" "versions_upto f (version m)" "manifest_candidates f \<noteq> []"
    and ws: "wals m = ws @ [wal_id (mutable_wal v)]"
    and frozen: "list_all2 (\<lambda>w mt. \<exists>i es torn. wal_mirrors x sm f w i es torn mt) ws (frozen_memtables v)"
    and mut: "wal_mirrors x sm f (wal_id (mutable_wal v)) (wal_file (mutable_wal v)) es torn (mutable_memtable v)"
    and ssts: "list_all2 (list_all2 (\<lambda>meta s. sst_new x f (sst_name (unat (file_id meta))) = Inr s)) (level_files m) (sstables v)"
    unfolding durable_def by blast
  have mf0: "mf_names_ok f0" using fs_frame_mf_names [OF wf(2) opn(3)] A(3) by blast
  have "set (manifest_candidates f0) = set (manifest_candidates f)" using fs_frame_candidates [OF opn(3)] A(3) by blast
  with wf(3) have up0: "versions_upto f0 (version m)" by (simp add: versions_upto_def)
  obtain f4 where f4: "apply_atomic_update (x_crc x) (\<lambda>_ f. (Inr ?m1, f)) alone (m, f0) = (Inr m', m', f4)"
      "fs_wf f4" "mf_names_ok f4" "versions_upto f4 (version m')"
      "recover_or_init (x_crc x) f4 = (Inr (manifest_reopened m' (version m')), f4)" "manifest_candidates f4 \<noteq> []"
    and fr4: "fs_frame {mf_tmp_name (unat (version m')), mf_name (unat (version m'))} f0 f4"
    using update_alone [OF opn(2) up0 bounds(1) mf0, of "\<lambda>_ f. (Inr ?m1, f)" ?m1 "x_crc x"] bounds(2)
    unfolding m'_def by auto
  have mirrors: "wal_mirrors x sm f4 u i es torn mt" if "wal_mirrors x sm f0 u i es torn mt" for u i es torn mt
    by (rule wal_mirrors_frame [OF fr4 opn(2) _ that]) simp
  have old: "wal_mirrors x sm f4 u i es torn mt" if "u \<in> set (wals m)" "wal_mirrors x sm f u i es torn mt" for u i es torn mt
    using mirrors [OF wal_mirrors_frame [OF opn(3) wf(1) _ that(2)]] A(1) that(1) by blast
  have mutator: "rotate_mutator m f = (Inr ?m1, f0)" by (simp add: rotate_mutator_def opn(1))
  have "wal_open f4 ?wid = (Inr w, f4)"
    using wal_open_mirrors [OF mirrors [OF new(1)]] new(2) by simp
  then have "rotate_memtable (x_crc x) sm alone (m, f, v) = (Inr (), m', f4, rotate_install sm w v)"
    by (simp add: rotate_memtable_def rotate_manifest_def update_alone_from [where mutator = rotate_mutator, OF mutator] f4(1))
      (simp add: m'_def)
  moreover have "list_all2 (\<lambda>w mt. \<exists>i es torn. wal_mirrors x sm f4 w i es torn mt) (wals m) (frozen_memtables v @ [mutable_memtable v])"
  proof -
    have "list_all2 (\<lambda>w mt. \<exists>i es torn. wal_mirrors x sm f4 w i es torn mt) ws (frozen_memtables v)"
      using frozen by (rule list.rel_mono_strong) (use old ws in force)
    moreover have "wal_mirrors x sm f4 (wal_id (mutable_wal v)) (wal_file (mutable_wal v)) es torn (mutable_memtable v)"
      using mut by (intro old) (simp_all add: ws)
    ultimately show ?thesis unfolding ws by (intro list_all2_appendI) auto
  qed
  moreover have "list_all2 (list_all2 (\<lambda>meta s. sst_new x f4 (sst_name (unat (file_id meta))) = Inr s)) (level_files m) (sstables v)"
    using ssts_frame [OF fr4 opn(2) _ ssts_frame [OF opn(3) wf(1) A(2) ssts]] by simp
  ultimately show ?thesis
    using f4(2-6) mirrors [OF new(1)] new(2) fr4
    by (intro exI [of _ f4]) (simp add: durable_def rotate_install_def level_files_def m'_def)
qed

subsection \<open>A new database\<close>

lemma names_fs_put: "fs_lookup f nm = None \<Longrightarrow> names (fs_put f nm bs) = names f @ [(nm, next_inode f)]"
  by (simp add: fs_put_def fs_create_def fs_alloc_def fs_set_def)

lemma recover_state_cong:
  assumes "wals m' = wals m" "levels m' = levels m"
  shows "recover_state x sm f m' = recover_state x sm f m"
  unfolding recover_state_def assms by (rule refl)

definition fresh_version :: "'m skipmap \<Rightarrow> inode \<Rightarrow> 'm db_version" where
  "fresh_version sm i =
     \<lparr>v_next_lsn = 1, mutable_memtable = memtable_new sm, frozen_memtables = [],
      mutable_wal = \<lparr>wal_id = 0, wal_file = i\<rparr>, sstables = []\<rparr>"

lemma manifest_ok_new: "manifest_ok (manifest_new w)"
  by (simp add: manifest_ok_def manifest_new_def manifest_body_def vec_encode_def)

lemma db_new_fresh:
  assumes wf: "fs_wf f" "mf_names_ok f" and none: "manifest_candidates f = []" "fs_lookup f (wal_name 0) = None"
  shows "\<exists>f'. durable x sm (manifest_new 0) f' (fresh_version sm (next_inode f)) [] []
    \<and> db_new x sm True f = (Inr \<lparr>db_current = fresh_version sm (next_inode f), db_sync = write_syncs_new 1,
          db_manifest = manifest_new 0, max_memtable_size = MAX_MEMTABLE_SIZE\<rparr>, f')
    \<and> (\<forall>nm. nm \<noteq> wal_name 0 \<and> nm \<noteq> mf_name 0 \<longrightarrow> fs_lookup f' nm = fs_lookup f nm)"
proof -
  let ?m = "manifest_new 0" and ?v = "fresh_version sm (next_inode f)" and ?w = "wal_name 0" and ?mf = "mf_name 0"
  let ?f1 = "fs_put f ?w (wal_bytes (x_crc x) [] [])"
  let ?f2 = "fs_put ?f1 ?mf (manifest_encode (x_crc x) ?m)"
  have opn: "wal_open f 0 = (Inr \<lparr>wal_id = 0, wal_file = next_inode f\<rparr>, ?f1)"
    using wal_open_put [of f 0 "x_crc x"] none(2) by simp
  have rec: "recover_or_init (x_crc x) f = (Inr ?m, ?f2)"
    by (simp add: recover_or_init_def none(1) prepare_pristine_start_def opn write_to_disk_def write_to_path_put Let_def)
  have "(0, ?mf) \<notin> set (manifest_candidates f)" by (simp add: none(1))
  then have "fs_lookup f ?mf = None" unfolding candidates_lookup by (simp add: parse_fmt05)
  then have absent: "fs_lookup ?f1 ?mf = None" by (simp add: fs_put_lookup)
  have c1: "manifest_candidates ?f1 = []"
    using candidates_append [OF names_fs_put [OF none(2)]] none(1) by simp
  have cand: "manifest_candidates ?f2 = [] @ [(unat (0 :: u32), mf_name (unat (0 :: u32)))]"
    using candidates_append [OF names_fs_put [OF absent]] c1 by (simp add: parse_fmt05)
  have wf2: "fs_wf ?f2" by (intro fs_put_wf wf)
  have mf2: "mf_names_ok ?f2"
    using wf(2) by (auto simp: mf_names_ok_def names_fs_put [OF none(2)] names_fs_put [OF absent] intro: exI [of _ 0])
  have "fs_read ?f2 ?mf = Some (manifest_encode (x_crc x) ?m)" by (simp add: fs_put_read fs_put_wf wf)
  then have again: "recover_or_init (x_crc x) ?f2 = (Inr (manifest_reopened ?m 0), ?f2)"
    using recover_newest [OF cand _ manifest_ok_new] by simp
  have "fs_lookup ?f1 ?w = Some (next_inode f)" "data ?f1 (next_inode f) = wal_bytes (x_crc x) [] []"
    using none(2) by (simp_all add: fs_put_lookup fs_create_def fs_alloc_def) (simp add: fs_put_def fs_create_def fs_alloc_def)
  then have m1: "wal_mirrors x sm ?f1 0 (next_inode f) [] [] (memtable_new sm)"
    by (simp add: wal_mirrors_def memtable_put_batch_def)
  have m2: "wal_mirrors x sm ?f2 0 (next_inode f) [] [] (memtable_new sm)"
    by (rule wal_mirrors_frame [OF fs_frame_put _ _ m1]) (simp_all add: fs_put_wf wf)
  have dur: "durable x sm ?m ?f2 ?v [] []"
    using wf2 mf2 again cand m2
    by (simp add: durable_def fresh_version_def manifest_new_def level_files_def versions_upto_def)
  have "recover_state x sm ?f2 ?m = recover_state x sm ?f2 (manifest_reopened ?m (version ?m))"
    by (rule recover_state_cong) (simp_all add: manifest_reopened_def)
  then have "recover_state x sm ?f2 ?m = (Inr \<lparr>rs_mutable = memtable_new sm, rs_wal = mutable_wal ?v, rs_frozen = [],
      rs_sstables = [], rs_next_lsn = 1\<rparr>, ?f2)"
    using recover_state_durable [OF dur] by (simp add: fresh_version_def recovered_lsn_def)
  then have "db_new x sm True f = (Inr \<lparr>db_current = ?v, db_sync = write_syncs_new 1,
          db_manifest = ?m, max_memtable_size = MAX_MEMTABLE_SIZE\<rparr>, ?f2)"
    by (simp add: db_new_def rec fresh_version_def)
  moreover have "\<forall>nm. nm \<noteq> ?w \<and> nm \<noteq> ?mf \<longrightarrow> fs_lookup ?f2 nm = fs_lookup f nm" by (simp add: fs_put_lookup)
  ultimately show ?thesis using dur by blast
qed

lemma rotate_fresh:
  assumes d: "durable x sm m f v es torn" and new: "fs_lookup f (wal_name (unat (next_wal_id m))) = None"
    and bounds: "unat (version m) + 1 < 2 ^ 32" "manifest_ok (m\<lparr>wals := wals m @ [next_wal_id m]\<rparr>)"
  shows "\<exists>m' f' w. rotate_memtable (x_crc x) sm alone (m, f, v) = (Inr (), m', f', rotate_install sm w v)
    \<and> m' = m\<lparr>wals := wals m @ [next_wal_id m], version := version m + 1\<rparr>
    \<and> durable x sm m' f' (rotate_install sm w v) [] []
    \<and> fs_frame {wal_name (unat (next_wal_id m)), mf_tmp_name (unat (version m')), mf_name (unat (version m'))} f f'"
proof -
  let ?wid = "next_wal_id m" and ?nm = "wal_name (unat (next_wal_id m))"
  let ?w = "\<lparr>wal_id = ?wid, wal_file = next_inode f\<rparr>" and ?f0 = "fs_put f ?nm (wal_bytes (x_crc x) [] [])"
  have wf: "fs_wf f" using d by (simp add: durable_def)
  have A: "\<forall>u \<in> set (wals m). wal_name (unat u) \<notin> {?nm}"
    using durable_wal_exists [OF d] new by (metis singletonD)
  have lk: "fs_lookup ?f0 ?nm = Some (next_inode f)" "data ?f0 (next_inode f) = wal_bytes (x_crc x) [] []"
    using new by (simp_all add: fs_put_lookup fs_create_def fs_alloc_def) (simp add: fs_put_def fs_create_def fs_alloc_def)
  then have m0: "wal_mirrors x sm ?f0 ?wid (wal_file ?w) [] [] (memtable_new sm)"
    by (simp add: wal_mirrors_def memtable_put_batch_def)
  have "\<forall>nm \<in> {?nm}. path_extension nm \<noteq> Some ''mf'' \<and> \<not> suffix ''.mf'' nm" by simp
  moreover have "(rotate_install sm ?w v)\<lparr>mutable_memtable := memtable_new sm\<rparr> = rotate_install sm ?w v"
    by (simp add: rotate_install_def)
  ultimately obtain f' where
    r: "rotate_memtable (x_crc x) sm alone (m, f, v) = (Inr (), m\<lparr>wals := wals m @ [?wid], version := version m + 1\<rparr>, f', rotate_install sm ?w v)"
      "durable x sm (m\<lparr>wals := wals m @ [?wid], version := version m + 1\<rparr>) f' (rotate_install sm ?w v) [] []"
    and fr: "fs_frame {mf_tmp_name (unat (version m + 1)), mf_name (unat (version m + 1))} ?f0 f'"
    using rotate_general [OF d wal_open_put [OF new] fs_put_wf [OF wf] fs_frame_put A _ _ m0 _ bounds] by auto
  from fs_frame_trans [OF fs_frame_put fr]
  have "fs_frame {?nm, mf_tmp_name (unat (version m + 1)), mf_name (unat (version m + 1))} f f'" by (simp add: insert_commute)
  with r show ?thesis by auto
qed

text \<open>A rotation whose WAL number is that of the WAL in use goes on with that WAL.\<close>

lemma rotate_again:
  assumes "durable x sm m f v es []" "wal_id (mutable_wal v) = next_wal_id m"
    and "unat (version m) + 1 < 2 ^ 32" "manifest_ok (m\<lparr>wals := wals m @ [next_wal_id m]\<rparr>)"
  shows "\<exists>m' f' v' db. rotate_memtable (x_crc x) sm alone (m, f, v) = (Inr (), m', f', v')
    \<and> wals m' = wals m @ [last (wals m)] \<and> mutable_wal v' = mutable_wal v \<and> mutable_memtable v' = memtable_new sm
    \<and> db_new x sm True f' = (Inr db, f') \<and> mutable_memtable (db_current db) = mutable_memtable v
    \<and> frozen_memtables v' = frozen_memtables v @ [memtable_freeze (mutable_memtable v)]
    \<and> frozen_memtables (db_current db) = frozen_memtables v'"
proof -
  from assms(1) have wf: "fs_wf f" and last: "last (wals m) = next_wal_id m"
    and mut: "wal_mirrors x sm f (next_wal_id m) (wal_file (mutable_wal v)) es [] (mutable_memtable v)"
    unfolding durable_def assms(2) by (auto simp del: fs_wf_def)
  have w: "\<lparr>wal_id = next_wal_id m, wal_file = wal_file (mutable_wal v)\<rparr> = mutable_wal v"
    using assms(2) by (cases "mutable_wal v") simp
  have "\<exists>f'. rotate_memtable (x_crc x) sm alone (m, f, v) =
      (Inr (), m\<lparr>wals := wals m @ [next_wal_id m], version := version m + 1\<rparr>, f', rotate_install sm (mutable_wal v) v)
    \<and> durable x sm (m\<lparr>wals := wals m @ [next_wal_id m], version := version m + 1\<rparr>) f'
        ((rotate_install sm (mutable_wal v) v)\<lparr>mutable_memtable := mutable_memtable v\<rparr>) es []"
    using rotate_general [OF assms(1) wal_open_mirrors [OF mut, unfolded w] wf fs_frame_refl [of "{}"] _ _ _ mut assms(2,3,4)] by auto
  then obtain f' where
    r: "rotate_memtable (x_crc x) sm alone (m, f, v) =
      (Inr (), m\<lparr>wals := wals m @ [next_wal_id m], version := version m + 1\<rparr>, f', rotate_install sm (mutable_wal v) v)"
    and d: "durable x sm (m\<lparr>wals := wals m @ [next_wal_id m], version := version m + 1\<rparr>) f'
        ((rotate_install sm (mutable_wal v) v)\<lparr>mutable_memtable := mutable_memtable v\<rparr>) es []" by blast
  show ?thesis
    by (rule exI, rule exI [of _ f'], rule exI, rule exI, intro conjI, rule r)
      (simp_all add: last db_new_durable [OF d], simp_all add: rotate_install_def)
qed

subsection \<open>Properties\<close>

text \<open>Opening an empty directory gives an empty database with LSN 1 whose directory determines its state.\<close>

theorem open_creates_database:
  assumes "fs_wf f" "mf_names_ok f" "manifest_candidates f = []" "fs_lookup f (wal_name 0) = None"
  shows "\<exists>f' db. db_new x sm True f = (Inr db, f') \<and> ws_next_lsn (db_sync db) = 1 \<and> wals (db_manifest db) = [0]
    \<and> frozen_memtables (db_current db) = [] \<and> sstables (db_current db) = []
    \<and> mutable_memtable (db_current db) = memtable_new sm
    \<and> durable x sm (db_manifest db) f' (db_current db) [] []"
  using db_new_fresh [OF assms, of x sm]
  by (auto simp: write_syncs_new_def manifest_new_def fresh_version_def)

lemma fs_empty_fresh: "fs_wf fs_empty" "mf_names_ok fs_empty" "manifest_candidates fs_empty = []" "fs_lookup fs_empty nm = None"
  by (rule fs_wf_empty) (simp_all add: mf_names_ok_def manifest_candidates_def List.map_filter_def fs_empty_def fs_lookup_def)

theorem open_creates_database_witness:
  "\<exists>f' db. db_new sample_ext alist_skipmap True fs_empty = (Inr db, f') \<and> ws_next_lsn (db_sync db) = 1"
  using open_creates_database [OF fs_empty_fresh, of sample_ext alist_skipmap] by blast

text \<open>Opening does not guess: a directory that is missing is an error, and if the manifest of the greatest
  version cannot be read the open fails and changes nothing, whatever older manifests there are; so
  does a manifest without WALs.\<close>

theorem open_refuses_bad_directory:
  assumes "max_by_version (manifest_candidates f) = Some (v, nm)"
  shows "db_new x sm False f = (Inl (DirectoryNotFound ''db_dir''), f)
    \<and> (\<forall>e. try_open (x_crc x) f nm = Inl e \<longrightarrow> (\<exists>msg. db_new x sm True f = (Inl (ManifestReadError msg), f)))
    \<and> (\<forall>m. try_open (x_crc x) f nm = Inr m \<and> wals m = [] \<longrightarrow> (\<exists>msg. db_new x sm True f = (Inl (DataCorrupted msg), f)))"
  using assms by (auto simp: db_new_def recover_or_init_def recover_state_def)

theorem open_refuses_bad_directory_witness:
  "\<exists>msg. db_new sample_ext alist_skipmap True (fs_put fs_empty (mf_name 1) [103, 97]) =
     (Inl (ManifestReadError msg), fs_put fs_empty (mf_name 1) [103, 97])"
proof -
  let ?f = "fs_put fs_empty (mf_name 1) [103, 97]"
  have "manifest_candidates ?f = [(1, mf_name 1)]"
    using candidates_append [OF names_fs_put [OF fs_empty_fresh(4)]] fs_empty_fresh(3) by (simp add: parse_fmt05)
  then have mx: "max_by_version (manifest_candidates ?f) = Some (1, mf_name 1)" by simp
  have "fs_read ?f (mf_name 1) = Some [103, 97]" by (simp add: fs_put_read)
  then have "\<exists>e. try_open (x_crc sample_ext) ?f (mf_name 1) = Inl e"
    by (simp add: try_open_def manifest_decode_def u32_decode_def read_exact_def)
  with open_refuses_bad_directory [OF mx, of sample_ext alist_skipmap] show ?thesis by blast
qed

text \<open>C31: Closing and opening a database restores its version: from the manifest, the WALs and the SSTables in
  the directory recovery rebuilds exactly the memtables and the levels there were, so every lookup
  answers as before; it changes nothing in the directory.\<close>

theorem reopen_restores_version:
  assumes "durable x sm m f v es torn"
  shows "db_new x sm True f =
    (Inr \<lparr>db_current = v\<lparr>v_next_lsn := recovered_lsn es\<rparr>, db_sync = write_syncs_new (recovered_lsn es),
          db_manifest = manifest_reopened m (version m), max_memtable_size = MAX_MEMTABLE_SIZE\<rparr>, f)
    \<and> (\<forall>key. db_get x sm f (v\<lparr>v_next_lsn := recovered_lsn es\<rparr>) key = db_get x sm f v key)"
  using db_new_durable [OF assms] by simp

text \<open>A database with two writes.\<close>

lemma sample_durable:
  "\<exists>f. durable sample_ext alist_skipmap (manifest_new 0) f (write_memtable alist_skipmap sample_log (fresh_version alist_skipmap 0))
     sample_log [] \<and> fs_lookup f (wal_name (unat (next_wal_id (manifest_new 0)))) = None"
proof -
  obtain f where d: "durable sample_ext alist_skipmap (manifest_new 0) f (fresh_version alist_skipmap 0) [] []"
    and none: "fs_lookup f (wal_name 1) = None"
    using db_new_fresh [OF fs_empty_fresh, of sample_ext alist_skipmap] by (auto simp: fs_empty_def fs_lookup_def)
  have "wal_id (mutable_wal (fresh_version alist_skipmap 0 :: entry list db_version)) \<notin> set (butlast (wals (manifest_new 0)))"
    by (simp add: manifest_new_def)
  from durable_append [OF d this sample_log_ok, of "[]"] none show ?thesis
    by (intro exI [of _ "write_wal (fresh_version alist_skipmap 0 :: entry list db_version) (wal_log (x_crc sample_ext) sample_log @ []) f"] conjI)
      (simp_all add: write_wal_def wal_write_data manifest_new_def)
qed

lemma sample_rotation_bounds: "unat (version (manifest_new 0)) + 1 < 2 ^ 32"
  "manifest_ok ((manifest_new 0)\<lparr>wals := wals (manifest_new 0) @ [next_wal_id (manifest_new 0)]\<rparr>)"
  by (simp_all add: manifest_new_def manifest_ok_def manifest_body_def vec_encode_def)

theorem reopen_restores_version_witness:
  "\<exists>f db. db_new sample_ext alist_skipmap True f = (Inr db, f) \<and> ws_next_lsn (db_sync db) = 3
     \<and> mutable_memtable (db_current db) = memtable_put_batch alist_skipmap sample_log (memtable_new alist_skipmap)"
proof -
  obtain f where d: "durable sample_ext alist_skipmap (manifest_new 0) f
      (write_memtable alist_skipmap sample_log (fresh_version alist_skipmap 0)) sample_log []"
    using sample_durable by blast
  have "recovered_lsn sample_log = 3" by (simp add: recovered_lsn_def sample_log_def)
  with reopen_restores_version [OF d] show ?thesis
    by (intro exI [of _ f] exI) (auto simp: write_syncs_new_def write_memtable_def fresh_version_def)
qed

text \<open>C32: A crash while a group of writes goes to the log loses nothing that was acknowledged: whatever part
  of the group's bytes reached the disk, reopening gives the version before the group with a prefix of
  the group applied, the whole group once its last byte is there. A group is not atomic.\<close>

theorem crash_in_write_keeps_prefix:
  assumes "durable x sm m f v es []" "wal_id (mutable_wal v) \<notin> set (butlast (wals m))"
    and "list_all entry_ok reqs" "prefix p (wal_log (x_crc x) reqs)"
  shows "\<exists>k \<le> length reqs. (p = wal_log (x_crc x) reqs \<longrightarrow> k = length reqs)
    \<and> db_new x sm True (write_wal v p f) =
      (Inr \<lparr>db_current = (write_memtable sm (take k reqs) v)\<lparr>v_next_lsn := recovered_lsn (es @ take k reqs)\<rparr>,
            db_sync = write_syncs_new (recovered_lsn (es @ take k reqs)),
            db_manifest = manifest_reopened m (version m), max_memtable_size = MAX_MEMTABLE_SIZE\<rparr>, write_wal v p f)"
proof -
  from wal_log_prefix [OF assms(4,3)] obtain k torn where
    k: "k \<le> length reqs" "p = wal_log (x_crc x) (take k reqs) @ torn" "wal_next (x_crc x) torn = None"
      "p = wal_log (x_crc x) reqs \<longrightarrow> k = length reqs \<and> torn = []" by blast
  have "list_all entry_ok (take k reqs)" using assms(3) by (auto simp: list_all_iff dest: in_set_takeD)
  from db_new_durable [OF durable_append [OF assms(1,2) this k(3)]] k show ?thesis by blast
qed

theorem crash_in_write_keeps_prefix_witness:
  "\<exists>f k. k \<le> length sample_log \<and> db_new sample_ext alist_skipmap True f =
     (Inr \<lparr>db_current = (write_memtable alist_skipmap (take k sample_log) (fresh_version alist_skipmap 0))
              \<lparr>v_next_lsn := recovered_lsn ([] @ take k sample_log)\<rparr>,
           db_sync = write_syncs_new (recovered_lsn ([] @ take k sample_log)),
           db_manifest = manifest_reopened (manifest_new 0) (version (manifest_new 0)),
           max_memtable_size = MAX_MEMTABLE_SIZE\<rparr>, f)"
proof -
  let ?v = "fresh_version alist_skipmap 0"
  obtain f where d: "durable sample_ext alist_skipmap (manifest_new 0) f ?v [] []"
    using db_new_fresh [OF fs_empty_fresh, of sample_ext alist_skipmap] by (auto simp: fs_empty_def)
  have "wal_id (mutable_wal ?v) \<notin> set (butlast (wals (manifest_new 0)))" by (simp add: manifest_new_def)
  from crash_in_write_keeps_prefix [OF d this sample_log_ok take_is_prefix, of 40] show ?thesis by blast
qed

text \<open>C33: If the next WAL number is not in use and the manifest has room for it, a rotation freezes the memtable and begins an empty one, lists the new
  WAL last in the manifest, and leaves a directory that determines the new version, so that a restart
  restores it; and it leaves the counter of WAL numbers as it was.\<close>

theorem rotation_keeps_disk_in_step:
  assumes "durable x sm m f v es torn" "fs_lookup f (wal_name (unat (next_wal_id m))) = None"
    and "unat (version m) + 1 < 2 ^ 32" "manifest_ok (m\<lparr>wals := wals m @ [next_wal_id m]\<rparr>)"
  shows "\<exists>m' f' v'. rotate_memtable (x_crc x) sm alone (m, f, v) = (Inr (), m', f', v')
    \<and> wals m' = wals m @ [next_wal_id m] \<and> next_wal_id m' = next_wal_id m
    \<and> frozen_memtables v' = frozen_memtables v @ [mutable_memtable v] \<and> mutable_memtable v' = memtable_new sm
    \<and> sstables v' = sstables v \<and> durable x sm m' f' v' [] []"
proof -
  from rotate_fresh [OF assms] obtain m' f' w where
    r: "rotate_memtable (x_crc x) sm alone (m, f, v) = (Inr (), m', f', rotate_install sm w v)"
      "m' = m\<lparr>wals := wals m @ [next_wal_id m], version := version m + 1\<rparr>"
      "durable x sm m' f' (rotate_install sm w v) [] []" by blast
  then show ?thesis
    by (intro exI [of _ m'] exI [of _ f'] exI [of _ "rotate_install sm w v"]) (simp add: rotate_install_def)
qed

theorem rotation_keeps_disk_in_step_witness:
  "\<exists>f m' f' v'. rotate_memtable (x_crc sample_ext) alist_skipmap alone
      (manifest_new 0, f, write_memtable alist_skipmap sample_log (fresh_version alist_skipmap 0)) = (Inr (), m', f', v')
    \<and> wals m' = [0, 1] \<and> durable sample_ext alist_skipmap m' f' v' [] []"
proof -
  obtain f where d: "durable sample_ext alist_skipmap (manifest_new 0) f
      (write_memtable alist_skipmap sample_log (fresh_version alist_skipmap 0)) sample_log []"
    "fs_lookup f (wal_name (unat (next_wal_id (manifest_new 0)))) = None"
    using sample_durable by blast
  have "wals (manifest_new 0) @ [next_wal_id (manifest_new 0)] = [0, 1]" by (simp add: manifest_new_def)
  with rotation_keeps_disk_in_step [OF d sample_rotation_bounds] show ?thesis by metis
qed

text \<open>C39: The counter of WAL numbers is not raised by a rotation, so of two rotations in a row, with any writes
  between them, the second takes the number of the first, if that was not in use: it succeeds, lists the WAL twice
  in the manifest and goes on writing to it, although it freezes the memtable that the WAL mirrors. After
  a restart that memtable is there twice, frozen and as the mutable one.\<close>

theorem second_rotation_reuses_wal:
  assumes "durable x sm m f v es torn" "fs_lookup f (wal_name (unat (next_wal_id m))) = None"
    and "unat (version m) + 2 < 2 ^ 32" "manifest_ok (m\<lparr>wals := wals m @ [next_wal_id m, next_wal_id m]\<rparr>)"
    and "list_all entry_ok reqs"
  shows "\<exists>m1 f1 v1 m2 f2 v2 db. rotate_memtable (x_crc x) sm alone (m, f, v) = (Inr (), m1, f1, v1)
    \<and> rotate_memtable (x_crc x) sm alone (m1, write_wal v1 (wal_log (x_crc x) reqs) f1, write_memtable sm reqs v1) = (Inr (), m2, f2, v2)
    \<and> wals m2 = wals m @ [next_wal_id m, next_wal_id m] \<and> mutable_wal v2 = mutable_wal v1 \<and> mutable_memtable v2 = memtable_new sm
    \<and> frozen_memtables v2 = frozen_memtables v @ [mutable_memtable v, memtable_put_batch sm reqs (memtable_new sm)]
    \<and> db_new x sm True f2 = (Inr db, f2) \<and> frozen_memtables (db_current db) = frozen_memtables v2
    \<and> mutable_memtable (db_current db) = memtable_put_batch sm reqs (memtable_new sm)"
proof -
  let ?n = "next_wal_id m"
  have ok: "manifest_ok (m\<lparr>wals := wals m @ [?n]\<rparr>)" and ver: "unat (version m) + 1 < 2 ^ 32"
    using assms(3,4) by (simp_all add: manifest_ok_def manifest_body_def vec_encode_def)
  from rotate_fresh [OF assms(1,2) ver ok] obtain m1 f1 w where
    r1: "rotate_memtable (x_crc x) sm alone (m, f, v) = (Inr (), m1, f1, rotate_install sm w v)"
    and m1: "m1 = m\<lparr>wals := wals m @ [?n], version := version m + 1\<rparr>"
    and d1: "durable x sm m1 f1 (rotate_install sm w v) [] []" by blast
  let ?v1 = "rotate_install sm w v"
  from d1 have last: "wals m1 \<noteq> [] \<and> wal_id (mutable_wal ?v1) = last (wals m1)" unfolding durable_def by auto
  then have id: "wal_id (mutable_wal ?v1) = next_wal_id m1" by (simp add: m1)
  have "?n \<notin> set (wals m)" using durable_wal_exists [OF assms(1)] assms(2) by metis
  then have "wal_id (mutable_wal ?v1) \<notin> set (butlast (wals m1))" using last by (simp add: m1)
  from durable_append [OF d1 this assms(5), of "[]"]
  have d: "durable x sm m1 (write_wal ?v1 (wal_log (x_crc x) reqs) f1) (write_memtable sm reqs ?v1) reqs []" by simp
  have ver1: "unat (version m1) + 1 < 2 ^ 32"
    using assms(3) by (simp add: m1 unat_add_lem [THEN iffD1])
  have ok1: "manifest_ok (m1\<lparr>wals := wals m1 @ [next_wal_id m1]\<rparr>)"
    using assms(4) by (simp add: m1 manifest_ok_def manifest_body_def)
  have same: "mutable_wal (write_memtable sm reqs ?v1) = mutable_wal ?v1"
    "frozen_memtables (write_memtable sm reqs ?v1) = frozen_memtables ?v1"
    "mutable_memtable (write_memtable sm reqs ?v1) = memtable_put_batch sm reqs (memtable_new sm)"
    by (simp_all add: write_memtable_def rotate_install_def)
  from rotate_again [OF d _ ver1 ok1, unfolded same memtable_freeze_id, OF id] obtain m2 f2 v2 db where
    r2: "rotate_memtable (x_crc x) sm alone (m1, write_wal ?v1 (wal_log (x_crc x) reqs) f1, write_memtable sm reqs ?v1) = (Inr (), m2, f2, v2)"
      "wals m2 = wals m1 @ [last (wals m1)]" "mutable_wal v2 = mutable_wal ?v1" "mutable_memtable v2 = memtable_new sm"
      "frozen_memtables v2 = frozen_memtables ?v1 @ [memtable_put_batch sm reqs (memtable_new sm)]"
    and db: "db_new x sm True f2 = (Inr db, f2)" "mutable_memtable (db_current db) = memtable_put_batch sm reqs (memtable_new sm)"
      "frozen_memtables (db_current db) = frozen_memtables v2"
    by blast
  have "wals m2 = wals m @ [?n, ?n]" "frozen_memtables v2 = frozen_memtables v @ [mutable_memtable v, memtable_put_batch sm reqs (memtable_new sm)]"
    using r2(2,5) by (simp_all add: m1 rotate_install_def)
  with r1 r2(1,3,4) db show ?thesis by blast
qed

theorem second_rotation_reuses_wal_witness:
  "\<exists>f m1 f1 v1 m2 f2 v2 db. rotate_memtable (x_crc sample_ext) alist_skipmap alone
      (manifest_new 0, f, write_memtable alist_skipmap sample_log (fresh_version alist_skipmap 0)) = (Inr (), m1, f1, v1)
    \<and> rotate_memtable (x_crc sample_ext) alist_skipmap alone
      (m1, write_wal v1 (wal_log (x_crc sample_ext) sample_log) f1, write_memtable alist_skipmap sample_log v1) = (Inr (), m2, f2, v2)
    \<and> wals m2 = [0, 1, 1] \<and> db_new sample_ext alist_skipmap True f2 = (Inr db, f2)"
proof -
  obtain f where d: "durable sample_ext alist_skipmap (manifest_new 0) f
      (write_memtable alist_skipmap sample_log (fresh_version alist_skipmap 0)) sample_log []"
    "fs_lookup f (wal_name (unat (next_wal_id (manifest_new 0)))) = None"
    using sample_durable by blast
  have "unat (version (manifest_new 0)) + 2 < 2 ^ 32"
    "manifest_ok ((manifest_new 0)\<lparr>wals := wals (manifest_new 0) @ [next_wal_id (manifest_new 0), next_wal_id (manifest_new 0)]\<rparr>)"
    by (simp_all add: manifest_new_def manifest_ok_def manifest_body_def vec_encode_def)
  note two = second_rotation_reuses_wal [OF d this sample_log_ok]
  have "wals (manifest_new 0) @ [next_wal_id (manifest_new 0), next_wal_id (manifest_new 0)] = [0, 1, 1]" by (simp add: manifest_new_def)
  with two show ?thesis by metis
qed

text \<open>C40: A restart right after a rotation to a WAL number whose file does not exist starts to count LSNs at 1 again,
  whatever the LSNs of the frozen memtable are: they are taken from the mutable WAL only, and that is empty.\<close>

theorem restart_after_rotation_reuses_lsns:
  assumes "durable x sm m f v es torn" "fs_lookup f (wal_name (unat (next_wal_id m))) = None"
    and "unat (version m) + 1 < 2 ^ 32" "manifest_ok (m\<lparr>wals := wals m @ [next_wal_id m]\<rparr>)"
  shows "\<exists>m' f' v' db. rotate_memtable (x_crc x) sm alone (m, f, v) = (Inr (), m', f', v')
    \<and> db_new x sm True f' = (Inr db, f') \<and> ws_next_lsn (db_sync db) = 1
    \<and> frozen_memtables (db_current db) = frozen_memtables v @ [mutable_memtable v]"
proof -
  from rotate_fresh [OF assms] obtain m' f' w where
    r: "rotate_memtable (x_crc x) sm alone (m, f, v) = (Inr (), m', f', rotate_install sm w v)"
    and d: "durable x sm m' f' (rotate_install sm w v) [] []" by blast
  have "recovered_lsn [] = 1" by (simp add: recovered_lsn_def)
  then show ?thesis
    by (intro exI [of _ m'] exI [of _ f'] exI [of _ "rotate_install sm w v"])
      (simp add: r db_new_durable [OF d] write_syncs_new_def, simp add: rotate_install_def)
qed

theorem restart_after_rotation_reuses_lsns_witness:
  "\<exists>f m' f' v' db. rotate_memtable (x_crc sample_ext) alist_skipmap alone
      (manifest_new 0, f, write_memtable alist_skipmap sample_log (fresh_version alist_skipmap 0)) = (Inr (), m', f', v')
    \<and> db_new sample_ext alist_skipmap True f' = (Inr db, f') \<and> ws_next_lsn (db_sync db) = 1
    \<and> (\<exists>mt \<in> set (frozen_memtables (db_current db)). \<exists>e \<in> set (memtable_iter alist_skipmap mt). lsn (fst e) = 2)"
proof -
  obtain f where d: "durable sample_ext alist_skipmap (manifest_new 0) f
      (write_memtable alist_skipmap sample_log (fresh_version alist_skipmap 0)) sample_log []"
    "fs_lookup f (wal_name (unat (next_wal_id (manifest_new 0)))) = None"
    using sample_durable by blast
  let ?mt = "mutable_memtable (write_memtable alist_skipmap sample_log (fresh_version alist_skipmap 0))"
  have "(Key 2 [2], Tombstone) \<in> set (memtable_iter alist_skipmap ?mt)"
    by (simp add: write_memtable_def fresh_version_def memtable_iter_put_batch memtable_iter_new sample_log_def)
  then have "\<exists>e \<in> set (memtable_iter alist_skipmap ?mt). lsn (fst e) = 2" by force
  with restart_after_rotation_reuses_lsns [OF d sample_rotation_bounds] show ?thesis
    by (metis in_set_conv_decomp)
qed

end
