(* ===== verification/Writers.thy ===== *)
theory Writers
  imports Database
begin

text \<open>
  The write pipeline of \<open>src/write_req.rs\<close> and \<open>Db::write\<close> of \<open>src/lib.rs\<close>. Each caller of
  \<open>put\<close> or \<open>del\<close> is a writer that goes through the states of \<open>write_states\<close>. A writer that
  finds its request at the head of the queue leads: it takes the whole queue as its group,
  writes the group to the WAL, and then, in the order of the tickets handed out for WAL writes,
  to the memtable; the others follow and wait for the result their leader leaves in their
  request.

  The unit of interleaving is what the code does under one lock: every definition below named
  after a step is one critical section, or one stage that the control state makes exclusive,
  and a step that would wait on a condition variable is not enabled (\<open>None\<close>). Guards that the
  code drops at the end of a scope are dropped in the order of the language, one step each.
\<close>

subsection \<open>State\<close>

datatype completion = Follower | Success u64

record write_request =
  rq_key :: key
  rq_val :: val
  rq_result :: "completion result option"

record group =
  g_reqs :: "nat list"
  committed_lsn :: "u64 option"

text \<open>What is dropped, with the members of a group that are still to be told its outcome.\<close>

datatype guard = WalGuard | TicketGuard nat | GroupGuard group "nat list"

datatype phase =
    WaitingToBeQueued
  | SeekingMembership
  | FollowerWaitingCompletion
  | LeaderAnnouncing group "nat list"
  | LeaderWaitingToWriteWal group
  | LeaderWritingWal group
  | LeaderLogging group nat u64
  | LeaderReleasingWal group nat
  | LeaderWaitingToWriteMemtable group nat
  | LeaderWritingMemtable group nat
  | LeaderApplied group nat
  | LeaderReleasingTicket group nat
  | LeaderFinishingWrite group
  | Dropping "guard list" "u64 result"
  | Returned "u64 result"

text \<open>Requests and writers have the same numbers.\<close>

record 'm sys =
  sys_db :: "'m db"
  sys_fs :: fs
  sys_reqs :: "nat \<Rightarrow> write_request"
  sys_phase :: "nat \<Rightarrow> phase"

definition writer_new_req :: "key \<Rightarrow> val \<Rightarrow> write_request \<times> phase" where
  "writer_new_req k v = (\<lparr>rq_key = k, rq_val = v, rq_result = None\<rparr>, WaitingToBeQueued)"

definition db_put :: "bytes \<Rightarrow> val \<Rightarrow> write_request \<times> phase" where
  "db_put k v = writer_new_req (key_new k 0) v"

definition db_del :: "bytes \<Rightarrow> write_request \<times> phase" where
  "db_del k = db_put k Tombstone"

definition goto :: "nat \<Rightarrow> phase \<Rightarrow> 'm sys \<Rightarrow> 'm sys" where
  "goto w p s = s\<lparr>sys_phase := (sys_phase s)(w := p)\<rparr>"

definition sync_of :: "'m sys \<Rightarrow> write_syncs" where
  "sync_of s = db_sync (sys_db s)"

definition with_sync :: "(write_syncs \<Rightarrow> write_syncs) \<Rightarrow> 'm sys \<Rightarrow> 'm sys" where
  "with_sync h s = s\<lparr>sys_db := (sys_db s)\<lparr>db_sync := h (db_sync (sys_db s))\<rparr>\<rparr>"

definition set_result :: "nat \<Rightarrow> completion result option \<Rightarrow> 'm sys \<Rightarrow> 'm sys" where
  "set_result r c s = s\<lparr>sys_reqs := (sys_reqs s)(r := (sys_reqs s r)\<lparr>rq_result := c\<rparr>)\<rparr>"

subsection \<open>Queueing and the formation of a group\<close>

definition step_queue :: "nat \<Rightarrow> 'm sys \<Rightarrow> 'm sys" where
  "step_queue w s =
     goto w SeekingMembership (with_sync (\<lambda>g. g\<lparr>write_queue := write_queue g @ [w]\<rparr>) s)"

definition form_write_group :: "write_syncs \<Rightarrow> group \<times> write_syncs" where
  "form_write_group g = (\<lparr>g_reqs = write_queue g, committed_lsn = None\<rparr>, g\<lparr>write_queue := []\<rparr>)"

definition step_seek :: "nat \<Rightarrow> 'm sys \<Rightarrow> 'm sys option" where
  "step_seek w s =
     (case rq_result (sys_reqs s w) of
        Some res \<Rightarrow>
          (let s1 = set_result w None s in
           case res of
             Inr Follower \<Rightarrow> Some (goto w FollowerWaitingCompletion s1)
           | Inr (Success l) \<Rightarrow> Some (goto w (Returned (Inr l)) s1)
           | Inl e \<Rightarrow> Some (goto w (Returned (Inl e)) s1))
      | None \<Rightarrow>
          (case write_queue (sync_of s) of
             [] \<Rightarrow> None
           | front # _ \<Rightarrow>
               (if front = w then
                  (let (write_group, g) = form_write_group (sync_of s) in
                   Some (goto w (LeaderAnnouncing write_group (g_reqs write_group)) (with_sync (\<lambda>_. g) s)))
                else None)))"

fun step_announce :: "nat \<Rightarrow> group \<Rightarrow> nat list \<Rightarrow> 'm sys \<Rightarrow> 'm sys" where
  "step_announce w g [] s = goto w (LeaderWaitingToWriteWal g) s"
| "step_announce w g (r # rs) s = goto w (LeaderAnnouncing g rs) (set_result r (Some (Inr Follower)) s)"

definition step_follow :: "nat \<Rightarrow> 'm sys \<Rightarrow> 'm sys option" where
  "step_follow w s =
     (case rq_result (sys_reqs s w) of
        None \<Rightarrow> None
      | Some res \<Rightarrow>
          (let s1 = set_result w None s in
           case res of
             Inr (Success l) \<Rightarrow> Some (goto w (Returned (Inr l)) s1)
           | Inl e \<Rightarrow> Some (goto w (Returned (Inl e)) s1)
           | Inr Follower \<Rightarrow> Some s1))"

subsection \<open>The WAL stage\<close>

definition step_wait_wal :: "nat \<Rightarrow> group \<Rightarrow> 'm sys \<Rightarrow> 'm sys option" where
  "step_wait_wal w g s =
     (if wal_busy (sync_of s) then None
      else Some (goto w (LeaderWritingWal g) (with_sync (\<lambda>y. y\<lparr>wal_busy := True\<rparr>) s)))"

definition step_ticket :: "nat \<Rightarrow> group \<Rightarrow> 'm sys \<Rightarrow> 'm sys" where
  "step_ticket w g s =
     (let y = sync_of s; ticket = next_ticket y; batch_start_lsn = ws_next_lsn y in
      goto w (LeaderLogging g ticket batch_start_lsn)
        (with_sync (\<lambda>y. y\<lparr>next_ticket := next_ticket y + 1,
                          ws_next_lsn := ws_next_lsn y + of_nat (length (g_reqs g))\<rparr>) s))"

text \<open>Every request of the group gets its LSN in place.\<close>

fun assign_lsns :: "u64 \<Rightarrow> nat list \<Rightarrow> (nat \<Rightarrow> write_request) \<Rightarrow> nat \<Rightarrow> write_request" where
  "assign_lsns l [] reqs = reqs"
| "assign_lsns l (r # rs) reqs =
     assign_lsns (l + 1) rs (reqs(r := (reqs r)\<lparr>rq_key := key_update_lsn (rq_key (reqs r)) l\<rparr>))"

definition request_entry :: "write_request \<Rightarrow> entry" where
  "request_entry r = (rq_key r, rq_val r)"

definition group_entries :: "'m sys \<Rightarrow> group \<Rightarrow> entry list" where
  "group_entries s g = map (\<lambda>r. request_entry (sys_reqs s r)) (g_reqs g)"

definition encode_group :: "(bytes \<Rightarrow> u32) \<Rightarrow> entry list \<Rightarrow> bytes" where
  "encode_group crc es = concat (map (\<lambda>(k, v). wal_encode_entry crc k v) es)"

text \<open>
  The write to the log; \<open>fault\<close> is an I/O error with the bytes that reached the file before it.
  On an error the guards of the scope go: the WAL, the ticket, the group.
\<close>

definition step_log ::
  "(bytes \<Rightarrow> u32) \<Rightarrow> (bytes \<times> db_error) option \<Rightarrow> nat \<Rightarrow> group \<Rightarrow> nat \<Rightarrow> u64 \<Rightarrow> 'm sys \<Rightarrow> 'm sys" where
  "step_log crc fault w g ticket batch_start_lsn s =
     (let s1 = s\<lparr>sys_reqs := assign_lsns batch_start_lsn (g_reqs g) (sys_reqs s)\<rparr>;
          wal_bytes = encode_group crc (group_entries s1 g);
          v = db_current (sys_db s1)
      in case fault of
           Some (written, e) \<Rightarrow>
             goto w (Dropping [WalGuard, TicketGuard ticket, GroupGuard g (g_reqs g)] (Inl e))
               (s1\<lparr>sys_fs := write_wal v written (sys_fs s1)\<rparr>)
         | None \<Rightarrow>
             goto w (LeaderReleasingWal (g\<lparr>committed_lsn := Some batch_start_lsn\<rparr>) ticket)
               (s1\<lparr>sys_fs := write_wal v wal_bytes (sys_fs s1)\<rparr>))"

definition drop_wal_guard :: "'m sys \<Rightarrow> 'm sys" where
  "drop_wal_guard s = with_sync (\<lambda>y. y\<lparr>wal_busy := False\<rparr>) s"

definition drop_ticket_guard :: "'m sys \<Rightarrow> 'm sys" where
  "drop_ticket_guard s = with_sync (\<lambda>y. y\<lparr>ticket_to_mem := ticket_to_mem y + 1\<rparr>) s"

definition group_outcome :: "group \<Rightarrow> completion result" where
  "group_outcome g = (case committed_lsn g of Some l \<Rightarrow> Inr (Success l) | None \<Rightarrow> Inl WriterPanic)"

subsection \<open>The memtable stage\<close>

definition step_wait_memtable :: "nat \<Rightarrow> group \<Rightarrow> nat \<Rightarrow> 'm sys \<Rightarrow> 'm sys option" where
  "step_wait_memtable w g ticket s =
     (if ticket_to_mem (sync_of s) = ticket then Some (goto w (LeaderWritingMemtable g ticket) s) else None)"

definition step_apply :: "'m skipmap \<Rightarrow> nat \<Rightarrow> group \<Rightarrow> nat \<Rightarrow> 'm sys \<Rightarrow> 'm sys" where
  "step_apply sm w g ticket s =
     goto w (LeaderApplied g ticket)
       (s\<lparr>sys_db := (sys_db s)\<lparr>db_current := write_memtable sm (group_entries s g) (db_current (sys_db s))\<rparr>\<rparr>)"

definition step_rotate ::
  "(bytes \<Rightarrow> u32) \<Rightarrow> 'm skipmap \<Rightarrow> (nat \<Rightarrow> manifest \<times> fs \<Rightarrow> manifest \<times> fs) \<Rightarrow> nat \<Rightarrow> group \<Rightarrow> nat \<Rightarrow> 'm sys \<Rightarrow> 'm sys" where
  "step_rotate crc sm others w g ticket s =
     (let d = sys_db s in
      if max_memtable_size d \<le> active_memtable_size (db_current d) then
        (case rotate_memtable crc sm others (db_manifest d, sys_fs s, db_current d) of (r, m, f, v) \<Rightarrow>
           let s1 = s\<lparr>sys_db := d\<lparr>db_manifest := m, db_current := v\<rparr>, sys_fs := f\<rparr> in
           (case r of
              Inl e \<Rightarrow> goto w (Dropping [GroupGuard g (g_reqs g), TicketGuard ticket] (Inl e)) s1
            | Inr _ \<Rightarrow> goto w (LeaderReleasingTicket g ticket) s1))
      else goto w (LeaderReleasingTicket g ticket) s)"

definition step_finish :: "nat \<Rightarrow> group \<Rightarrow> 'm sys \<Rightarrow> 'm sys" where
  "step_finish w g s =
     (let l = (case committed_lsn g of Some l \<Rightarrow> l | None \<Rightarrow> 0) in
      goto w (Dropping [GroupGuard g (g_reqs g)] (Inr l)) s)"

fun step_drop :: "nat \<Rightarrow> guard list \<Rightarrow> u64 result \<Rightarrow> 'm sys \<Rightarrow> 'm sys" where
  "step_drop w [] res s = goto w (Returned res) s"
| "step_drop w (WalGuard # gs) res s = goto w (Dropping gs res) (drop_wal_guard s)"
| "step_drop w (TicketGuard t # gs) res s = goto w (Dropping gs res) (drop_ticket_guard s)"
| "step_drop w (GroupGuard g [] # gs) res s = goto w (Dropping gs res) s"
| "step_drop w (GroupGuard g (r # rs) # gs) res s =
     goto w (Dropping (GroupGuard g rs # gs) res) (set_result r (Some (group_outcome g)) s)"

subsection \<open>One step of a writer\<close>

text \<open>What the environment decides: whether the log write fails, and who interferes with a rotation.\<close>

record env =
  wal_fault :: "(bytes \<times> db_error) option"
  interference :: "nat \<Rightarrow> manifest \<times> fs \<Rightarrow> manifest \<times> fs"

definition writer_step :: "(bytes \<Rightarrow> u32) \<Rightarrow> 'm skipmap \<Rightarrow> env \<Rightarrow> nat \<Rightarrow> 'm sys \<Rightarrow> 'm sys option" where
  "writer_step crc sm env w s =
     (case sys_phase s w of
        WaitingToBeQueued \<Rightarrow> Some (step_queue w s)
      | SeekingMembership \<Rightarrow> step_seek w s
      | FollowerWaitingCompletion \<Rightarrow> step_follow w s
      | LeaderAnnouncing g rs \<Rightarrow> Some (step_announce w g rs s)
      | LeaderWaitingToWriteWal g \<Rightarrow> step_wait_wal w g s
      | LeaderWritingWal g \<Rightarrow> Some (step_ticket w g s)
      | LeaderLogging g t l \<Rightarrow> Some (step_log crc (wal_fault env) w g t l s)
      | LeaderReleasingWal g t \<Rightarrow> Some (goto w (LeaderWaitingToWriteMemtable g t) (drop_wal_guard s))
      | LeaderWaitingToWriteMemtable g t \<Rightarrow> step_wait_memtable w g t s
      | LeaderWritingMemtable g t \<Rightarrow> Some (step_apply sm w g t s)
      | LeaderApplied g t \<Rightarrow> Some (step_rotate crc sm (interference env) w g t s)
      | LeaderReleasingTicket g t \<Rightarrow> Some (goto w (LeaderFinishingWrite g) (drop_ticket_guard s))
      | LeaderFinishingWrite g \<Rightarrow> Some (step_finish w g s)
      | Dropping gs res \<Rightarrow> Some (step_drop w gs res s)
      | Returned res \<Rightarrow> None)"

subsection \<open>Runs\<close>

text \<open>
  Any number of writers take steps in any order. Between their steps the background worker may
  change the manifest, the directory, the frozen memtables and the SSTables, but not the mutable
  memtable or the mutable WAL of the current version. The trace records what happened to the
  log and to the memtable. \<open>faults\<close> says whether writes to the log may fail; the bytes a
  failed write leaves are a prefix of the group's.
\<close>

datatype event = Logged nat "entry list" | WalFailed nat | Applied nat "entry list"

definition step_events :: "nat \<Rightarrow> 'm sys \<Rightarrow> 'm sys \<Rightarrow> event list" where
  "step_events w s s' =
     (case sys_phase s w of
        LeaderLogging g t l \<Rightarrow>
          (case sys_phase s' w of
             LeaderReleasingWal g' t' \<Rightarrow> [Logged t (group_entries s' g)]
           | _ \<Rightarrow> [WalFailed t])
      | LeaderWritingMemtable g t \<Rightarrow> [Applied t (group_entries s g)]
      | _ \<Rightarrow> [])"

definition worker_change :: "'m sys \<Rightarrow> 'm sys \<Rightarrow> bool" where
  "worker_change s s' \<longleftrightarrow>
     (\<exists>m v f. s' = s\<lparr>sys_db := (sys_db s)\<lparr>db_manifest := m, db_current := v\<rparr>, sys_fs := f\<rparr>
        \<and> mutable_memtable v = mutable_memtable (db_current (sys_db s))
        \<and> mutable_wal v = mutable_wal (db_current (sys_db s)))"

definition fault_ok :: "bool \<Rightarrow> (bytes \<Rightarrow> u32) \<Rightarrow> env \<Rightarrow> nat \<Rightarrow> 'm sys \<Rightarrow> bool" where
  "fault_ok faults crc env w s \<longleftrightarrow>
     (case wal_fault env of
        None \<Rightarrow> True
      | Some (written, e) \<Rightarrow> faults \<and>
          (\<forall>g t l. sys_phase s w = LeaderLogging g t l \<longrightarrow>
             prefix written (encode_group crc
               (group_entries (s\<lparr>sys_reqs := assign_lsns l (g_reqs g) (sys_reqs s)\<rparr>) g))))"

inductive run :: "bool \<Rightarrow> (bytes \<Rightarrow> u32) \<Rightarrow> 'm skipmap \<Rightarrow> 'm sys \<Rightarrow> event list \<Rightarrow> 'm sys \<Rightarrow> bool"
  for faults crc sm s0 where
  start: "run faults crc sm s0 [] s0"
| writer: "run faults crc sm s0 tr s \<Longrightarrow> writer_step crc sm env w s = Some s' \<Longrightarrow> fault_ok faults crc env w s \<Longrightarrow>
    run faults crc sm s0 (tr @ step_events w s s') s'"
| worker: "run faults crc sm s0 tr s \<Longrightarrow> worker_change s s' \<Longrightarrow> run faults crc sm s0 tr s'"

text \<open>An open database nobody has written to yet, with the requests to come.\<close>

definition idle :: "'m sys \<Rightarrow> bool" where
  "idle s \<longleftrightarrow> (\<exists>l. sync_of s = write_syncs_new l)
     \<and> (\<forall>w. sys_phase s w = WaitingToBeQueued \<and> rq_result (sys_reqs s w) = None)"

subsection \<open>The control skeleton\<close>

text \<open>
  What a step does to the phase of its writer, to the control state and to the results, without
  the data: an abstract protocol that every step of a writer refines.
\<close>

type_synonym results = "nat \<Rightarrow> completion result option"

inductive ctl :: "bool \<Rightarrow> nat \<Rightarrow> phase \<Rightarrow> write_syncs \<Rightarrow> results \<Rightarrow> phase \<Rightarrow> write_syncs \<Rightarrow> results \<Rightarrow> bool" where
  c_queue: "ctl fl w WaitingToBeQueued y c SeekingMembership (y\<lparr>write_queue := write_queue y @ [w]\<rparr>) c"
| c_seek_follow: "c w = Some (Inr Follower) \<Longrightarrow> ctl fl w SeekingMembership y c FollowerWaitingCompletion y (c(w := None))"
| c_seek_success: "c w = Some (Inr (Success l)) \<Longrightarrow> ctl fl w SeekingMembership y c (Returned (Inr l)) y (c(w := None))"
| c_seek_error: "c w = Some (Inl e) \<Longrightarrow> ctl fl w SeekingMembership y c (Returned (Inl e)) y (c(w := None))"
| c_lead: "c w = None \<Longrightarrow> write_queue y = w # q \<Longrightarrow>
    ctl fl w SeekingMembership y c (LeaderAnnouncing \<lparr>g_reqs = w # q, committed_lsn = None\<rparr> (w # q)) (y\<lparr>write_queue := []\<rparr>) c"
| c_announce: "ctl fl w (LeaderAnnouncing g (r # rs)) y c (LeaderAnnouncing g rs) y (c(r \<mapsto> Inr Follower))"
| c_announced: "ctl fl w (LeaderAnnouncing g []) y c (LeaderWaitingToWriteWal g) y c"
| c_follow_success: "c w = Some (Inr (Success l)) \<Longrightarrow> ctl fl w FollowerWaitingCompletion y c (Returned (Inr l)) y (c(w := None))"
| c_follow_error: "c w = Some (Inl e) \<Longrightarrow> ctl fl w FollowerWaitingCompletion y c (Returned (Inl e)) y (c(w := None))"
| c_follow_again: "c w = Some (Inr Follower) \<Longrightarrow> ctl fl w FollowerWaitingCompletion y c FollowerWaitingCompletion y (c(w := None))"
| c_enter_wal: "\<not> wal_busy y \<Longrightarrow> ctl fl w (LeaderWaitingToWriteWal g) y c (LeaderWritingWal g) (y\<lparr>wal_busy := True\<rparr>) c"
| c_ticket: "ctl fl w (LeaderWritingWal g) y c (LeaderLogging g (next_ticket y) (ws_next_lsn y))
    (y\<lparr>next_ticket := Suc (next_ticket y), ws_next_lsn := ws_next_lsn y + of_nat (length (g_reqs g))\<rparr>) c"
| c_logged: "ctl fl w (LeaderLogging g t l) y c (LeaderReleasingWal (g\<lparr>committed_lsn := Some l\<rparr>) t) y c"
| c_log_failed: "fl \<Longrightarrow> ctl fl w (LeaderLogging g t l) y c
    (Dropping [WalGuard, TicketGuard t, GroupGuard g (g_reqs g)] (Inl e)) y c"
| c_release_wal: "ctl fl w (LeaderReleasingWal g t) y c (LeaderWaitingToWriteMemtable g t) (y\<lparr>wal_busy := False\<rparr>) c"
| c_enter_mem: "ticket_to_mem y = t \<Longrightarrow> ctl fl w (LeaderWaitingToWriteMemtable g t) y c (LeaderWritingMemtable g t) y c"
| c_apply: "ctl fl w (LeaderWritingMemtable g t) y c (LeaderApplied g t) y c"
| c_rotated: "ctl fl w (LeaderApplied g t) y c (LeaderReleasingTicket g t) y c"
| c_rotate_failed: "ctl fl w (LeaderApplied g t) y c (Dropping [GroupGuard g (g_reqs g), TicketGuard t] (Inl e)) y c"
| c_release_ticket: "ctl fl w (LeaderReleasingTicket g t) y c (LeaderFinishingWrite g) (y\<lparr>ticket_to_mem := Suc (ticket_to_mem y)\<rparr>) c"
| c_finish: "ctl fl w (LeaderFinishingWrite g) y c (Dropping [GroupGuard g (g_reqs g)] (Inr l)) y c"
| c_return: "ctl fl w (Dropping [] res) y c (Returned res) y c"
| c_drop_wal: "ctl fl w (Dropping (WalGuard # gs) res) y c (Dropping gs res) (y\<lparr>wal_busy := False\<rparr>) c"
| c_drop_ticket: "ctl fl w (Dropping (TicketGuard t # gs) res) y c (Dropping gs res) (y\<lparr>ticket_to_mem := Suc (ticket_to_mem y)\<rparr>) c"
| c_drop_group: "ctl fl w (Dropping (GroupGuard g [] # gs) res) y c (Dropping gs res) y c"
| c_tell: "ctl fl w (Dropping (GroupGuard g (r # rs) # gs) res) y c (Dropping (GroupGuard g rs # gs) res) y (c(r \<mapsto> group_outcome g))"

definition result_of :: "'m sys \<Rightarrow> results" where
  "result_of s = (\<lambda>r. rq_result (sys_reqs s r))"

lemma goto_simps [simp]:
  "sys_phase (goto w p s) = (sys_phase s)(w := p)" "sys_reqs (goto w p s) = sys_reqs s" "sys_db (goto w p s) = sys_db s"
  "sys_fs (goto w p s) = sys_fs s" "sync_of (goto w p s) = sync_of s" "result_of (goto w p s) = result_of s"
  by (simp_all add: goto_def sync_of_def result_of_def)

lemma with_sync_simps [simp]:
  "sys_phase (with_sync h s) = sys_phase s" "sys_reqs (with_sync h s) = sys_reqs s"
  "sys_fs (with_sync h s) = sys_fs s" "sync_of (with_sync h s) = h (sync_of s)" "result_of (with_sync h s) = result_of s"
  "db_current (sys_db (with_sync h s)) = db_current (sys_db s)" "db_manifest (sys_db (with_sync h s)) = db_manifest (sys_db s)"
  by (simp_all add: with_sync_def sync_of_def result_of_def)

lemma set_result_simps [simp]:
  "sys_phase (set_result r c s) = sys_phase s" "sys_db (set_result r c s) = sys_db s" "sys_fs (set_result r c s) = sys_fs s"
  "sync_of (set_result r c s) = sync_of s" "result_of (set_result r c s) = (result_of s)(r := c)"
  "request_entry (sys_reqs (set_result r c s) r') = request_entry (sys_reqs s r')"
  by (auto simp: set_result_def sync_of_def result_of_def request_entry_def)

lemma assign_lsns_other: "r \<notin> set rs \<Longrightarrow> assign_lsns l rs reqs r = reqs r"
  by (induction l rs reqs rule: assign_lsns.induct) auto

lemma assign_lsns_rest [simp]:
  "rq_result (assign_lsns l rs reqs r) = rq_result (reqs r)" "rq_val (assign_lsns l rs reqs r) = rq_val (reqs r)"
  by (induction l rs reqs rule: assign_lsns.induct) auto

lemma writer_step_ctl:
  assumes "writer_step crc sm env w s = Some s'" "faults \<or> wal_fault env = None"
  shows "sys_phase s' = (sys_phase s)(w := sys_phase s' w)
    \<and> ctl faults w (sys_phase s w) (sync_of s) (result_of s) (sys_phase s' w) (sync_of s') (result_of s')"
proof (cases "sys_phase s w")
  case (LeaderLogging g t l)
  have "result_of (s\<lparr>sys_reqs := assign_lsns l (g_reqs g) (sys_reqs s), sys_fs := f\<rparr>) = result_of s"
    "sync_of (s\<lparr>sys_reqs := assign_lsns l (g_reqs g) (sys_reqs s), sys_fs := f\<rparr>) = sync_of s" for f
    by (simp_all add: result_of_def sync_of_def)
  then show ?thesis
    using assms LeaderLogging
    by (auto simp: writer_step_def step_log_def Let_def split: option.splits prod.splits intro: ctl.intros)
next
  case (LeaderApplied g t)
  have "result_of (s\<lparr>sys_db := (sys_db s)\<lparr>db_manifest := m, db_current := v\<rparr>, sys_fs := f\<rparr>) = result_of s"
    "sync_of (s\<lparr>sys_db := (sys_db s)\<lparr>db_manifest := m, db_current := v\<rparr>, sys_fs := f\<rparr>) = sync_of s" for f m v
    by (simp_all add: result_of_def sync_of_def)
  then show ?thesis
    using assms LeaderApplied
    by (auto simp: writer_step_def step_rotate_def Let_def split: sum.splits prod.splits if_splits intro: ctl.intros)
next
  case (Dropping gs res)
  then show ?thesis
    using assms
    by (cases "(w, gs, res, s)" rule: step_drop.cases)
      (auto simp: writer_step_def drop_wal_guard_def drop_ticket_guard_def intro: ctl.intros)
next
  case (LeaderAnnouncing g rs)
  then show ?thesis using assms by (cases rs) (auto simp: writer_step_def intro: ctl.intros)
next
  case SeekingMembership
  then show ?thesis
    using assms
    by (auto simp: writer_step_def step_seek_def form_write_group_def result_of_def [of s] Let_def
        split: option.splits sum.splits completion.splits list.splits if_splits intro: ctl.intros)
next
  case FollowerWaitingCompletion
  then show ?thesis
    using assms
    by (auto simp: writer_step_def step_follow_def result_of_def [of s] Let_def
        split: option.splits sum.splits completion.splits intro: ctl.intros)
next
  case (LeaderWritingMemtable g t)
  have "result_of (s\<lparr>sys_db := (sys_db s)\<lparr>db_current := v\<rparr>\<rparr>) = result_of s"
    "sync_of (s\<lparr>sys_db := (sys_db s)\<lparr>db_current := v\<rparr>\<rparr>) = sync_of s" for v
    by (simp_all add: result_of_def sync_of_def)
  then show ?thesis
    using assms LeaderWritingMemtable by (auto simp: writer_step_def step_apply_def intro: ctl.intros)
qed (use assms in \<open>auto simp: writer_step_def step_queue_def step_wait_wal_def step_ticket_def step_wait_memtable_def
      step_finish_def drop_wal_guard_def drop_ticket_guard_def Let_def split: if_splits intro: ctl.intros\<close>)

subsection \<open>Invariants of the protocol\<close>

text \<open>
  The interface between the protocol and what is proved of runs: a predicate that holds in an
  idle database and that every control step keeps holds after every run.
\<close>

locale protocol_invariant =
  fixes faults :: bool and I :: "(nat \<Rightarrow> phase) \<Rightarrow> write_syncs \<Rightarrow> results \<Rightarrow> bool"
  assumes init: "I (\<lambda>_. WaitingToBeQueued) (write_syncs_new l) (\<lambda>_. None)"
    and keep: "I ph y c \<Longrightarrow> ctl faults w (ph w) y c p y' c' \<Longrightarrow> I (ph(w := p)) y' c'"
begin

lemma run_keeps:
  assumes "run faults crc sm s0 tr s" "idle s0"
  shows "I (sys_phase s) (sync_of s) (result_of s)"
  using assms
proof (induction rule: run.induct)
  case start
  then obtain l where "sync_of s0 = write_syncs_new l" "sys_phase s0 = (\<lambda>_. WaitingToBeQueued)" "result_of s0 = (\<lambda>_. None)"
    by (auto simp: idle_def result_of_def)
  then show ?case by (simp only: init)
next
  case (writer tr s env w s')
  have "faults \<or> wal_fault env = None" using writer.hyps(3) by (auto simp: fault_ok_def split: option.splits)
  from writer_step_ctl [OF writer.hyps(2) this] keep [OF writer.IH [OF writer.prems]] show ?case by metis
next
  case (worker tr s s')
  then have "sys_phase s' = sys_phase s" "sync_of s' = sync_of s" "result_of s' = result_of s"
    by (auto simp: worker_change_def sync_of_def result_of_def)
  with worker show ?case by simp
qed

end

fun holds_wal :: "phase \<Rightarrow> bool" where
  "holds_wal (LeaderWritingWal g) = True"
| "holds_wal (LeaderLogging g t l) = True"
| "holds_wal (LeaderReleasingWal g t) = True"
| "holds_wal (Dropping (WalGuard # gs) res) = True"
| "holds_wal _ = False"

text \<open>The ticket a writer holds.\<close>

fun guard_ticket :: "guard list \<Rightarrow> nat option" where
  "guard_ticket [] = None"
| "guard_ticket (TicketGuard t # gs) = Some t"
| "guard_ticket (_ # gs) = guard_ticket gs"

fun ticket :: "phase \<Rightarrow> nat option" where
  "ticket (LeaderLogging g t l) = Some t"
| "ticket (LeaderReleasingWal g t) = Some t"
| "ticket (LeaderWaitingToWriteMemtable g t) = Some t"
| "ticket (LeaderWritingMemtable g t) = Some t"
| "ticket (LeaderApplied g t) = Some t"
| "ticket (LeaderReleasingTicket g t) = Some t"
| "ticket (Dropping gs res) = guard_ticket gs"
| "ticket _ = None"

text \<open>A writer in the memtable stage, from its turn until it gives up its ticket.\<close>

fun holds_mem :: "phase \<Rightarrow> bool" where
  "holds_mem (LeaderWritingMemtable g t) = True"
| "holds_mem (LeaderApplied g t) = True"
| "holds_mem (LeaderReleasingTicket g t) = True"
| "holds_mem (Dropping (GroupGuard g rs # TicketGuard t # gs) res) = True"
| "holds_mem (Dropping [TicketGuard t] res) = True"
| "holds_mem _ = False"

text \<open>The guards a writer that is about to return can still hold.\<close>

inductive drop_shape :: "bool \<Rightarrow> guard list \<Rightarrow> bool" for fl where
  "drop_shape fl []"
| "drop_shape fl [TicketGuard t]"
| "drop_shape fl [GroupGuard g rs]"
| "drop_shape fl [GroupGuard g rs, TicketGuard t]"
| "fl \<Longrightarrow> drop_shape fl [TicketGuard t, GroupGuard g rs]"
| "fl \<Longrightarrow> drop_shape fl [WalGuard, TicketGuard t, GroupGuard g rs]"

inductive_simps drop_shape_simps [simp]:
  "drop_shape fl []" "drop_shape fl (WalGuard # gs)" "drop_shape fl (TicketGuard t # gs)" "drop_shape fl (GroupGuard g rs # gs)"

fun shape_ok :: "bool \<Rightarrow> phase \<Rightarrow> bool" where
  "shape_ok fl (Dropping gs res) = drop_shape fl gs"
| "shape_ok fl _ = True"

definition shapes_ok :: "bool \<Rightarrow> (nat \<Rightarrow> phase) \<Rightarrow> bool" where
  "shapes_ok fl ph \<longleftrightarrow> (\<forall>w. shape_ok fl (ph w))"

lemma shape_ok_weaken:
  assumes "shape_ok fl p"
  shows "shape_ok True p"
proof (cases p)
  case (Dropping gs res)
  with assms have "drop_shape fl gs" by simp
  then have "drop_shape True gs" by (cases rule: drop_shape.cases) simp_all
  with Dropping show ?thesis by simp
qed simp_all

lemma ctl_shape:
  assumes "ctl fl w q y c p y' c'" "shape_ok fl q"
  shows "shape_ok fl p"
  using assms by (cases rule: ctl.cases) auto

interpretation shapes: protocol_invariant fl "\<lambda>ph y c. shapes_ok fl ph" for fl
proof
  show "shapes_ok fl (\<lambda>_. WaitingToBeQueued)" by (simp add: shapes_ok_def)
  show "shapes_ok fl (ph(w := p))" if "shapes_ok fl ph" "ctl fl w (ph w) y c p y' c'" for ph y c w p y' c'
    using ctl_shape [OF that(2)] that(1) by (simp add: shapes_ok_def)
qed

text \<open>The WAL stage is exclusive, and the flag says whether somebody is in it.\<close>

definition wal_inv :: "(nat \<Rightarrow> phase) \<Rightarrow> write_syncs \<Rightarrow> bool" where
  "wal_inv ph y \<longleftrightarrow>
     (wal_busy y \<longleftrightarrow> (\<exists>w. holds_wal (ph w))) \<and> (\<forall>w w'. holds_wal (ph w) \<longrightarrow> holds_wal (ph w') \<longrightarrow> w = w')"

text \<open>Tickets are handed out once.\<close>

definition ticket_inv :: "(nat \<Rightarrow> phase) \<Rightarrow> write_syncs \<Rightarrow> bool" where
  "ticket_inv ph y \<longleftrightarrow>
     (\<forall>w t. ticket (ph w) = Some t \<longrightarrow> t < next_ticket y)
     \<and> (\<forall>w w' t. ticket (ph w) = Some t \<longrightarrow> ticket (ph w') = Some t \<longrightarrow> w = w')"

text \<open>The tickets not yet served are those held, and the memtable stage is with the first of them.\<close>

definition order_inv :: "(nat \<Rightarrow> phase) \<Rightarrow> write_syncs \<Rightarrow> bool" where
  "order_inv ph y \<longleftrightarrow>
     ticket_to_mem y \<le> next_ticket y
     \<and> (\<forall>w t. ticket (ph w) = Some t \<longrightarrow> ticket_to_mem y \<le> t)
     \<and> (\<forall>t. ticket_to_mem y \<le> t \<and> t < next_ticket y \<longrightarrow> (\<exists>w. ticket (ph w) = Some t))
     \<and> (\<forall>w. holds_mem (ph w) \<longrightarrow> ticket (ph w) = Some (ticket_to_mem y))"

lemma ctl_wal_stage:
  assumes "ctl fl w q y c p y' c'" "shape_ok fl q"
  shows "holds_wal p = holds_wal q \<and> wal_busy y' = wal_busy y
    \<or> \<not> wal_busy y \<and> wal_busy y' \<and> holds_wal p
    \<or> holds_wal q \<and> \<not> holds_wal p \<and> \<not> wal_busy y'"
  using assms by (cases rule: ctl.cases) auto

interpretation wal_stage: protocol_invariant fl "\<lambda>ph y c. shapes_ok fl ph \<and> wal_inv ph y" for fl
proof
  show "shapes_ok fl (\<lambda>_. WaitingToBeQueued) \<and> wal_inv (\<lambda>_. WaitingToBeQueued) (write_syncs_new l)" for l
    by (simp add: shapes_ok_def wal_inv_def write_syncs_new_def)
  show "shapes_ok fl (ph(w := p)) \<and> wal_inv (ph(w := p)) y'"
    if I: "shapes_ok fl ph \<and> wal_inv ph y" and st: "ctl fl w (ph w) y c p y' c'" for ph y c w p y' c'
  proof
    show "shapes_ok fl (ph(w := p))" using shapes.keep [OF conjunct1 [OF I] st] .
    have "shape_ok fl (ph w)" using I by (simp add: shapes_ok_def)
    from ctl_wal_stage [OF st this] I show "wal_inv (ph(w := p)) y'"
      unfolding wal_inv_def by (elim disjE conjE) (auto split: if_splits)
  qed
qed

text \<open>What a step does with tickets: keep, take the next one, or serve one.\<close>

lemma ctl_tickets:
  assumes "ctl fl w q y c p y' c'" "shape_ok fl q"
  shows "ticket p = ticket q \<and> next_ticket y' = next_ticket y \<and> ticket_to_mem y' = ticket_to_mem y
        \<and> (holds_mem p \<longrightarrow> holds_mem q \<or> ticket q = Some (ticket_to_mem y) \<or> fl)
    \<or> ticket q = None \<and> ticket p = Some (next_ticket y) \<and> next_ticket y' = Suc (next_ticket y)
        \<and> ticket_to_mem y' = ticket_to_mem y \<and> \<not> holds_mem p
    \<or> (\<exists>t. ticket q = Some t) \<and> ticket p = None \<and> next_ticket y' = next_ticket y
        \<and> ticket_to_mem y' = Suc (ticket_to_mem y) \<and> \<not> holds_mem p \<and> (holds_mem q \<or> fl)"
  using assms by (cases rule: ctl.cases) auto

lemma fun_upd_ticket: "ticket ((ph(w := p)) u) = (if u = w then ticket p else ticket (ph u))"
  by simp

interpretation tickets: protocol_invariant fl "\<lambda>ph y c. shapes_ok fl ph \<and> ticket_inv ph y" for fl
proof
  show "shapes_ok fl (\<lambda>_. WaitingToBeQueued) \<and> ticket_inv (\<lambda>_. WaitingToBeQueued) (write_syncs_new l)" for l
    by (simp add: shapes_ok_def ticket_inv_def)
  show "shapes_ok fl (ph(w := p)) \<and> ticket_inv (ph(w := p)) y'"
    if I: "shapes_ok fl ph \<and> ticket_inv ph y" and st: "ctl fl w (ph w) y c p y' c'" for ph y c w p y' c'
  proof
    show "shapes_ok fl (ph(w := p))" using shapes.keep [OF conjunct1 [OF I] st] .
    have sh: "shape_ok fl (ph w)" using I by (simp add: shapes_ok_def)
    have lt: "\<And>u t. ticket (ph u) = Some t \<Longrightarrow> t < next_ticket y"
      and inj: "\<And>u u' t. ticket (ph u) = Some t \<Longrightarrow> ticket (ph u') = Some t \<Longrightarrow> u = u'"
      using I by (auto simp: ticket_inv_def)
    from ctl_tickets [OF st sh] consider
        "ticket p = ticket (ph w)" "next_ticket y' = next_ticket y"
      | "ticket p = Some (next_ticket y)" "next_ticket y' = Suc (next_ticket y)"
      | "ticket p = None" "next_ticket y' = next_ticket y" by metis
    then show "ticket_inv (ph(w := p)) y'"
    proof cases
      case 1
      then show ?thesis unfolding ticket_inv_def fun_upd_ticket using lt inj by (metis (full_types))
    next
      case 2
      then show ?thesis unfolding ticket_inv_def fun_upd_ticket using lt inj
        by (auto split: if_splits simp: less_Suc_eq)
    next
      case 3
      then show ?thesis unfolding ticket_inv_def fun_upd_ticket using lt inj by (auto split: if_splits)
    qed
  qed
qed

lemma order_inv_step:
  assumes "order_inv ph y" "ticket_inv ph y" "shape_ok False (ph w)" "ctl False w (ph w) y c p y' c'"
  shows "order_inv (ph(w := p)) y'"
proof -
  let ?k = "ticket_to_mem y"
  have le: "?k \<le> next_ticket y" and ge: "\<And>u t. ticket (ph u) = Some t \<Longrightarrow> ?k \<le> t"
    and ex: "\<And>t. ?k \<le> t \<Longrightarrow> t < next_ticket y \<Longrightarrow> \<exists>u. ticket (ph u) = Some t"
    and mem: "\<And>u. holds_mem (ph u) \<Longrightarrow> ticket (ph u) = Some ?k"
    using assms(1) by (auto simp: order_inv_def)
  have lt: "\<And>u t. ticket (ph u) = Some t \<Longrightarrow> t < next_ticket y"
    and inj: "\<And>u u' t. ticket (ph u) = Some t \<Longrightarrow> ticket (ph u') = Some t \<Longrightarrow> u = u'"
    using assms(2) by (auto simp: ticket_inv_def)
  from ctl_tickets [OF assms(4,3)] consider
      (keep) "ticket p = ticket (ph w)" "next_ticket y' = next_ticket y" "ticket_to_mem y' = ?k"
        "holds_mem p \<Longrightarrow> ticket (ph w) = Some ?k"
    | (draw) "ticket (ph w) = None" "ticket p = Some (next_ticket y)" "next_ticket y' = Suc (next_ticket y)"
        "ticket_to_mem y' = ?k" "\<not> holds_mem p"
    | (serve) "ticket (ph w) = Some ?k" "ticket p = None" "next_ticket y' = next_ticket y"
        "ticket_to_mem y' = Suc ?k" "\<not> holds_mem p"
    using mem by (metis (full_types))
  then show ?thesis
  proof cases
    case keep
    have "\<exists>u. ticket ((ph(w := p)) u) = Some t" if "?k \<le> t" "t < next_ticket y" for t
      using ex [OF that] keep(1) by (metis fun_upd_ticket)
    moreover have "?k \<le> t" if "ticket ((ph(w := p)) u) = Some t" for u t
      using that ge keep(1) by (metis fun_upd_ticket)
    moreover have "ticket ((ph(w := p)) u) = Some ?k" if "holds_mem ((ph(w := p)) u)" for u
      using that mem keep(1,4) by (cases "u = w") auto
    ultimately show ?thesis using le keep(2,3) by (simp add: order_inv_def)
  next
    case draw
    have "\<exists>u. ticket ((ph(w := p)) u) = Some t" if "?k \<le> t" "t < Suc (next_ticket y)" for t
    proof (cases "t = next_ticket y")
      case True
      with draw(2) show ?thesis by (metis fun_upd_ticket)
    next
      case False
      with that ex obtain u where "ticket (ph u) = Some t" by (metis less_Suc_eq)
      with draw(1) show ?thesis by (metis fun_upd_ticket option.distinct(1))
    qed
    moreover have "?k \<le> t" if "ticket ((ph(w := p)) u) = Some t" for u t
      using that ge le draw(2) by (auto split: if_splits)
    moreover have "ticket ((ph(w := p)) u) = Some ?k" if "holds_mem ((ph(w := p)) u)" for u
      using that mem draw(5) by (cases "u = w") auto
    ultimately show ?thesis using le draw(3,4) by (simp add: order_inv_def)
  next
    case serve
    have other: "u \<noteq> w \<Longrightarrow> ticket (ph u) \<noteq> Some ?k" for u using inj [OF _ serve(1)] by blast
    have "\<exists>u. ticket ((ph(w := p)) u) = Some t" if "Suc ?k \<le> t" "t < next_ticket y" for t
    proof -
      from that ex obtain u where u: "ticket (ph u) = Some t" by (metis Suc_leD)
      with serve(1) that have "u \<noteq> w" by auto
      with u show ?thesis by (metis fun_upd_ticket)
    qed
    moreover have "Suc ?k \<le> t" if "ticket ((ph(w := p)) u) = Some t" for u t
    proof -
      from that serve(2) have "u \<noteq> w" "ticket (ph u) = Some t" by (auto split: if_splits)
      with ge other show ?thesis by (metis le_neq_implies_less Suc_leI)
    qed
    moreover have "\<not> holds_mem ((ph(w := p)) u)" for u
      using mem other serve(5) by (cases "u = w") auto
    ultimately show ?thesis using lt [OF serve(1)] serve(3,4) by (simp add: order_inv_def)
  qed
qed

interpretation order: protocol_invariant False "\<lambda>ph y c. (shapes_ok False ph \<and> ticket_inv ph y) \<and> order_inv ph y"
proof
  show "(shapes_ok False (\<lambda>_. WaitingToBeQueued) \<and> ticket_inv (\<lambda>_. WaitingToBeQueued) (write_syncs_new l))
      \<and> order_inv (\<lambda>_. WaitingToBeQueued) (write_syncs_new l)" for l
    by (simp add: shapes_ok_def ticket_inv_def order_inv_def write_syncs_new_def)
  show "(shapes_ok False (ph(w := p)) \<and> ticket_inv (ph(w := p)) y') \<and> order_inv (ph(w := p)) y'"
    if I: "(shapes_ok False ph \<and> ticket_inv ph y) \<and> order_inv ph y" and st: "ctl False w (ph w) y c p y' c'"
    for ph y c w p y' c'
    using tickets.keep [OF conjunct1 [OF I] st] order_inv_step [of ph y w c p y' c', OF _ _ _ st] I by (auto simp: shapes_ok_def)
qed

subsection \<open>Who belongs to which group\<close>

text \<open>The requests whose outcome is in the hands of the writer.\<close>

fun guard_members :: "guard list \<Rightarrow> nat list" where
  "guard_members [] = []"
| "guard_members (GroupGuard g rs # gs) = rs"
| "guard_members (_ # gs) = guard_members gs"

fun members :: "phase \<Rightarrow> nat list" where
  "members (LeaderAnnouncing g rs) = g_reqs g"
| "members (LeaderWaitingToWriteWal g) = g_reqs g"
| "members (LeaderWritingWal g) = g_reqs g"
| "members (LeaderLogging g t l) = g_reqs g"
| "members (LeaderReleasingWal g t) = g_reqs g"
| "members (LeaderWaitingToWriteMemtable g t) = g_reqs g"
| "members (LeaderWritingMemtable g t) = g_reqs g"
| "members (LeaderApplied g t) = g_reqs g"
| "members (LeaderReleasingTicket g t) = g_reqs g"
| "members (LeaderFinishingWrite g) = g_reqs g"
| "members (Dropping gs res) = guard_members gs"
| "members _ = []"

text \<open>A request that waits for a group or for its outcome.\<close>

definition pending :: "(nat \<Rightarrow> phase) \<Rightarrow> results \<Rightarrow> nat \<Rightarrow> bool" where
  "pending ph c r \<longleftrightarrow>
     (ph r = SeekingMembership \<or> ph r = FollowerWaitingCompletion) \<and> (c r = None \<or> c r = Some (Inr Follower))"

text \<open>
  Every pending request is in the queue or in exactly one group, and groups and queue hold
  nothing else but the leaders themselves; what is in the queue has not been told anything.
\<close>

definition group_inv :: "(nat \<Rightarrow> phase) \<Rightarrow> write_syncs \<Rightarrow> results \<Rightarrow> bool" where
  "group_inv ph y c \<longleftrightarrow>
     distinct (write_queue y) \<and> (\<forall>w. distinct (members (ph w)))
     \<and> (\<forall>w w'. w \<noteq> w' \<longrightarrow> set (members (ph w)) \<inter> set (members (ph w')) = {})
     \<and> (\<forall>w. set (write_queue y) \<inter> set (members (ph w)) = {})
     \<and> (\<forall>r \<in> set (write_queue y). ph r = SeekingMembership \<and> c r = None)
     \<and> (\<forall>w. \<forall>r \<in> set (members (ph w)). r = w \<or> pending ph c r)
     \<and> (\<forall>w g rs. ph w = LeaderAnnouncing g rs \<longrightarrow> set rs \<subseteq> set (g_reqs g))
     \<and> (\<forall>r. pending ph c r \<longrightarrow> r \<in> set (write_queue y) \<or> (\<exists>w. r \<in> set (members (ph w))))
     \<and> (\<forall>w. ph w = WaitingToBeQueued \<longrightarrow> c w = None)"

fun seeks :: "phase \<Rightarrow> bool" where
  "seeks SeekingMembership = True"
| "seeks FollowerWaitingCompletion = True"
| "seeks _ = False"

lemma pending_seeks: "pending ph c r \<longleftrightarrow> seeks (ph r) \<and> (c r = None \<or> c r = Some (Inr Follower))"
  by (cases "ph r") (auto simp: pending_def)

lemma ctl_groups:
  assumes "ctl fl w q y c p y' c'" "shape_ok fl q"
  shows "(\<not> seeks q \<and> \<not> seeks p \<and> q \<noteq> WaitingToBeQueued \<and> members p = members q \<and> write_queue y' = write_queue y \<and> c' = c
        \<and> (\<forall>g rs. p \<noteq> LeaderAnnouncing g rs))
    \<or> (q = WaitingToBeQueued \<and> p = SeekingMembership \<and> write_queue y' = write_queue y @ [w] \<and> c' = c)
    \<or> (seeks q \<and> p = FollowerWaitingCompletion \<and> c w = Some (Inr Follower) \<and> write_queue y' = write_queue y \<and> c' = c(w := None))
    \<or> (seeks q \<and> (\<exists>res. p = Returned res) \<and> c w \<noteq> None \<and> c w \<noteq> Some (Inr Follower) \<and> write_queue y' = write_queue y \<and> c' = c(w := None))
    \<or> (q = SeekingMembership \<and> c w = None \<and> (\<exists>rest. write_queue y = w # rest \<and>
          p = LeaderAnnouncing \<lparr>g_reqs = w # rest, committed_lsn = None\<rparr> (w # rest)) \<and> write_queue y' = [] \<and> c' = c)
    \<or> (\<exists>g r rs. q = LeaderAnnouncing g (r # rs) \<and> p = LeaderAnnouncing g rs \<and> write_queue y' = write_queue y
          \<and> c' = c(r \<mapsto> Inr Follower))
    \<or> (\<exists>r rs out. \<not> seeks q \<and> \<not> seeks p \<and> q \<noteq> WaitingToBeQueued \<and> members q = r # rs \<and> members p = rs
          \<and> write_queue y' = write_queue y \<and> out \<noteq> Inr Follower \<and> c' = c(r \<mapsto> out)
          \<and> (\<forall>g rs. p \<noteq> LeaderAnnouncing g rs))"
  using assms by (cases rule: ctl.cases) (auto simp: group_outcome_def split: option.splits)

lemma group_invD:
  assumes "group_inv ph y c"
  shows "distinct (write_queue y)" "distinct (members (ph w))"
    "w \<noteq> w' \<Longrightarrow> r \<in> set (members (ph w)) \<Longrightarrow> r \<notin> set (members (ph w'))"
    "r \<in> set (write_queue y) \<Longrightarrow> r \<notin> set (members (ph w))"
    "r \<in> set (write_queue y) \<Longrightarrow> ph r = SeekingMembership \<and> c r = None"
    "r \<in> set (members (ph w)) \<Longrightarrow> r = w \<or> pending ph c r"
    "ph w = LeaderAnnouncing g rs \<Longrightarrow> set rs \<subseteq> set (g_reqs g)"
    "pending ph c r \<Longrightarrow> r \<in> set (write_queue y) \<or> (\<exists>w. r \<in> set (members (ph w)))"
    "ph w = WaitingToBeQueued \<Longrightarrow> c w = None"
  using assms unfolding group_inv_def by blast+

text \<open>Changing a writer outside the queue and the groups of others.\<close>

lemma group_inv_quiet:
  assumes "group_inv ph y c" "\<not> seeks (ph w)" "\<not> seeks p" "ph w \<noteq> WaitingToBeQueued" "p \<noteq> WaitingToBeQueued"
    and "members p = members (ph w)" "write_queue y' = write_queue y" "\<forall>g rs. p \<noteq> LeaderAnnouncing g rs"
  shows "group_inv (ph(w := p)) y' c"
proof -
  note I = group_invD [OF assms(1)]
  have m: "members ((ph(w := p)) u) = members (ph u)" for u using assms(6) by simp
  have pend: "pending (ph(w := p)) c r = pending ph c r" for r using assms(2,3) by (simp add: pending_seeks)
  have "ph r = SeekingMembership \<Longrightarrow> (ph(w := p)) r = SeekingMembership" for r using assms(2) by auto
  then show ?thesis
    unfolding group_inv_def m pend assms(7) using I assms(5,8) by (auto split: if_splits)
qed

lemma group_inv_queue:
  assumes "group_inv ph y c" "ph w = WaitingToBeQueued" "write_queue y' = write_queue y @ [w]"
  shows "group_inv (ph(w := SeekingMembership)) y' c"
proof -
  note I = group_invD [OF assms(1)]
  have m: "members ((ph(w := SeekingMembership)) u) = members (ph u)" for u using assms(2) by simp
  have w: "w \<notin> set (write_queue y)" "w \<notin> set (members (ph u))" for u
    using I(5) I(6) assms(2) by (force simp: pending_seeks)+
  have pend: "pending (ph(w := SeekingMembership)) c r \<longleftrightarrow> r = w \<or> pending ph c r" for r
    using assms(2) I(9) [OF assms(2)] by (simp add: pending_seeks)
  show ?thesis
    unfolding group_inv_def m pend assms(3) using I(1-5,7-9) w assms(2) I(9) [OF assms(2)]
    by (auto split: if_splits dest: I(6))
qed

lemma group_inv_take_follow:
  assumes "group_inv ph y c" "seeks (ph w)" "c w = Some (Inr Follower)" "write_queue y' = write_queue y"
  shows "group_inv (ph(w := FollowerWaitingCompletion)) y' (c(w := None))"
proof -
  note I = group_invD [OF assms(1)]
  have m: "members ((ph(w := FollowerWaitingCompletion)) u) = members (ph u)" for u
    using assms(2) by (cases "ph w") auto
  have w: "w \<notin> set (write_queue y)" using I(5) assms(3) by fastforce
  have pend: "pending (ph(w := FollowerWaitingCompletion)) (c(w := None)) r \<longleftrightarrow> pending ph c r" for r
    using assms(2,3) by (simp add: pending_seeks)
  show ?thesis
    unfolding group_inv_def m pend assms(4) using I(1-5,7-9) w by (auto split: if_splits dest: I(6))
qed

lemma group_inv_take_done:
  assumes "group_inv ph y c" "seeks (ph w)" "c w \<noteq> None" "c w \<noteq> Some (Inr Follower)" "write_queue y' = write_queue y"
  shows "group_inv (ph(w := Returned res)) y' (c(w := None))"
proof -
  note I = group_invD [OF assms(1)]
  have m: "members ((ph(w := Returned res)) u) = members (ph u)" for u
    using assms(2) by (cases "ph w") auto
  have "w \<notin> set (members (ph u))" for u
    using I(6) [of w u] assms(2-4) by (cases "ph w") (auto simp: pending_seeks)
  moreover have "w \<notin> set (write_queue y)" using I(5) assms(3) by fastforce
  moreover have "pending (ph(w := Returned res)) (c(w := None)) r \<longleftrightarrow> pending ph c r" for r
    using assms(2-4) by (simp add: pending_seeks)
  ultimately show ?thesis
    unfolding group_inv_def m assms(5) using I(1-5,7-9) by (auto split: if_splits dest: I(6))
qed

lemma group_inv_lead:
  assumes "group_inv ph y c" "ph w = SeekingMembership" "write_queue y = w # rest" "write_queue y' = []"
  shows "group_inv (ph(w := LeaderAnnouncing \<lparr>g_reqs = w # rest, committed_lsn = None\<rparr> (w # rest))) y' c"
    (is "group_inv ?ph y' c")
proof -
  note I = group_invD [OF assms(1)]
  have m: "members (?ph u) = (if u = w then w # rest else members (ph u))" for u by simp
  have none: "members (ph w) = []" by (simp add: assms(2))
  have q: "r \<in> set (w # rest) \<Longrightarrow> ph r = SeekingMembership \<and> c r = None \<and> r \<notin> set (members (ph u))" for r u
    using I(4,5) assms(3) by metis
  have pend: "pending ?ph c r \<longleftrightarrow> r \<noteq> w \<and> pending ph c r" for r by (simp add: pending_seeks)
  have dist: "distinct (w # rest)" using I(1) assms(3) by simp
  show ?thesis
    unfolding group_inv_def m pend assms(4)
  proof (intro conjI allI impI ballI)
    show "r = u \<or> r \<noteq> w \<and> pending ph c r" if "r \<in> set (if u = w then w # rest else members (ph u))" for u r
      using that q [of r u] q [of w u] I(6) [of r u] by (auto simp: pending_seeks split: if_splits)
    show "set (if u = w then w # rest else members (ph u)) \<inter> set (if u' = w then w # rest else members (ph u')) = {}"
      if "u \<noteq> u'" for u u'
    proof -
      have "r \<notin> set (members (ph v))" if "r \<in> set (w # rest)" for r v using q [OF that] by blast
      then show ?thesis using I(3) that by (cases "u = w"; cases "u' = w") auto
    qed
    show "r \<in> set [] \<or> (\<exists>u. r \<in> set (if u = w then w # rest else members (ph u)))" if "r \<noteq> w \<and> pending ph c r" for r
    proof -
      from I(8) [of r] that have "r \<in> set (w # rest) \<or> (\<exists>u. r \<in> set (members (ph u)))" unfolding assms(3) by blast
      with none show ?thesis by (metis empty_iff list.set(1))
    qed
  qed (use I dist in \<open>auto split: if_splits\<close>)
qed

lemma group_inv_announce:
  assumes "group_inv ph y c" "ph w = LeaderAnnouncing g (r # rs)" "write_queue y' = write_queue y"
  shows "group_inv (ph(w := LeaderAnnouncing g rs)) y' (c(r \<mapsto> Inr Follower))" (is "group_inv ?ph y' ?c")
proof -
  note I = group_invD [OF assms(1)]
  have m: "members (?ph u) = members (ph u)" for u using assms(2) by simp
  have r: "r \<in> set (members (ph w))" using I(7) [OF assms(2)] assms(2) by simp
  have seeks: "seeks (?ph u) = seeks (ph u)" "?ph u = SeekingMembership \<longleftrightarrow> ph u = SeekingMembership"
    "?ph u = WaitingToBeQueued \<longleftrightarrow> ph u = WaitingToBeQueued" for u using assms(2) by auto
  have "r = w \<or> pending ph c r" using I(6) [OF r] .
  then have pend: "pending ?ph ?c u \<longleftrightarrow> pending ph c u" for u
    using assms(2) by (auto simp: pending_seeks)
  have rq: "r \<notin> set (write_queue y)" "ph r \<noteq> WaitingToBeQueued"
    using I(4) [of r w] r \<open>r = w \<or> pending ph c r\<close> assms(2) by (auto simp: pending_seeks)
  have "set rs \<subseteq> set (g_reqs g)" using I(7) [OF assms(2)] by simp
  then show ?thesis
    unfolding group_inv_def m pend assms(3) seeks using I(1-5,7-9) rq by (auto split: if_splits dest: I(6))
qed

lemma group_inv_tell:
  assumes "group_inv ph y c" "\<not> seeks (ph w)" "\<not> seeks p" "ph w \<noteq> WaitingToBeQueued" "p \<noteq> WaitingToBeQueued"
    and "members (ph w) = r # rs" "members p = rs" "write_queue y' = write_queue y" "out \<noteq> Inr Follower"
    and "\<forall>g rs. p \<noteq> LeaderAnnouncing g rs"
  shows "group_inv (ph(w := p)) y' (c(r \<mapsto> out))" (is "group_inv ?ph y' ?c")
proof -
  note I = group_invD [OF assms(1)]
  have m: "members (?ph u) = (if u = w then rs else members (ph u))" for u using assms(7) by simp
  have r: "r \<in> set (members (ph w))" by (simp add: assms(6))
  have sub: "u \<in> set (members (?ph v)) \<Longrightarrow> u \<in> set (members (ph v)) \<and> u \<noteq> r" for u v
    using I(2) [of w] I(3) [of w v r] assms(6,7) by (auto split: if_splits)
  have pend: "pending ?ph ?c u \<longleftrightarrow> u \<noteq> r \<and> pending ph c u" for u
    using assms(2,3,9) by (auto simp: pending_seeks)
  have wait: "?ph u = WaitingToBeQueued \<longleftrightarrow> ph u = WaitingToBeQueued" "?ph u = SeekingMembership \<longleftrightarrow> ph u = SeekingMembership" for u
    using assms(2-5) by auto
  have "ph r \<noteq> WaitingToBeQueued" "r \<notin> set (write_queue y)"
    using I(4) [of r w] I(6) [OF r] r assms(2,4) by (auto simp: pending_seeks)
  show ?thesis
    unfolding group_inv_def assms(8) wait
  proof (intro conjI allI impI ballI)
    show "distinct (members (?ph u))" for u using I(2) [of u] I(2) [of w] assms(6,7) by simp
    show "set (members (?ph u)) \<inter> set (members (?ph u')) = {}" if "u \<noteq> u'" for u u'
      using sub [of _ u] sub [of _ u'] I(3) [OF that] by blast
    show "set (write_queue y) \<inter> set (members (?ph u)) = {}" for u using sub [of _ u] I(4) [of _ u] by blast
    show "u = v \<or> pending ?ph ?c u" if "u \<in> set (members (?ph v))" for u v
      using sub [OF that] I(6) [of u v] by (simp add: pend)
    show "u \<in> set (write_queue y) \<or> (\<exists>v. u \<in> set (members (?ph v)))" if "pending ?ph ?c u" for u
    proof -
      from that I(8) [of u] have "u \<noteq> r" "u \<in> set (write_queue y) \<or> (\<exists>v. u \<in> set (members (ph v)))" by (simp_all add: pend)
      moreover have "u \<in> set (members (?ph v))" if "u \<in> set (members (ph v))" "u \<noteq> r" for v
        using that assms(6,7) by auto
      ultimately show ?thesis by blast
    qed
  qed (use I(1,5,7,9) \<open>ph r \<noteq> WaitingToBeQueued\<close> \<open>r \<notin> set (write_queue y)\<close> assms(10) in \<open>auto split: if_splits\<close>)
qed

lemma ctl_started:
  assumes "ctl fl w q y c p y' c'"
  shows "p \<noteq> WaitingToBeQueued"
  using assms by (cases rule: ctl.cases) auto

lemma group_inv_step:
  assumes "group_inv ph y c" "shape_ok fl (ph w)" "ctl fl w (ph w) y c p y' c'"
  shows "group_inv (ph(w := p)) y' c'"
  using ctl_groups [OF assms(3,2)]
proof (elim disjE conjE exE, goal_cases)
  case 1
  then show ?case using group_inv_quiet [OF assms(1), of w p y'] ctl_started [OF assms(3)] by simp
next
  case 2
  then show ?case using group_inv_queue [OF assms(1)] by simp
next
  case 3
  then show ?case using group_inv_take_follow [OF assms(1)] by simp
next
  case (4 res)
  then show ?case using group_inv_take_done [OF assms(1)] by simp
next
  case (5 rest)
  then show ?case using group_inv_lead [OF assms(1)] by simp
next
  case (6 g r rs)
  then show ?case using group_inv_announce [OF assms(1)] by simp
next
  case (7 r rs out)
  then show ?case using ctl_started [OF assms(3)] group_inv_tell [OF assms(1), of w p r rs y' out] by simp
qed

interpretation groups: protocol_invariant fl "\<lambda>ph y c. shapes_ok fl ph \<and> group_inv ph y c" for fl
proof
  show "shapes_ok fl (\<lambda>_. WaitingToBeQueued) \<and> group_inv (\<lambda>_. WaitingToBeQueued) (write_syncs_new l) (\<lambda>_. None)" for l
    by (simp add: shapes_ok_def group_inv_def write_syncs_new_def pending_def)
  show "shapes_ok fl (ph(w := p)) \<and> group_inv (ph(w := p)) y' c'"
    if "shapes_ok fl ph \<and> group_inv ph y c" "ctl fl w (ph w) y c p y' c'" for ph y c w p y' c'
    using that(1) shapes.keep [OF conjunct1 [OF that(1)] that(2)] group_inv_step [of ph y c fl w p y' c'] that(2) by (simp add: shapes_ok_def)
qed

subsection \<open>Progress\<close>

fun returned :: "phase \<Rightarrow> bool" where
  "returned (Returned res) = True"
| "returned _ = False"

text \<open>A writer that has begun and not returned.\<close>

definition active :: "'m sys \<Rightarrow> nat \<Rightarrow> bool" where
  "active s w \<longleftrightarrow> sys_phase s w \<noteq> WaitingToBeQueued \<and> \<not> returned (sys_phase s w)"

lemma step_blocked:
  assumes "active s w" "writer_step crc sm env w s = None"
  shows "sys_phase s w = SeekingMembership \<and> result_of s w = None \<and> (\<forall>rest. write_queue (sync_of s) \<noteq> w # rest)
    \<or> sys_phase s w = FollowerWaitingCompletion \<and> result_of s w = None
    \<or> (\<exists>g. sys_phase s w = LeaderWaitingToWriteWal g) \<and> wal_busy (sync_of s)
    \<or> (\<exists>g t. sys_phase s w = LeaderWaitingToWriteMemtable g t \<and> ticket_to_mem (sync_of s) \<noteq> t)"
  using assms
  by (cases "sys_phase s w")
    (auto simp: active_def writer_step_def step_seek_def step_follow_def step_wait_wal_def step_wait_memtable_def
      result_of_def form_write_group_def Let_def
      split: option.splits sum.splits completion.splits list.splits if_splits)

lemma protocol_progress:
  assumes "run False crc sm s0 tr s" "idle s0" "active s w"
  shows "\<exists>u. active s u \<and> writer_step crc sm env u s \<noteq> None"
proof (rule ccontr)
  assume "\<nexists>u. active s u \<and> writer_step crc sm env u s \<noteq> None"
  then have stuck: "active s u \<Longrightarrow> writer_step crc sm env u s = None" for u by blast
  let ?ph = "sys_phase s" and ?y = "sync_of s" and ?c = "result_of s"
  have G: "group_inv ?ph ?y ?c" and W: "wal_inv ?ph ?y" and T: "ticket_inv ?ph ?y" and O: "order_inv ?ph ?y"
    using groups.run_keeps [OF assms(1,2)] wal_stage.run_keeps [OF assms(1,2)] order.run_keeps [OF assms(1,2)] by blast+
  have wal: "\<not> holds_wal (?ph u)" for u
    using step_blocked [OF _ stuck, of u] by (cases "?ph u") (auto simp: active_def)
  then have free: "\<not> wal_busy ?y" using W by (simp add: wal_inv_def)
  have queue: "write_queue ?y = []"
  proof (cases "write_queue ?y")
    case (Cons f rest)
    then have "?ph f = SeekingMembership" "?c f = None" using group_invD(5) [OF G, of f] by simp_all
    with Cons step_blocked [OF _ stuck, of f] show ?thesis by (auto simp: active_def)
  qed simp
  have tickets: "ticket (?ph u) = None" for u
  proof (cases "ticket (?ph u)")
    case (Some t)
    then have "ticket_to_mem ?y \<le> t" "t < next_ticket ?y" using T O by (auto simp: order_inv_def ticket_inv_def)
    then obtain v where v: "ticket (?ph v) = Some (ticket_to_mem ?y)"
      using O by (meson order_inv_def le_refl order.strict_trans1)
    then have "active s v" by (cases "?ph v") (auto simp: active_def)
    with v step_blocked [OF this stuck] show ?thesis by auto
  qed simp
  have leader: "members (?ph u) = []" for u
  proof (rule ccontr)
    assume "members (?ph u) \<noteq> []"
    then have "active s u" by (cases "?ph u") (auto simp: active_def)
    from step_blocked [OF this stuck [OF this]] free tickets [of u] \<open>members (?ph u) \<noteq> []\<close> show False by auto
  qed
  from step_blocked [OF assms(3) stuck [OF assms(3)]] free tickets [of w] have "pending ?ph ?c w"
    by (auto simp: pending_def)
  from group_invD(8) [OF G this] queue leader show False by simp
qed

subsection \<open>What the trace says\<close>

text \<open>The batches that went to the log and to the memtable, with their tickets, in order.\<close>

fun logs :: "event list \<Rightarrow> (nat \<times> entry list) list" where
  "logs [] = []"
| "logs (Logged t es # tr) = (t, es) # logs tr"
| "logs (_ # tr) = logs tr"

fun apps :: "event list \<Rightarrow> (nat \<times> entry list) list" where
  "apps [] = []"
| "apps (Applied t es # tr) = (t, es) # apps tr"
| "apps (_ # tr) = apps tr"

lemma logs_append [simp]: "logs (tr @ tr') = logs tr @ logs tr'"
  by (induction tr rule: logs.induct) auto

lemma apps_append [simp]: "apps (tr @ tr') = apps tr @ apps tr'"
  by (induction tr rule: apps.induct) auto

fun logging :: "phase \<Rightarrow> (group \<times> nat \<times> u64) option" where
  "logging (LeaderLogging g t l) = Some (g, t, l)"
| "logging _ = None"

fun to_apply :: "phase \<Rightarrow> (group \<times> nat) option" where
  "to_apply (LeaderReleasingWal g t) = Some (g, t)"
| "to_apply (LeaderWaitingToWriteMemtable g t) = Some (g, t)"
| "to_apply (LeaderWritingMemtable g t) = Some (g, t)"
| "to_apply _ = None"

fun was_applied :: "phase \<Rightarrow> bool" where
  "was_applied (LeaderApplied g t) = True"
| "was_applied (LeaderReleasingTicket g t) = True"
| "was_applied (Dropping (GroupGuard g rs # TicketGuard t # gs) res) = True"
| "was_applied (Dropping (TicketGuard t # gs) res) = True"
| "was_applied _ = False"

definition entry_of :: "'m sys \<Rightarrow> nat \<Rightarrow> entry" where
  "entry_of s r = request_entry (sys_reqs s r)"

lemma group_entries_of: "group_entries s g = map (entry_of s) (g_reqs g)"
  by (simp add: group_entries_def entry_of_def)

lemma entry_of_simps [simp]:
  "entry_of (goto w p s) = entry_of s" "entry_of (with_sync h s) = entry_of s" "entry_of (set_result r c s) = entry_of s"
  by (simp_all add: entry_of_def fun_eq_iff)

lemma entry_of_cong [simp]:
  "entry_of (s\<lparr>sys_db := d\<rparr>) = entry_of s" "entry_of (s\<lparr>sys_fs := f\<rparr>) = entry_of s"
  by (simp_all add: entry_of_def fun_eq_iff)

definition same_counters :: "write_syncs \<Rightarrow> write_syncs \<Rightarrow> bool" where
  "same_counters y y' \<longleftrightarrow> next_ticket y' = next_ticket y \<and> ticket_to_mem y' = ticket_to_mem y \<and> ws_next_lsn y' = ws_next_lsn y"

text \<open>The LSNs a group gets.\<close>

lemma assign_lsns_entries:
  "distinct rs \<Longrightarrow> map (\<lambda>r. lsn (rq_key (assign_lsns l rs reqs r))) rs = map (\<lambda>i. l + of_nat i) [0..<length rs]"
proof (induction l rs reqs rule: assign_lsns.induct)
  case (2 l r rs reqs)
  let ?reqs = "reqs(r := (reqs r)\<lparr>rq_key := key_update_lsn (rq_key (reqs r)) l\<rparr>)"
  have "map (\<lambda>r'. lsn (rq_key (assign_lsns (l + 1) rs ?reqs r'))) rs = map (\<lambda>i. l + 1 + of_nat i) [0..<length rs]"
    using 2 by (simp only: distinct.simps)
  also have "\<dots> = map (\<lambda>i. l + of_nat i) [1..<Suc (length rs)]"
    by (simp add: map_Suc_upt [symmetric] ac_simps del: map_Suc_upt upt_Suc)
  moreover have "lsn (rq_key (assign_lsns (l + 1) rs ?reqs r)) = l"
    using 2(2) by (simp add: assign_lsns_other key_update_lsn_def)
  moreover have "[0..<length (r # rs)] = 0 # [1..<Suc (length rs)]" by (simp add: upt_rec [of 0] del: upt_Suc)
  ultimately show ?case by (simp only: assign_lsns.simps list.map) simp
qed simp

lemma writer_step_trace:
  assumes "writer_step crc sm env w s = Some s'" "wal_fault env = None" "shape_ok False (sys_phase s w)"
  shows "(step_events w s s' = [] \<and> logging (sys_phase s w) = None \<and> logging (sys_phase s' w) = None
        \<and> to_apply (sys_phase s' w) = to_apply (sys_phase s w) \<and> was_applied (sys_phase s' w) = was_applied (sys_phase s w)
        \<and> same_counters (sync_of s) (sync_of s') \<and> entry_of s' = entry_of s)
    \<or> (\<exists>g. sys_phase s w = LeaderWritingWal g \<and> step_events w s s' = []
        \<and> sys_phase s' w = LeaderLogging g (next_ticket (sync_of s)) (ws_next_lsn (sync_of s))
        \<and> next_ticket (sync_of s') = Suc (next_ticket (sync_of s)) \<and> ticket_to_mem (sync_of s') = ticket_to_mem (sync_of s)
        \<and> ws_next_lsn (sync_of s') = ws_next_lsn (sync_of s) + of_nat (length (g_reqs g)) \<and> entry_of s' = entry_of s)
    \<or> (\<exists>g t l. sys_phase s w = LeaderLogging g t l \<and> sys_phase s' w = LeaderReleasingWal (g\<lparr>committed_lsn := Some l\<rparr>) t
        \<and> step_events w s s' = [Logged t (group_entries s' g)] \<and> same_counters (sync_of s) (sync_of s')
        \<and> sys_reqs s' = assign_lsns l (g_reqs g) (sys_reqs s))
    \<or> (\<exists>g t. sys_phase s w = LeaderWritingMemtable g t \<and> sys_phase s' w = LeaderApplied g t
        \<and> step_events w s s' = [Applied t (group_entries s g)] \<and> same_counters (sync_of s) (sync_of s') \<and> entry_of s' = entry_of s)
    \<or> (was_applied (sys_phase s w) \<and> \<not> was_applied (sys_phase s' w) \<and> to_apply (sys_phase s' w) = None
        \<and> logging (sys_phase s' w) = None \<and> step_events w s s' = []
        \<and> next_ticket (sync_of s') = next_ticket (sync_of s) \<and> ticket_to_mem (sync_of s') = Suc (ticket_to_mem (sync_of s))
        \<and> ws_next_lsn (sync_of s') = ws_next_lsn (sync_of s) \<and> entry_of s' = entry_of s)"
proof (cases "sys_phase s w")
  case SeekingMembership
  then show ?thesis
    using assms
    by (auto simp: writer_step_def step_seek_def form_write_group_def Let_def step_events_def same_counters_def
        split: option.splits sum.splits completion.splits list.splits if_splits)
next
  case FollowerWaitingCompletion
  then show ?thesis
    using assms
    by (auto simp: writer_step_def step_follow_def Let_def step_events_def same_counters_def
        split: option.splits sum.splits completion.splits)
next
  case (LeaderAnnouncing g rs)
  then show ?thesis using assms by (cases rs) (auto simp: writer_step_def step_events_def same_counters_def)
next
  case (LeaderLogging g t l)
  then show ?thesis
    using assms by (auto simp: writer_step_def step_log_def Let_def step_events_def same_counters_def sync_of_def)
next
  case (LeaderApplied g t)
  have "sync_of (s\<lparr>sys_db := (sys_db s)\<lparr>db_manifest := m, db_current := v\<rparr>, sys_fs := f\<rparr>) = sync_of s" for f m v
    by (simp add: sync_of_def)
  then show ?thesis
    using assms LeaderApplied
    by (auto simp: writer_step_def step_rotate_def Let_def step_events_def same_counters_def
        split: sum.splits prod.splits if_splits)
next
  case (LeaderWritingMemtable g t)
  have "sync_of (s\<lparr>sys_db := (sys_db s)\<lparr>db_current := v\<rparr>\<rparr>) = sync_of s" for v
    by (simp add: sync_of_def)
  then show ?thesis
    using assms LeaderWritingMemtable by (auto simp: writer_step_def step_apply_def step_events_def same_counters_def)
next
  case (Dropping gs res)
  then show ?thesis
    using assms
    by (cases "(w, gs, res, s)" rule: step_drop.cases)
      (auto simp: writer_step_def step_events_def same_counters_def drop_wal_guard_def drop_ticket_guard_def)
qed (use assms in \<open>auto simp: writer_step_def step_queue_def step_wait_wal_def step_ticket_def step_wait_memtable_def
      step_finish_def drop_wal_guard_def drop_ticket_guard_def Let_def step_events_def same_counters_def split: if_splits\<close>)

text \<open>
  In a run without log faults: tickets number the log writes; the batches applied are the first
  ones logged, in the same order; the LSNs of the log are consecutive. A group on its way to
  the memtable still is what was logged for it.
\<close>

definition logged_count :: "event list \<Rightarrow> nat" where
  "logged_count tr = sum_list (map (\<lambda>(t, es). length es) (logs tr))"

definition log_inv :: "u64 \<Rightarrow> event list \<Rightarrow> 'm sys \<Rightarrow> bool" where
  "log_inv l0 tr s \<longleftrightarrow>
     map fst (logs tr) = [0..<length (logs tr)]
     \<and> map (\<lambda>e. lsn (fst e)) (concat (map snd (logs tr))) = map (\<lambda>i. l0 + of_nat i) [0..<logged_count tr]
     \<and> (\<forall>w g t l. logging (sys_phase s w) = Some (g, t, l) \<longrightarrow>
          t = length (logs tr) \<and> next_ticket (sync_of s) = Suc t \<and> l = l0 + of_nat (logged_count tr)
          \<and> ws_next_lsn (sync_of s) = l + of_nat (length (g_reqs g)))
     \<and> ((\<forall>w. logging (sys_phase s w) = None) \<longrightarrow>
          next_ticket (sync_of s) = length (logs tr) \<and> ws_next_lsn (sync_of s) = l0 + of_nat (logged_count tr))
     \<and> (\<forall>w g t. to_apply (sys_phase s w) = Some (g, t) \<longrightarrow>
          t < length (logs tr) \<and> logs tr ! t = (t, group_entries s g))"

definition app_inv :: "event list \<Rightarrow> 'm sys \<Rightarrow> bool" where
  "app_inv tr s \<longleftrightarrow>
     apps tr = take (length (apps tr)) (logs tr)
     \<and> (\<forall>w. was_applied (sys_phase s w) \<longrightarrow> length (apps tr) = Suc (ticket_to_mem (sync_of s)))
     \<and> ((\<forall>w. \<not> was_applied (sys_phase s w)) \<longrightarrow> length (apps tr) = ticket_to_mem (sync_of s))"

definition protocol_ok :: "'m sys \<Rightarrow> bool" where
  "protocol_ok s \<longleftrightarrow>
     shapes_ok False (sys_phase s) \<and> wal_inv (sys_phase s) (sync_of s) \<and> ticket_inv (sys_phase s) (sync_of s)
     \<and> order_inv (sys_phase s) (sync_of s) \<and> group_inv (sys_phase s) (sync_of s) (result_of s)"

lemma run_protocol_ok: "run False crc sm s0 tr s \<Longrightarrow> idle s0 \<Longrightarrow> protocol_ok s"
  unfolding protocol_ok_def
  using groups.run_keeps wal_stage.run_keeps order.run_keeps by blast

lemma logging_holds_wal: "logging p = Some x \<Longrightarrow> holds_wal p"
  by (cases p) auto

lemma was_applied_holds_mem: "was_applied p \<Longrightarrow> shape_ok False p \<Longrightarrow> holds_mem p"
  by (cases p rule: was_applied.cases) auto

lemma logging_members: "logging p = Some (g, t, l) \<Longrightarrow> members p = g_reqs g"
  by (cases p) auto

lemma to_apply_members: "to_apply p = Some (g, t) \<Longrightarrow> members p = g_reqs g"
  by (cases p) auto

text \<open>Only one writer holds the log, and only one is in the memtable stage.\<close>

lemma logging_unique:
  "protocol_ok s \<Longrightarrow> logging (sys_phase s w) = Some a \<Longrightarrow> holds_wal (sys_phase s u) \<Longrightarrow> u = w"
  by (auto simp: protocol_ok_def wal_inv_def dest: logging_holds_wal)

lemma mem_unique:
  assumes "protocol_ok s" "holds_mem (sys_phase s w)" "holds_mem (sys_phase s u)"
  shows "u = w"
  using assms unfolding protocol_ok_def order_inv_def ticket_inv_def by metis

lemma sys_phase_step:
  assumes "writer_step crc sm env w s = Some s'"
  shows "u \<noteq> w \<Longrightarrow> sys_phase s' u = sys_phase s u"
  using writer_step_ctl [OF assms, of True] by (metis fun_upd_other)

lemma consecutive_append:
  fixes l :: u64
  shows "map (\<lambda>i. l + of_nat i) [0..<n] @ map (\<lambda>i. l + of_nat n + of_nat i) [0..<m] = map (\<lambda>i. l + of_nat i) [0..<n + m]"
  by (induction m) (simp_all add: ac_simps)

lemma log_inv_step:
  assumes inv: "log_inv l0 tr s" and ok: "protocol_ok s"
    and step: "writer_step crc sm env w s = Some s'" "wal_fault env = None"
  shows "log_inv l0 (tr @ step_events w s s') s'"
proof -
  note other = sys_phase_step [OF step(1)]
  have sh: "shape_ok False (sys_phase s w)" using ok by (simp add: protocol_ok_def shapes_ok_def)
  note I = inv [unfolded log_inv_def]
  have lg: "logging (sys_phase s u) = Some (g, t, l) \<Longrightarrow> t = length (logs tr) \<and> next_ticket (sync_of s) = Suc t
      \<and> l = l0 + of_nat (logged_count tr) \<and> ws_next_lsn (sync_of s) = l + of_nat (length (g_reqs g))" for u g t l
    using I by blast
  have ta: "to_apply (sys_phase s u) = Some (g, t) \<Longrightarrow> t < length (logs tr) \<and> logs tr ! t = (t, group_entries s g)" for u g t
    using I by blast
  from writer_step_trace [OF step sh] show ?thesis
  proof (elim disjE exE conjE, goal_cases)
    case 1
    have "logging (sys_phase s' u) = logging (sys_phase s u)" "to_apply (sys_phase s' u) = to_apply (sys_phase s u)" for u
      using 1 other by (cases "u = w"; simp)+
    with I 1 show ?case by (simp add: log_inv_def same_counters_def group_entries_of)
  next
    case (2 g)
    have none: "logging (sys_phase s u) = None" for u
    proof (cases "logging (sys_phase s u)")
      case (Some a)
      from logging_unique [OF ok Some, of w] 2(1) Some show ?thesis by simp
    qed simp
    then have y: "next_ticket (sync_of s) = length (logs tr)" "ws_next_lsn (sync_of s) = l0 + of_nat (logged_count tr)"
      using I by blast+
    have "logging (sys_phase s' u) = (if u = w then Some (g, length (logs tr), l0 + of_nat (logged_count tr)) else None)"
      "to_apply (sys_phase s' u) = to_apply (sys_phase s u)" for u
      using none other 2(1,3) y by (cases "u = w"; simp)+
    with I 2 y show ?case by (auto simp: log_inv_def group_entries_of)
  next
    case (3 g t l)
    let ?es = "group_entries s' g"
    have L: "t = length (logs tr)" "next_ticket (sync_of s) = Suc t" "l = l0 + of_nat (logged_count tr)"
      "ws_next_lsn (sync_of s) = l + of_nat (length (g_reqs g))"
      using lg [of w g t l] 3(1) by auto
    have none: "logging (sys_phase s' u) = None" for u
    proof (cases "u = w")
      case True
      with 3(2) show ?thesis by simp
    next
      case False
      with other logging_unique [OF ok, of w "(g, t, l)" u] 3(1) logging_holds_wal show ?thesis
        by (metis logging.simps(1) not_Some_eq)
    qed
    have G: "group_inv (sys_phase s) (sync_of s) (result_of s)" using ok by (simp add: protocol_ok_def)
    have mw: "members (sys_phase s w) = g_reqs g" by (simp add: 3(1))
    have dist: "distinct (g_reqs g)" using group_invD(2) [OF G, of w] mw by simp
    have lsns: "map (\<lambda>e. lsn (fst e)) ?es = map (\<lambda>i. l + of_nat i) [0..<length (g_reqs g)]"
      using assign_lsns_entries [OF dist, of l "sys_reqs s"]
      by (simp add: group_entries_of entry_of_def request_entry_def 3(5) o_def)
    have len: "length ?es = length (g_reqs g)" by (simp add: group_entries_of)
    have cnt: "logged_count (tr @ step_events w s s') = logged_count tr + length (g_reqs g)"
      using 3(3) len by (simp add: logged_count_def)
    have same: "group_entries s' h = group_entries s h" if "to_apply (sys_phase s u) = Some (h, k)" "u \<noteq> w" for u h k
    proof -
      have "r \<notin> set (g_reqs g)" if "r \<in> set (g_reqs h)" for r
        using group_invD(3) [OF G \<open>u \<noteq> w\<close>, of r] to_apply_members [OF \<open>to_apply _ = _\<close>] mw that by simp
      then show ?thesis
        unfolding group_entries_of by (intro map_cong refl) (simp add: entry_of_def request_entry_def 3(5) assign_lsns_other)
    qed
    have "map (\<lambda>e. lsn (fst e)) (concat (map snd (logs tr))) @ map (\<lambda>e. lsn (fst e)) ?es =
        map (\<lambda>i. l0 + of_nat i) [0..<logged_count tr + length (g_reqs g)]"
      using I lsns L(3) consecutive_append [of l0 "logged_count tr" "length (g_reqs g)"] by simp
    moreover have "to_apply (sys_phase s' u) = Some (h, k) \<Longrightarrow>
        k < length (logs tr @ [(t, ?es)]) \<and> (logs tr @ [(t, ?es)]) ! k = (k, group_entries s' h)" for u h k
      using 3(2) other [of u] ta [of u h k] same [of u h k] L(1)
      by (cases "u = w") (auto simp: nth_append group_entries_of)
    ultimately show ?case
      using I 3(3,4) L none cnt
      by (simp add: log_inv_def same_counters_def)
  next
    case (4 g t)
    have "logging (sys_phase s' u) = logging (sys_phase s u)" for u
      using 4 other by (cases "u = w") simp_all
    moreover have "to_apply (sys_phase s' u) = Some (h, k) \<Longrightarrow> k < length (logs tr) \<and> logs tr ! k = (k, group_entries s h)" for u h k
      using 4 other [of u] ta [of u h k] by (cases "u = w") simp_all
    ultimately show ?case using I 4 by (simp add: log_inv_def same_counters_def group_entries_of logged_count_def)
  next
    case 5
    have "logging (sys_phase s w) = None" using 5(1) by (cases "sys_phase s w") auto
    then have "logging (sys_phase s' u) = logging (sys_phase s u)" for u
      using 5 other by (cases "u = w") simp_all
    moreover have "to_apply (sys_phase s' u) = Some (h, k) \<Longrightarrow> k < length (logs tr) \<and> logs tr ! k = (k, group_entries s h)" for u h k
      using 5 other [of u] ta [of u h k] by (cases "u = w") simp_all
    ultimately show ?case using I 5 by (simp add: log_inv_def group_entries_of)
  qed
qed

lemma app_inv_step:
  assumes inv: "app_inv tr s" "log_inv l0 tr s" and ok: "protocol_ok s"
    and step: "writer_step crc sm env w s = Some s'" "wal_fault env = None"
  shows "app_inv (tr @ step_events w s s') s'"
proof -
  note other = sys_phase_step [OF step(1)]
  have shs: "shape_ok False (sys_phase s u)" for u using ok by (simp add: protocol_ok_def shapes_ok_def)
  note I = inv(1) [unfolded app_inv_def]
  let ?A = "apps tr" and ?L = "logs tr"
  have pre: "?A = take (length ?A) ?L" and le: "length ?A \<le> length ?L"
    using I by (auto dest: arg_cong [where f = length])
  have unique: "was_applied (sys_phase s u) \<Longrightarrow> holds_mem (sys_phase s w) \<Longrightarrow> u = w" for u
    using mem_unique [OF ok] was_applied_holds_mem [OF _ shs] by blast
  from writer_step_trace [OF step shs] show ?thesis
  proof (elim disjE exE conjE, goal_cases)
    case 1
    have "was_applied (sys_phase s' u) = was_applied (sys_phase s u)" for u
      using 1 other by (cases "u = w") simp_all
    with I 1 show ?case by (simp add: app_inv_def same_counters_def)
  next
    case (2 g)
    have "was_applied (sys_phase s' u) = was_applied (sys_phase s u)" for u
      using 2 other by (cases "u = w") simp_all
    with I 2 show ?case by (simp add: app_inv_def)
  next
    case (3 g t l)
    have "was_applied (sys_phase s' u) = was_applied (sys_phase s u)" for u
      using 3 other by (cases "u = w") simp_all
    with I 3 le show ?case by (simp add: app_inv_def same_counters_def)
  next
    case (4 g t)
    have none: "\<not> was_applied (sys_phase s u)" for u
      using unique [of u] 4(1) by (cases "u = w") auto
    then have "length ?A = ticket_to_mem (sync_of s)" using I by blast
    moreover have "ticket (sys_phase s w) = Some (ticket_to_mem (sync_of s))"
      using ok 4(1) unfolding protocol_ok_def order_inv_def by (metis holds_mem.simps(1))
    ultimately have t: "length ?A = t" "ticket_to_mem (sync_of s) = t" using 4(1) by auto
    have tl: "t < length ?L" "?L ! t = (t, group_entries s g)"
      using inv(2) 4(1) unfolding log_inv_def by (metis to_apply.simps(3))+
    then have "take (Suc t) ?L = take t ?L @ [(t, group_entries s g)]" by (simp add: take_Suc_conv_app_nth)
    with pre t have A: "apps (tr @ step_events w s s') = take (Suc t) (logs (tr @ step_events w s s'))" by (simp add: 4(3))
    have len: "length (apps (tr @ step_events w s s')) = Suc t" by (simp add: 4(3) t(1))
    have wa: "was_applied (sys_phase s' w)" by (simp add: 4(2))
    have served: "Suc t = Suc (ticket_to_mem (sync_of s'))" using 4(4) t(2) by (simp add: same_counters_def)
    show ?case unfolding app_inv_def len
    proof (intro conjI allI impI)
      show "apps (tr @ step_events w s s') = take (Suc t) (logs (tr @ step_events w s s'))" by (rule A)
      show "Suc t = Suc (ticket_to_mem (sync_of s'))" by (rule served)
      show "Suc t = ticket_to_mem (sync_of s')" if "\<forall>u. \<not> was_applied (sys_phase s' u)" using spec [OF that, of w] wa by (rule notE)
    qed
  next
    case 5
    have "holds_mem (sys_phase s w)" using was_applied_holds_mem [OF 5(1) shs] .
    then have "\<not> was_applied (sys_phase s' u)" for u
      using 5(2) other [of u] unique [of u] by (metis (full_types))
    moreover have "length ?A = Suc (ticket_to_mem (sync_of s))" using I 5(1) by blast
    ultimately show ?case using pre 5 by (simp add: app_inv_def)
  qed
qed

lemma run_log_inv:
  assumes "run False crc sm s0 tr s" "idle s0" "sync_of s0 = write_syncs_new l0"
  shows "log_inv l0 tr s \<and> app_inv tr s"
  using assms
proof (induction rule: run.induct)
  case start
  then show ?case by (simp add: idle_def log_inv_def app_inv_def logged_count_def write_syncs_new_def)
next
  case (writer tr s env w s')
  have f: "wal_fault env = None" using writer.hyps(3) by (simp add: fault_ok_def split: option.splits)
  have ok: "protocol_ok s" using run_protocol_ok [OF writer.hyps(1) writer.prems(1)] .
  from writer.IH [OF writer.prems] show ?case
    using log_inv_step [OF _ ok writer.hyps(2) f] app_inv_step [OF _ _ ok writer.hyps(2) f] by blast
next
  case (worker tr s s')
  then have "sys_phase s' = sys_phase s" "sync_of s' = sync_of s" "entry_of s' = entry_of s"
    by (auto simp: worker_change_def sync_of_def entry_of_def)
  with worker show ?case by (simp add: log_inv_def app_inv_def group_entries_of)
qed

subsection \<open>What an acknowledgement promises\<close>

definition in_log :: "event list \<Rightarrow> entry \<Rightarrow> bool" where
  "in_log tr e \<longleftrightarrow> (\<exists>(t, es) \<in> set (logs tr). e \<in> set es)"

text \<open>An entry put in the memtable after it was logged.\<close>

definition in_memtable :: "event list \<Rightarrow> entry \<Rightarrow> bool" where
  "in_memtable tr e \<longleftrightarrow> (\<exists>tr1 t es tr2. tr = tr1 @ Applied t es # tr2 \<and> e \<in> set es \<and> in_log tr1 e)"

definition written :: "event list \<Rightarrow> 'm sys \<Rightarrow> nat \<Rightarrow> bool" where
  "written tr s r \<longleftrightarrow> in_log tr (entry_of s r) \<and> in_memtable tr (entry_of s r)"

text \<open>The members of a group that is logged, and those of a group that is applied and to be told so.\<close>

fun logged_members :: "phase \<Rightarrow> nat list" where
  "logged_members (LeaderReleasingWal g t) = g_reqs g"
| "logged_members (LeaderWaitingToWriteMemtable g t) = g_reqs g"
| "logged_members (LeaderWritingMemtable g t) = g_reqs g"
| "logged_members _ = []"

fun guard_told :: "guard list \<Rightarrow> nat list" where
  "guard_told [] = []"
| "guard_told (GroupGuard g rs # gs) = (if committed_lsn g = None then [] else rs)"
| "guard_told (_ # gs) = guard_told gs"

fun applied_members :: "phase \<Rightarrow> nat list" where
  "applied_members (LeaderApplied g t) = g_reqs g"
| "applied_members (LeaderReleasingTicket g t) = g_reqs g"
| "applied_members (LeaderFinishingWrite g) = g_reqs g"
| "applied_members (Dropping gs res) = guard_told gs"
| "applied_members _ = []"

text \<open>A leader before it begins to return.\<close>

fun leads :: "phase \<Rightarrow> bool" where
  "leads WaitingToBeQueued = False"
| "leads SeekingMembership = False"
| "leads FollowerWaitingCompletion = False"
| "leads (Dropping gs res) = False"
| "leads (Returned res) = False"
| "leads _ = True"

fun claims_success :: "phase \<Rightarrow> bool" where
  "claims_success (Dropping gs res) = (\<exists>l. res = Inr l)"
| "claims_success (Returned res) = (\<exists>l. res = Inr l)"
| "claims_success _ = False"

text \<open>The group of a leader whose log write is still to come.\<close>

fun pre_log :: "phase \<Rightarrow> group option" where
  "pre_log (LeaderAnnouncing g rs) = Some g"
| "pre_log (LeaderWaitingToWriteWal g) = Some g"
| "pre_log (LeaderWritingWal g) = Some g"
| "pre_log (LeaderLogging g t l) = Some g"
| "pre_log _ = None"

definition success :: "completion result option \<Rightarrow> bool" where
  "success c \<longleftrightarrow> (\<exists>l. c = Some (Inr (Success l)))"

definition ack_inv :: "event list \<Rightarrow> 'm sys \<Rightarrow> bool" where
  "ack_inv tr s \<longleftrightarrow>
     (\<forall>w. \<forall>r \<in> set (logged_members (sys_phase s w)). in_log tr (entry_of s r))
     \<and> (\<forall>w. \<forall>r \<in> set (applied_members (sys_phase s w)). written tr s r)
     \<and> (\<forall>w. claims_success (sys_phase s w) \<longrightarrow> written tr s w)
     \<and> (\<forall>r. success (result_of s r) \<longrightarrow> written tr s r)
     \<and> (\<forall>w. leads (sys_phase s w) \<longrightarrow> w \<in> set (members (sys_phase s w)) \<and> \<not> success (result_of s w))
     \<and> (\<forall>w g. pre_log (sys_phase s w) = Some g \<longrightarrow> committed_lsn g = None)"

lemma in_log_mono: "in_log tr e \<Longrightarrow> in_log (tr @ tr') e"
  by (auto simp: in_log_def)

lemma in_memtable_mono: "in_memtable tr e \<Longrightarrow> in_memtable (tr @ tr') e"
  unfolding in_memtable_def by (metis append.assoc append_Cons)

lemma written_mono: "written tr s r \<Longrightarrow> entry_of s' r = entry_of s r \<Longrightarrow> written (tr @ tr') s' r"
  by (simp add: written_def in_log_mono in_memtable_mono)

text \<open>A step of \<open>w\<close> that leaves the entries outside \<open>w\<close>'s group alone.\<close>

lemma ack_inv_update:
  assumes inv: "ack_inv tr s" and G: "group_inv (sys_phase s) (sync_of s) (result_of s)"
    and ph: "sys_phase s' = (sys_phase s)(w := p)"
    and same: "\<And>r. r \<notin> set (members (sys_phase s w)) \<or> \<not> leads (sys_phase s w) \<Longrightarrow> entry_of s' r = entry_of s r"
    and logged: "\<forall>r \<in> set (logged_members p). in_log (tr @ ev) (entry_of s' r)"
    and applied: "\<forall>r \<in> set (applied_members p). written (tr @ ev) s' r"
    and claim: "claims_success p \<Longrightarrow> written (tr @ ev) s' w"
    and told: "\<And>r. success (result_of s' r) \<Longrightarrow> success (result_of s r) \<or>
        r \<in> set (members (sys_phase s w)) \<and> \<not> leads (sys_phase s w) \<and> \<not> leads p \<and> written (tr @ ev) s' r"
    and lead: "leads p \<Longrightarrow> w \<in> set (members p) \<and> \<not> success (result_of s' w)"
    and pre: "\<And>g. pre_log p = Some g \<Longrightarrow> committed_lsn g = None"
  shows "ack_inv (tr @ ev) s'"
proof -
  note I = inv [unfolded ack_inv_def]
  have own: "r = u \<or> seeks (sys_phase s r) \<and> \<not> success (result_of s r)" if "r \<in> set (members (sys_phase s u))" for r u
    using group_invD(6) [OF G that] by (auto simp: pending_seeks success_def)
  have outside: "entry_of s' r = entry_of s r" if "u \<noteq> w" "r \<in> set (members (sys_phase s u))" for r u
    using group_invD(3) [OF G that] same by blast
  have mem: "set (logged_members q) \<subseteq> set (members q)" "set (applied_members q) \<subseteq> set (members q)" for q
  proof -
    have "set (guard_told gs) \<subseteq> set (guard_members gs)" for gs by (induction gs rule: guard_told.induct) auto
    then show "set (logged_members q) \<subseteq> set (members q)" "set (applied_members q) \<subseteq> set (members q)" by (cases q; auto)+
  qed
  have quiet: "entry_of s' r = entry_of s r" if "\<not> seeks (sys_phase s r)" "r \<noteq> w" for r
    using own [of r w] that same by blast
  have claims: "\<not> seeks q \<and> \<not> leads q" if "claims_success q" for q using that by (cases q) auto
  show ?thesis
    unfolding ack_inv_def ph
  proof (intro conjI allI ballI impI)
    show "in_log (tr @ ev) (entry_of s' r)" if "r \<in> set (logged_members (((sys_phase s)(w := p)) u))" for u r
    proof (cases "u = w")
      case False
      then have m: "r \<in> set (logged_members (sys_phase s u))" using that by simp
      then have "in_log tr (entry_of s r)" using I by blast
      with outside [OF False] m mem(1) show ?thesis by (metis in_log_mono subsetD)
    qed (use that logged in simp)
    show "written (tr @ ev) s' r" if "r \<in> set (applied_members (((sys_phase s)(w := p)) u))" for u r
    proof (cases "u = w")
      case False
      then have m: "r \<in> set (applied_members (sys_phase s u))" using that by simp
      then have "written tr s r" using I by blast
      with outside [OF False] m mem(2) show ?thesis by (metis written_mono subsetD)
    qed (use that applied in simp)
    show "written (tr @ ev) s' u" if "claims_success (((sys_phase s)(w := p)) u)" for u
    proof (cases "u = w")
      case False
      then have c: "claims_success (sys_phase s u)" using that by simp
      then have "written tr s u" using I by blast
      with quiet [of u] claims [OF c] False show ?thesis by (simp add: written_mono)
    qed (use that claim in simp)
    show "written (tr @ ev) s' r" if "success (result_of s' r)" for r
      using told [OF that]
    proof (elim disjE conjE)
      assume s: "success (result_of s r)"
      then have "written tr s r" using I by blast
      moreover have "entry_of s' r = entry_of s r"
      proof (rule same)
        have "r \<notin> set (members (sys_phase s w))" if "leads (sys_phase s w)"
          using own [of r w] s I that by blast
        then show "r \<notin> set (members (sys_phase s w)) \<or> \<not> leads (sys_phase s w)" by blast
      qed
      ultimately show ?thesis by (rule written_mono)
    qed
    have "u \<in> set (members (((sys_phase s)(w := p)) u)) \<and> \<not> success (result_of s' u)"
      if "leads (((sys_phase s)(w := p)) u)" for u
    proof (cases "u = w")
      case False
      with that have l: "leads (sys_phase s u)" by simp
      then have "\<not> seeks (sys_phase s u)" by (cases "sys_phase s u") auto
      with own [of u w] False told [of u] I l show ?thesis by auto
    qed (use that lead in simp)
    then show "leads (((sys_phase s)(w := p)) u) \<Longrightarrow> u \<in> set (members (((sys_phase s)(w := p)) u))"
      and "leads (((sys_phase s)(w := p)) u) \<Longrightarrow> \<not> success (result_of s' u)" for u by blast+
    show "committed_lsn g = None" if "pre_log (((sys_phase s)(w := p)) u) = Some g" for u g
      using that pre [of g] I by (cases "u = w") auto
  qed
qed

lemma writer_step_entries:
  assumes "writer_step crc sm env w s = Some s'"
  shows "(\<forall>g t l. sys_phase s w \<noteq> LeaderLogging g t l) \<and> entry_of s' = entry_of s \<or>
    (\<exists>g t l. sys_phase s w = LeaderLogging g t l \<and> sys_reqs s' = assign_lsns l (g_reqs g) (sys_reqs s)
      \<and> result_of s' = result_of s)"
proof (cases "sys_phase s w")
  case (LeaderLogging g t l)
  then show ?thesis
    using assms by (auto simp: writer_step_def step_log_def Let_def result_of_def split: option.splits prod.splits)
next
  case (LeaderApplied g t)
  then show ?thesis
    using assms by (auto simp: writer_step_def step_rotate_def Let_def split: sum.splits prod.splits if_splits)
next
  case (Dropping gs res)
  then show ?thesis
    using assms by (cases "(w, gs, res, s)" rule: step_drop.cases)
      (auto simp: writer_step_def drop_wal_guard_def drop_ticket_guard_def)
next
  case (LeaderAnnouncing g rs)
  then show ?thesis using assms by (cases rs) (auto simp: writer_step_def)
qed (use assms in \<open>auto simp: writer_step_def step_queue_def step_seek_def step_follow_def step_wait_wal_def step_ticket_def
      step_wait_memtable_def step_apply_def step_finish_def drop_wal_guard_def drop_ticket_guard_def form_write_group_def Let_def
      split: if_splits option.splits sum.splits completion.splits list.splits\<close>)

lemma step_events_logged:
  "sys_phase s w = LeaderLogging g t l \<Longrightarrow> sys_phase s' w = LeaderReleasingWal g' t' \<Longrightarrow> step_events w s s' = [Logged t (group_entries s' g)]"
  by (simp add: step_events_def)

lemma step_events_applied:
  "sys_phase s w = LeaderWritingMemtable g t \<Longrightarrow> step_events w s s' = [Applied t (group_entries s g)]"
  by (simp add: step_events_def)

lemma ack_inv_step:
  assumes inv: "ack_inv tr s" and G: "group_inv (sys_phase s) (sync_of s) (result_of s)"
    and sh: "shape_ok True (sys_phase s w)" and step: "writer_step crc sm env w s = Some s'"
  shows "ack_inv (tr @ step_events w s s') s'"
proof -
  let ?ev = "step_events w s s'"
  from writer_step_ctl [OF step, of True] have ph: "sys_phase s' = (sys_phase s)(w := sys_phase s' w)"
    and C: "ctl True w (sys_phase s w) (sync_of s) (result_of s) (sys_phase s' w) (sync_of s') (result_of s')" by blast+
  have logged: "r \<in> set (logged_members (sys_phase s w)) \<Longrightarrow> in_log tr (entry_of s r)"
    and applied: "r \<in> set (applied_members (sys_phase s w)) \<Longrightarrow> written tr s r"
    and claim: "claims_success (sys_phase s w) \<Longrightarrow> written tr s w"
    and told: "success (result_of s r) \<Longrightarrow> written tr s r"
    and lead: "leads (sys_phase s w) \<Longrightarrow> w \<in> set (members (sys_phase s w)) \<and> \<not> success (result_of s w)"
    and pre: "pre_log (sys_phase s w) = Some g \<Longrightarrow> committed_lsn g = None" for r g
    using inv unfolding ack_inv_def by blast+
  from writer_step_entries [OF step] show ?thesis
  proof (elim disjE exE conjE, goal_cases)
    case same: 1
    have w1: "written tr s r \<Longrightarrow> written (tr @ ?ev) s' r" for r
      using written_mono [of tr s r s'] same by simp
    have l1: "in_log tr (entry_of s r) \<Longrightarrow> in_log (tr @ ?ev) (entry_of s' r)" for r
      using in_log_mono same by simp
    have app: "in_memtable (tr @ ?ev) (entry_of s r)" if "sys_phase s w = LeaderWritingMemtable g t" "r \<in> set (g_reqs g)" for g t r
    proof -
      have "in_log tr (entry_of s r)" by (rule logged) (simp add: that)
      then show ?thesis
        unfolding in_memtable_def step_events_applied [OF that(1), of s']
        by (intro exI [of _ tr] exI [of _ t] exI [of _ "group_entries s g"] exI [of _ "[]"]) (simp add: group_entries_of that(2))
    qed
    from C show ?thesis
      by (cases rule: ctl.cases; intro ack_inv_update [OF inv G ph])
        (use sh same logged applied claim told lead pre w1 l1 app in
          \<open>auto simp: success_def group_outcome_def written_def [of _ s'] split: option.splits if_splits\<close>)
  next
    case (2 g t l)
    have other: "entry_of s' r = entry_of s r" if "r \<notin> set (g_reqs g)" for r
      using that by (simp add: entry_of_def request_entry_def 2(2) assign_lsns_other)
    have m: "members (sys_phase s w) = g_reqs g" by (simp add: 2(1))
    have kept: "written (tr @ ?ev) s' r" if "written tr s r" "r \<notin> set (g_reqs g)" for r
      using written_mono [OF that(1) other [OF that(2)]] .
    from C 2(1) consider "sys_phase s' w = LeaderReleasingWal (g\<lparr>committed_lsn := Some l\<rparr>) t"
      | e where "sys_phase s' w = Dropping [WalGuard, TicketGuard t, GroupGuard g (g_reqs g)] (Inl e)"
      by (cases rule: ctl.cases) auto
    then show ?thesis
    proof cases
      case 1
      have "in_log (tr @ ?ev) (entry_of s' r)" if "r \<in> set (g_reqs g)" for r
        unfolding step_events_logged [OF 2(1) 1] using that by (auto simp: in_log_def group_entries_of)
      then show ?thesis
        by (intro ack_inv_update [OF inv G ph]) (use 1 2(1,3) m other lead in auto)
    next
      case (2 e)
      then show ?thesis
        using pre [of g] \<open>sys_phase s w = _\<close> \<open>result_of s' = _\<close> m other
        by (intro ack_inv_update [OF inv G ph]) auto
    qed
  qed
qed

lemma run_ack_inv:
  assumes "run faults crc sm s0 tr s" "idle s0"
  shows "ack_inv tr s"
  using assms
proof (induction rule: run.induct)
  case start
  then show ?case by (simp add: idle_def ack_inv_def success_def result_of_def)
next
  case (writer tr s env w s')
  have I: "shapes_ok faults (sys_phase s) \<and> group_inv (sys_phase s) (sync_of s) (result_of s)"
    using groups.run_keeps [OF writer.hyps(1) writer.prems] .
  then have "shape_ok True (sys_phase s w)"
    using shape_ok_weaken [of faults "sys_phase s w"] by (simp add: shapes_ok_def)
  with I show ?case using ack_inv_step [OF writer.IH [OF writer.prems] _ _ writer.hyps(2)] by blast
next
  case (worker tr s s')
  then have "sys_phase s' = sys_phase s" "result_of s' = result_of s" "entry_of s' = entry_of s"
    by (auto simp: worker_change_def result_of_def entry_of_def)
  with worker show ?case by (simp add: ack_inv_def written_def)
qed

subsection \<open>What the events of a trace stand for\<close>

lemma run_trans:
  assumes "run faults crc sm s tr' s'" "run faults crc sm s0 tr s"
  shows "run faults crc sm s0 (tr @ tr') s'"
  using assms
proof (induction rule: run.induct)
  case (writer tr' s1 env w s2)
  from run.writer [OF writer.IH [OF writer.prems] writer.hyps(2,3)] show ?case by simp
qed (auto intro: run.intros)

text \<open>Bytes are appended to the file of the WAL in use, and nothing else is written.\<close>

definition wal_grows :: "bytes \<Rightarrow> 'm sys \<Rightarrow> 'm sys \<Rightarrow> bool" where
  "wal_grows bs s s' \<longleftrightarrow>
     (let i = wal_file (mutable_wal (db_current (sys_db s))); f = sys_fs s in
      data (sys_fs s') = (data f)(i := data f i @ bs) \<and> names (sys_fs s') = names f \<and> sys_db s' = sys_db s)"

text \<open>What an event says of the states around it: the file of the log has grown by the encoded batch, the
  mutable memtable has got the batch.\<close>

fun takes_effect :: "(bytes \<Rightarrow> u32) \<Rightarrow> 'm skipmap \<Rightarrow> event \<Rightarrow> 'm sys \<Rightarrow> 'm sys \<Rightarrow> bool" where
  "takes_effect crc sm (Logged t es) s s' = wal_grows (encode_group crc es) s s'"
| "takes_effect crc sm (WalFailed t) s s' = (\<exists>es bs. prefix bs (encode_group crc es) \<and> wal_grows bs s s')"
| "takes_effect crc sm (Applied t es) s s' =
     (mutable_memtable (db_current (sys_db s')) = memtable_put_batch sm es (mutable_memtable (db_current (sys_db s)))
      \<and> sys_fs s' = sys_fs s)"

text \<open>After trace \<open>tr\<close> the state is \<open>s1\<close>, and a step of a writer to \<open>s2\<close> is the event.\<close>

definition happens ::
  "bool \<Rightarrow> (bytes \<Rightarrow> u32) \<Rightarrow> 'm skipmap \<Rightarrow> 'm sys \<Rightarrow> event list \<Rightarrow> event \<Rightarrow> 'm sys \<Rightarrow> 'm sys \<Rightarrow> bool" where
  "happens faults crc sm s0 tr ev s1 s2 \<longleftrightarrow>
     run faults crc sm s0 tr s1 \<and> (\<exists>env w. writer_step crc sm env w s1 = Some s2) \<and> takes_effect crc sm ev s1 s2"

lemma step_takes_effect:
  assumes "writer_step crc sm env w s = Some s'" "fault_ok faults crc env w s"
  shows "step_events w s s' = [] \<or> (\<exists>ev. step_events w s s' = [ev] \<and> takes_effect crc sm ev s s')"
proof (cases "sys_phase s w")
  case (LeaderLogging g t l)
  then show ?thesis
  proof (cases "wal_fault env")
    case None
    with assms(1) LeaderLogging show ?thesis
      by (auto simp: writer_step_def step_log_def Let_def step_events_def wal_grows_def write_wal_def wal_write_def
          fs_append_def fs_set_def group_entries_def goto_def)
  next
    case (Some we)
    obtain bs e where we: "we = (bs, e)" by (cases we)
    with assms LeaderLogging Some have "step_events w s s' = [WalFailed t]" "wal_grows bs s s'"
      by (auto simp: writer_step_def step_log_def Let_def step_events_def wal_grows_def write_wal_def wal_write_def
          fs_append_def fs_set_def goto_def)
    moreover have "\<exists>es. prefix bs (encode_group crc es)"
      using assms(2) LeaderLogging Some we by (auto simp: fault_ok_def)
    ultimately show ?thesis by auto
  qed
next
  case (LeaderWritingMemtable g t)
  with assms(1) show ?thesis
    by (auto simp: writer_step_def step_apply_def step_events_def write_memtable_def)
qed (simp_all add: step_events_def)

lemma run_event:
  assumes "run faults crc sm s0 tr s" "tr = tr1 @ ev # tr2"
  shows "\<exists>s1 s2. happens faults crc sm s0 tr1 ev s1 s2 \<and> run faults crc sm s2 tr2 s"
  using assms
proof (induction arbitrary: tr1 ev tr2 rule: run.induct)
  case (writer tr s env w s')
  show ?case
  proof (cases "step_events w s s' = [] \<or> tr2 \<noteq> []")
    case True
    then obtain tr3 where t: "tr = tr1 @ ev # tr3" "tr2 = tr3 @ step_events w s s'"
      using writer.prems step_takes_effect [OF writer.hyps(2,3)] by (cases tr2 rule: rev_cases) auto
    from writer.IH [OF t(1)] run.writer [OF _ writer.hyps(2,3)] show ?thesis unfolding t(2) by blast
  next
    case False
    with step_takes_effect [OF writer.hyps(2,3)] writer.prems have "tr = tr1" "takes_effect crc sm ev s s'" "tr2 = []" by auto
    with writer.hyps show ?thesis by (auto simp: happens_def intro: run.start)
  qed
next
  case (worker tr s s')
  from worker.IH [OF worker.prems] run.worker [OF _ worker.hyps(2)] show ?case by blast
qed simp

lemma in_log_split: "in_log tr e \<Longrightarrow> \<exists>tr1 t es tr2. tr = tr1 @ Logged t es # tr2 \<and> e \<in> set es"
proof (induction tr)
  case (Cons ev tr)
  show ?case
  proof (cases "\<exists>t es. ev = Logged t es \<and> e \<in> set es")
    case True
    then show ?thesis by (metis append_Nil)
  next
    case False
    with Cons.prems have "in_log tr e" by (cases ev) (auto simp: in_log_def)
    from Cons.IH [OF this] show ?thesis by (metis append_Cons)
  qed
qed (simp add: in_log_def)

text \<open>An entry that was logged and then applied has its moments in the run.\<close>

lemma in_memtable_moments:
  assumes "run faults crc sm s0 tr s" "in_memtable tr e"
  shows "\<exists>tr1 t es tr2 t' es' tr3 s1 s2 s3 s4. e \<in> set es \<and> e \<in> set es'
    \<and> tr = tr1 @ Logged t es # tr2 @ Applied t' es' # tr3
    \<and> happens faults crc sm s0 tr1 (Logged t es) s1 s2 \<and> run faults crc sm s2 tr2 s3
    \<and> happens faults crc sm s0 (tr1 @ Logged t es # tr2) (Applied t' es') s3 s4 \<and> run faults crc sm s4 tr3 s"
proof -
  from assms(2) obtain trA t' es' tr3 where a: "tr = trA @ Applied t' es' # tr3" "e \<in> set es'" "in_log trA e"
    unfolding in_memtable_def by blast
  from in_log_split [OF a(3)] obtain tr1 t es tr2 where l: "trA = tr1 @ Logged t es # tr2" "e \<in> set es" by blast
  from run_event [OF assms(1) a(1)] obtain s3 s4 where
    app: "happens faults crc sm s0 trA (Applied t' es') s3 s4" "run faults crc sm s4 tr3 s" by blast
  then have "run faults crc sm s0 trA s3" by (simp add: happens_def)
  from run_event [OF this l(1)] obtain s1 s2 where
    log: "happens faults crc sm s0 tr1 (Logged t es) s1 s2" "run faults crc sm s2 tr2 s3" by blast
  have "tr = tr1 @ Logged t es # tr2 @ Applied t' es' # tr3" using a(1) l(1) by simp
  with log app a(2) l show ?thesis by blast
qed

subsection \<open>Schedules\<close>

text \<open>A run of the writers alone, computed from the order in which they take their steps.\<close>

fun schedule :: "(bytes \<Rightarrow> u32) \<Rightarrow> 'm skipmap \<Rightarrow> (env \<times> nat) list \<Rightarrow> 'm sys \<Rightarrow> (event list \<times> 'm sys) option" where
  "schedule crc sm [] s = Some ([], s)"
| "schedule crc sm ((env, w) # ms) s =
     (case writer_step crc sm env w s of
        None \<Rightarrow> None
      | Some s' \<Rightarrow> (case schedule crc sm ms s' of None \<Rightarrow> None | Some (tr, s2) \<Rightarrow> Some (step_events w s s' @ tr, s2)))"

lemma schedule_run:
  fixes s :: "'m sys"
  assumes "schedule crc sm ms s = Some (tr', s')" "run faults crc sm s0 tr s"
    and "\<forall>(env, w) \<in> set ms. \<forall>s. fault_ok faults crc env w (s :: 'm sys)"
  shows "run faults crc sm s0 (tr @ tr') s'"
  using assms
proof (induction ms arbitrary: s tr tr')
  case (Cons m ms)
  obtain env w where m: "m = (env, w)" by (cases m)
  with Cons.prems(1) obtain s1 tr1 where st: "writer_step crc sm env w s = Some s1"
    and rest: "schedule crc sm ms s1 = Some (tr1, s')" and tr': "tr' = step_events w s s1 @ tr1"
    by (auto split: option.splits)
  have ok: "\<forall>s. fault_ok faults crc env w (s :: 'm sys)" and oks: "\<forall>(env, w) \<in> set ms. \<forall>s. fault_ok faults crc env w (s :: 'm sys)"
    using Cons.prems(3) by (simp_all add: m)
  from Cons.IH [OF rest run.writer [OF Cons.prems(2) st spec [OF ok]] oks] show ?case
    by (simp add: tr')
qed simp

text \<open>An environment in which the log works, and one in which it fails before anything is written.\<close>

definition calm :: env where
  "calm = \<lparr>wal_fault = None, interference = alone\<rparr>"

definition disk_full :: env where
  "disk_full = \<lparr>wal_fault = Some ([], Io (OtherIo ''no space left on device'')), interference = alone\<rparr>"

lemma fault_ok_calm [simp]: "fault_ok faults crc calm w s"
  by (simp add: fault_ok_def calm_def)

lemma fault_ok_disk_full [simp]: "fault_ok True crc disk_full w s"
  by (simp add: fault_ok_def disk_full_def)

text \<open>A new database with requests for different keys.\<close>

definition sample_sys :: "entry list sys" where
  "sample_sys = \<lparr>sys_db = \<lparr>db_current = fresh_version alist_skipmap 0, db_sync = write_syncs_new 1,
       db_manifest = manifest_new 0, max_memtable_size = MAX_MEMTABLE_SIZE\<rparr>,
     sys_fs = fs_empty, sys_reqs = \<lambda>w. fst (db_put [of_nat w] (val_new [7])), sys_phase = \<lambda>_. WaitingToBeQueued\<rparr>"

lemma idle_sample_sys: "idle sample_sys" "sync_of sample_sys = write_syncs_new 1"
  by (auto simp: idle_def sample_sys_def sync_of_def db_put_def writer_new_req_def)

lemmas step_simps =
  writer_step_def step_queue_def step_seek_def form_write_group_def step_follow_def step_wait_wal_def
  step_ticket_def step_log_def step_wait_memtable_def step_apply_def step_rotate_def step_finish_def
  drop_wal_guard_def drop_ticket_guard_def group_outcome_def with_sync_def goto_def set_result_def sync_of_def
  step_events_def calm_def disk_full_def Let_def

lemmas sample_simps = sample_sys_def write_syncs_new_def db_put_def writer_new_req_def

text \<open>Writer 0 logs and is about to leave the log; writer 1 waits for it, alone or behind others.\<close>

lemma sample_schedule:
  "\<exists>tr s. schedule crc alist_skipmap (replicate 7 (calm, 0) @ replicate 4 (calm, 1)) sample_sys = Some (tr, s)
     \<and> sys_phase s 0 = LeaderReleasingWal \<lparr>g_reqs = [0], committed_lsn = Some 1\<rparr> 0
     \<and> sys_phase s 1 = LeaderWaitingToWriteWal \<lparr>g_reqs = [1], committed_lsn = None\<rparr>"
  by (simp add: numeral_eq_Suc) (simp add: step_simps sample_simps)

lemma sample_run:
  obtains tr s where "run False crc alist_skipmap sample_sys tr s"
    "sys_phase s 0 = LeaderReleasingWal \<lparr>g_reqs = [0], committed_lsn = Some 1\<rparr> 0"
    "sys_phase s 1 = LeaderWaitingToWriteWal \<lparr>g_reqs = [1], committed_lsn = None\<rparr>"
proof -
  obtain tr s where sch: "schedule crc alist_skipmap (replicate 7 (calm, 0) @ replicate 4 (calm, 1)) sample_sys = Some (tr, s)"
    and ph: "sys_phase s 0 = LeaderReleasingWal \<lparr>g_reqs = [0], committed_lsn = Some 1\<rparr> 0"
      "sys_phase s 1 = LeaderWaitingToWriteWal \<lparr>g_reqs = [1], committed_lsn = None\<rparr>"
    using sample_schedule [of crc] by blast
  have "run False crc alist_skipmap sample_sys ([] @ tr) s"
    by (rule schedule_run [OF sch run.start]) auto
  with ph that show thesis by simp
qed

text \<open>Writer 0 runs alone to its end.\<close>

lemma sample_small:
  "\<not> MAX_MEMTABLE_SIZE \<le> active_memtable_size (write_memtable alist_skipmap [(Key 1 [0], val_new [7])] (fresh_version alist_skipmap i))"
  by (simp add: active_memtable_size_def write_memtable_def memtable_put_batch_def memtable_recover_def memtable_size_def
      fresh_version_def memtable_new_def MAX_MEMTABLE_SIZE_def KEY_HEADER_SIZE_def VALUE_HEADER_SIZE_def val_new_def Let_def)

lemma sample_alone:
  "\<exists>tr s. schedule crc alist_skipmap (replicate 16 (calm, 0)) sample_sys = Some (tr, s) \<and> sys_phase s 0 = Returned (Inr 1)
      \<and> logs tr = [(0, [(Key 1 [0], val_new [7])])] \<and> apps tr = [(0, [(Key 1 [0], val_new [7])])]
      \<and> entry_of s 0 = (Key 1 [0], val_new [7])"
  by (simp add: numeral_eq_Suc)
    (simp add: step_simps sample_simps group_entries_def request_entry_def key_update_lsn_def key_new_def sample_small entry_of_def)

lemma sample_finished:
  obtains tr s where "run False crc alist_skipmap sample_sys tr s" "sys_phase s 0 = Returned (Inr 1)"
    "logs tr = [(0, [(Key 1 [0], val_new [7])])]" "apps tr = [(0, [(Key 1 [0], val_new [7])])]"
    "entry_of s 0 = (Key 1 [0], val_new [7])"
proof -
  obtain tr s where sch: "schedule crc alist_skipmap (replicate 16 (calm, 0)) sample_sys = Some (tr, s)"
    and ph: "sys_phase s 0 = Returned (Inr 1)" "logs tr = [(0, [(Key 1 [0], val_new [7])])]"
      "apps tr = [(0, [(Key 1 [0], val_new [7])])]" "entry_of s 0 = (Key 1 [0], val_new [7])"
    using sample_alone [of crc] by blast
  have "run False crc alist_skipmap sample_sys ([] @ tr) s"
    by (rule schedule_run [OF sch run.start]) auto
  with ph that show thesis by simp
qed

text \<open>A ticket that was passed over is never served.\<close>

lemma ctl_ticket_mono: "ctl fl w q y c p y' c' \<Longrightarrow> ticket_to_mem y \<le> ticket_to_mem y'"
  by (erule ctl.cases) auto

lemma passed_over_stuck:
  assumes "run faults crc sm s tr s'" "sys_phase s w = LeaderWaitingToWriteMemtable g t" "t < ticket_to_mem (sync_of s)"
  shows "sys_phase s' w = LeaderWaitingToWriteMemtable g t \<and> t < ticket_to_mem (sync_of s')"
  using assms
proof (induction rule: run.induct)
  case start
  then show ?case by simp
next
  case (writer tr s1 env u s2)
  from writer.IH [OF writer.prems] have I: "sys_phase s1 w = LeaderWaitingToWriteMemtable g t" "t < ticket_to_mem (sync_of s1)"
    by simp_all
  have "u \<noteq> w"
    using writer.hyps(2) I by (auto simp: writer_step_def step_wait_memtable_def)
  with I ctl_ticket_mono [OF conjunct2 [OF writer_step_ctl [OF writer.hyps(2), of True]]] sys_phase_step [OF writer.hyps(2), of w]
  show ?case by simp
next
  case (worker tr s1 s2)
  then have "sys_phase s2 = sys_phase s1" "sync_of s2 = sync_of s1" by (auto simp: worker_change_def sync_of_def)
  with worker show ?case by simp
qed

lemma passed_over_never_returns:
  assumes "run faults crc sm s0 tr s" "idle s0"
    and "sys_phase s w = LeaderWaitingToWriteMemtable g t" "t < ticket_to_mem (sync_of s)"
    and "run faults crc sm s tr' s'"
  shows "sys_phase s' w = LeaderWaitingToWriteMemtable g t \<and> writer_step crc sm env w s' = None
    \<and> (\<forall>r \<in> set (g_reqs g). \<forall>res. sys_phase s' r \<noteq> Returned res)"
proof -
  from passed_over_stuck [OF assms(5,3,4)] have ph: "sys_phase s' w = LeaderWaitingToWriteMemtable g t"
    and t: "t < ticket_to_mem (sync_of s')" by simp_all
  have "group_inv (sys_phase s') (sync_of s') (result_of s')"
    using groups.run_keeps [OF run_trans [OF assms(5,1)] assms(2)] by simp
  then have mem: "r = w \<or> pending (sys_phase s') (result_of s') r" if "r \<in> set (g_reqs g)" for r
    using that ph unfolding group_inv_def by fastforce
  have "sys_phase s' r \<noteq> Returned res" if "r \<in> set (g_reqs g)" for r res
    using mem [OF that] ph by (auto simp: pending_def)
  with ph t show ?thesis by (auto simp: writer_step_def step_wait_memtable_def)
qed

text \<open>After a failed log write the writer drops the log and serves the ticket that is next.\<close>

lemma failed_log_serves_next:
  assumes "sys_phase s w = LeaderLogging g t l" "wal_fault env = Some (bs, e)"
  shows "\<exists>tr' s'. schedule crc sm [(env, w), (calm, w), (calm, w)] s = Some (tr', s')
    \<and> sys_phase s' = (sys_phase s)(w := Dropping [GroupGuard g (g_reqs g)] (Inl e))
    \<and> ticket_to_mem (sync_of s') = Suc (ticket_to_mem (sync_of s))"
  using assms by (simp add: writer_step_def step_log_def drop_wal_guard_def drop_ticket_guard_def with_sync_def goto_def sync_of_def Let_def)

lemma failed_log_run:
  assumes "run True crc sm s0 tr s" "fault_ok True crc env w s"
    and "schedule crc sm [(env, w), (calm, w), (calm, w)] s = Some (tr', s')"
  shows "run True crc sm s0 (tr @ tr') s'"
proof -
  from assms(3) obtain s1 tr1 where st: "writer_step crc sm env w s = Some s1"
    and rest: "schedule crc sm [(calm, w), (calm, w)] s1 = Some (tr1, s')" and tr': "tr' = step_events w s s1 @ tr1"
    by (simp only: schedule.simps split: option.splits prod.splits) auto
  have "run True crc sm s0 ((tr @ step_events w s s1) @ tr1) s'"
    by (rule schedule_run [OF rest run.writer [OF assms(1) st assms(2)]]) auto
  then show ?thesis by (simp add: tr')
qed

text \<open>Writer 0 waits for the memtable with ticket 0, and it is its turn; writer 1 is about to write to the log.\<close>

lemma sample_overtaking:
  obtains tr s l where "run True crc alist_skipmap sample_sys tr s"
    "sys_phase s 0 = LeaderWaitingToWriteMemtable \<lparr>g_reqs = [0], committed_lsn = Some 1\<rparr> 0"
    "sys_phase s 1 = LeaderLogging \<lparr>g_reqs = [1], committed_lsn = None\<rparr> 1 l" "ticket_to_mem (sync_of s) = 0"
proof -
  let ?ms = "replicate 8 (calm, 0) @ replicate 6 (calm, 1)"
  have "\<exists>tr s l. schedule crc alist_skipmap ?ms sample_sys = Some (tr, s)
      \<and> sys_phase s 0 = LeaderWaitingToWriteMemtable \<lparr>g_reqs = [0], committed_lsn = Some 1\<rparr> 0
      \<and> sys_phase s 1 = LeaderLogging \<lparr>g_reqs = [1], committed_lsn = None\<rparr> 1 l
      \<and> ticket_to_mem (sync_of s) = 0"
    by (simp add: numeral_eq_Suc) (simp add: step_simps sample_simps)
  then obtain tr s l where sch: "schedule crc alist_skipmap ?ms sample_sys = Some (tr, s)"
    and ph: "sys_phase s 0 = LeaderWaitingToWriteMemtable \<lparr>g_reqs = [0], committed_lsn = Some 1\<rparr> 0"
      "sys_phase s 1 = LeaderLogging \<lparr>g_reqs = [1], committed_lsn = None\<rparr> 1 l" "ticket_to_mem (sync_of s) = 0"
    by blast
  have "run True crc alist_skipmap sample_sys ([] @ tr) s"
    by (rule schedule_run [OF sch run.start]) auto
  with ph that show thesis by simp
qed

subsection \<open>The properties\<close>

text \<open>C37: The stages of the pipeline are exclusive: whatever the interleaving and the faults, at most one
  writer is in the WAL stage, and \<open>wal_busy\<close> says whether there is one; and as long as no log write
  fails at most one writer is in the memtable stage, the one whose ticket is served.\<close>

theorem stages_are_exclusive:
  assumes "run faults crc sm s0 tr s" "idle s0"
  shows "(wal_busy (sync_of s) \<longleftrightarrow> (\<exists>w. holds_wal (sys_phase s w)))
    \<and> (\<forall>w w'. holds_wal (sys_phase s w) \<longrightarrow> holds_wal (sys_phase s w') \<longrightarrow> w = w')
    \<and> (\<not> faults \<longrightarrow> (\<forall>w w'. holds_mem (sys_phase s w) \<longrightarrow> holds_mem (sys_phase s w') \<longrightarrow>
         w = w' \<and> ticket (sys_phase s w) = Some (ticket_to_mem (sync_of s))))"
proof (intro conjI impI allI)
  have "wal_inv (sys_phase s) (sync_of s)" using wal_stage.run_keeps [OF assms] by simp
  then show "wal_busy (sync_of s) \<longleftrightarrow> (\<exists>w. holds_wal (sys_phase s w))" by (simp add: wal_inv_def)
  show "w = w'" if "holds_wal (sys_phase s w)" "holds_wal (sys_phase s w')" for w w'
    using that \<open>wal_inv _ _\<close> by (simp add: wal_inv_def)
  show "w = w'" "ticket (sys_phase s w) = Some (ticket_to_mem (sync_of s))"
    if "\<not> faults" "holds_mem (sys_phase s w)" "holds_mem (sys_phase s w')" for w w'
    using mem_unique [of s w' w] run_protocol_ok [of crc sm s0 tr s] assms that
    by (auto simp: protocol_ok_def order_inv_def)
qed

theorem stages_are_exclusive_witness:
  "\<exists>tr s. run False (x_crc sample_ext) alist_skipmap sample_sys tr s \<and> holds_wal (sys_phase s 0)
     \<and> wal_busy (sync_of s) \<and> \<not> holds_wal (sys_phase s 1)"
proof -
  obtain tr s where r: "run False (x_crc sample_ext) alist_skipmap sample_sys tr s"
    "sys_phase s 0 = LeaderReleasingWal \<lparr>g_reqs = [0], committed_lsn = Some 1\<rparr> 0"
    using sample_run by metis
  have "holds_wal (sys_phase s 0)" using r(2) by simp
  with stages_are_exclusive [OF r(1) idle_sample_sys(1)] r(1) show ?thesis by (metis zero_neq_one)
qed

text \<open>C35: In runs in which no log write fails, batches reach the memtable in the order in which they reached the
  log: what has been applied is the beginning of what has been logged, batch by batch with the same
  entries; the log's batches carry the tickets 0, 1, 2 and so on, and its entries carry consecutive
  LSNs. So at most the batches of writers on their way are missing from the memtable. The trace tells what was
  done: at each logged batch, a step of a writer appended its encoding to the file of the WAL in use, and at each
  applied batch a step of a writer put it in the mutable memtable.\<close>

theorem memtable_follows_log:
  assumes "run False crc sm s0 tr s" "idle s0" "sync_of s0 = write_syncs_new l0"
  shows "prefix (apps tr) (logs tr) \<and> map fst (logs tr) = [0..<length (logs tr)]
    \<and> map (\<lambda>e. lsn (fst e)) (concat (map snd (logs tr))) = map (\<lambda>i. l0 + of_nat i) [0..<logged_count tr]
    \<and> (\<forall>tr1 ev tr2. tr = tr1 @ ev # tr2 \<longrightarrow>
         (\<exists>s1 s2. happens False crc sm s0 tr1 ev s1 s2 \<and> run False crc sm s2 tr2 s))"
proof -
  from run_log_inv [OF assms] have "log_inv l0 tr s" and a: "apps tr = take (length (apps tr)) (logs tr)"
    by (simp_all add: app_inv_def)
  moreover have "prefix (apps tr) (logs tr)" by (subst a) (rule take_is_prefix)
  ultimately show ?thesis using run_event [OF assms(1)] by (simp add: log_inv_def)
qed

theorem memtable_follows_log_witness:
  "\<exists>tr s. run False (x_crc sample_ext) alist_skipmap sample_sys tr s
     \<and> logs tr = [(0, [(Key 1 [0], val_new [7])])] \<and> prefix (apps tr) (logs tr) \<and> apps tr \<noteq> []"
proof -
  obtain tr s where r: "run False (x_crc sample_ext) alist_skipmap sample_sys tr s"
    "logs tr = [(0, [(Key 1 [0], val_new [7])])]" "apps tr = [(0, [(Key 1 [0], val_new [7])])]"
    using sample_finished by metis
  have "prefix (apps tr) (logs tr)" using memtable_follows_log [OF r(1) idle_sample_sys] by (rule conjunct1)
  with r show ?thesis by (intro exI [of _ tr] exI [of _ s]) simp
qed

text \<open>C36: An acknowledgement is a promise kept: in every run, with failing log writes and failing rotations
  too, if the call of a writer has returned success then at one moment of the run a step of a writer appended the
  encoding of a batch with its entry, under the LSN it was given, to the file of the WAL in use, and at a later
  moment a step of a writer put a batch with that entry in the mutable memtable.\<close>

theorem acknowledged_is_written:
  assumes "run faults crc sm s0 tr s" "idle s0" "sys_phase s w = Returned (Inr l)"
  shows "\<exists>tr1 t es tr2 t' es' tr3 s1 s2 s3 s4.
      request_entry (sys_reqs s w) \<in> set es \<and> request_entry (sys_reqs s w) \<in> set es'
    \<and> tr = tr1 @ Logged t es # tr2 @ Applied t' es' # tr3
    \<and> happens faults crc sm s0 tr1 (Logged t es) s1 s2 \<and> run faults crc sm s2 tr2 s3
    \<and> happens faults crc sm s0 (tr1 @ Logged t es # tr2) (Applied t' es') s3 s4 \<and> run faults crc sm s4 tr3 s"
proof -
  from run_ack_inv [OF assms(1,2)] assms(3) have "written tr s w" by (auto simp: ack_inv_def)
  then have "in_memtable tr (request_entry (sys_reqs s w))" by (simp add: written_def entry_of_def)
  from in_memtable_moments [OF assms(1) this] show ?thesis .
qed

theorem acknowledged_is_written_witness:
  "\<exists>tr s tr1 t es s1 s2 tr2 t' es' s3 s4. run False (x_crc sample_ext) alist_skipmap sample_sys tr s \<and> sys_phase s 0 = Returned (Inr 1)
     \<and> (Key 1 [0], val_new [7]) \<in> set es \<and> happens False (x_crc sample_ext) alist_skipmap sample_sys tr1 (Logged t es) s1 s2
     \<and> (Key 1 [0], val_new [7]) \<in> set es' \<and> happens False (x_crc sample_ext) alist_skipmap sample_sys tr2 (Applied t' es') s3 s4"
proof -
  obtain tr s where r: "run False (x_crc sample_ext) alist_skipmap sample_sys tr s" "sys_phase s 0 = Returned (Inr 1)"
    "request_entry (sys_reqs s 0) = (Key 1 [0], val_new [7])"
    using sample_finished unfolding entry_of_def by metis
  from acknowledged_is_written [OF r(1) idle_sample_sys(1) r(2), unfolded r(3)] r(1,2) show ?thesis by blast
qed

text \<open>C38: A failed log write can hang other writers for good. Suppose the ticket that is next waits for the
  memtable and the log write of another writer fails. If the failed writer drops the log and its ticket guard before
  the waiting one takes its turn, its guard serves the waiting ticket instead of the writer's own: the turn is over
  before it came, no continuation whatsoever moves the leader that waits, and neither it nor any of its followers
  ever returns.\<close>

theorem passed_over_ticket_hangs:
  assumes "run True crc sm s0 tr s" "idle s0"
    and "sys_phase s w = LeaderLogging g t l" "wal_fault env = Some (bs, e)" "fault_ok True crc env w s"
    and "sys_phase s u = LeaderWaitingToWriteMemtable h (ticket_to_mem (sync_of s))"
  shows "\<exists>tr1 s1. schedule crc sm [(env, w), (calm, w), (calm, w)] s = Some (tr1, s1)
    \<and> sys_phase s1 w = Dropping [GroupGuard g (g_reqs g)] (Inl e) \<and> run True crc sm s0 (tr @ tr1) s1
    \<and> (\<forall>tr2 s2. run True crc sm s1 tr2 s2 \<longrightarrow>
         sys_phase s2 u = sys_phase s u \<and> (\<forall>env'. writer_step crc sm env' u s2 = None)
         \<and> (\<forall>r \<in> set (g_reqs h). \<forall>res. sys_phase s2 r \<noteq> Returned res))"
proof -
  from failed_log_serves_next [OF assms(3,4)] obtain tr1 s1 where
    sch: "schedule crc sm [(env, w), (calm, w), (calm, w)] s = Some (tr1, s1)"
    and ph: "sys_phase s1 = (sys_phase s)(w := Dropping [GroupGuard g (g_reqs g)] (Inl e))"
    and t: "ticket_to_mem (sync_of s1) = Suc (ticket_to_mem (sync_of s))" by blast
  have r: "run True crc sm s0 (tr @ tr1) s1" by (rule failed_log_run [OF assms(1,5) sch])
  have u: "sys_phase s1 u = LeaderWaitingToWriteMemtable h (ticket_to_mem (sync_of s))"
    using assms(3,6) ph by (cases "u = w") simp_all
  have "ticket_to_mem (sync_of s) < ticket_to_mem (sync_of s1)" by (simp add: t)
  from passed_over_never_returns [OF r assms(2) u this] show ?thesis
    using sch ph r assms(6) by (intro exI [of _ tr1] exI [of _ s1]) simp
qed

theorem passed_over_ticket_hangs_witness:
  "\<exists>tr s. run True (x_crc sample_ext) alist_skipmap sample_sys tr s \<and> (\<exists>e. sys_phase s 1 = Dropping [GroupGuard \<lparr>g_reqs = [1], committed_lsn = None\<rparr> [1]] (Inl e)) \<and>
     (\<forall>env tr' s'. run True (x_crc sample_ext) alist_skipmap s tr' s' \<longrightarrow>
        writer_step (x_crc sample_ext) alist_skipmap env 0 s' = None \<and> (\<forall>res. sys_phase s' 0 \<noteq> Returned res))"
proof -
  obtain tr s l where r: "run True (x_crc sample_ext) alist_skipmap sample_sys tr s"
    and ph: "sys_phase s 0 = LeaderWaitingToWriteMemtable \<lparr>g_reqs = [0], committed_lsn = Some 1\<rparr> 0"
      "sys_phase s 1 = LeaderLogging \<lparr>g_reqs = [1], committed_lsn = None\<rparr> 1 l" and t: "ticket_to_mem (sync_of s) = 0"
    using sample_overtaking by metis
  have f: "wal_fault disk_full = Some ([], Io (OtherIo ''no space left on device''))" by (simp add: disk_full_def)
  have u: "sys_phase s 0 = LeaderWaitingToWriteMemtable \<lparr>g_reqs = [0], committed_lsn = Some 1\<rparr> (ticket_to_mem (sync_of s))"
    by (simp add: ph t)
  from passed_over_ticket_hangs [OF r idle_sample_sys(1) ph(2) f fault_ok_disk_full u] obtain tr1 s1 where
    s1: "run True (x_crc sample_ext) alist_skipmap sample_sys (tr @ tr1) s1"
      "sys_phase s1 1 = Dropping [GroupGuard \<lparr>g_reqs = [1], committed_lsn = None\<rparr> [1]] (Inl (Io (OtherIo ''no space left on device'')))"
    and hang: "\<forall>tr2 s2. run True (x_crc sample_ext) alist_skipmap s1 tr2 s2 \<longrightarrow>
         (\<forall>env'. writer_step (x_crc sample_ext) alist_skipmap env' 0 s2 = None)
         \<and> (\<forall>r \<in> {0}. \<forall>res. sys_phase s2 r \<noteq> Returned res)"
    unfolding group.simps by (metis empty_set list.simps(15))
  from s1 hang show ?thesis by blast
qed

end
