(* ===== verification/Liveness.thy ===== *)
theory Liveness
  imports Writers
begin

text \<open>
  The write pipeline comes to an end: a measure of the work that is left decreases with every step
  of a writer, so that a given number of writers takes a bounded number of steps in any order
  and with any faults; and as long as no log write fails some writer can take a step until all
  have returned.
\<close>

subsection \<open>The work that is left\<close>

fun guard_work :: "guard \<Rightarrow> nat" where
  "guard_work (GroupGuard g rs) = 2 * length rs + 1"
| "guard_work _ = 1"

text \<open>
  What a writer may still do in each state, if nobody else interferes. A leader has two units for
  every member it has to announce and two for every member it has to tell the outcome: one for
  the step, one for the result the member finds and takes.
\<close>

fun work :: "phase \<Rightarrow> nat" where
  "work WaitingToBeQueued = 18"
| "work SeekingMembership = 13"
| "work FollowerWaitingCompletion = 13"
| "work (LeaderAnnouncing g rs) = 2 * length rs + 2 * length (g_reqs g) + 12"
| "work (LeaderWaitingToWriteWal g) = 2 * length (g_reqs g) + 11"
| "work (LeaderWritingWal g) = 2 * length (g_reqs g) + 10"
| "work (LeaderLogging g t l) = 2 * length (g_reqs g) + 9"
| "work (LeaderReleasingWal g t) = 2 * length (g_reqs g) + 8"
| "work (LeaderWaitingToWriteMemtable g t) = 2 * length (g_reqs g) + 7"
| "work (LeaderWritingMemtable g t) = 2 * length (g_reqs g) + 6"
| "work (LeaderApplied g t) = 2 * length (g_reqs g) + 5"
| "work (LeaderReleasingTicket g t) = 2 * length (g_reqs g) + 4"
| "work (LeaderFinishingWrite g) = 2 * length (g_reqs g) + 3"
| "work (Dropping gs res) = sum_list (map guard_work gs) + 1"
| "work (Returned res) = 0"

text \<open>A result that was left and not yet taken.\<close>

definition token :: "completion result option \<Rightarrow> nat" where
  "token c = (if c = None then 0 else 1)"

definition work_left :: "nat \<Rightarrow> (nat \<Rightarrow> phase) \<Rightarrow> write_syncs \<Rightarrow> results \<Rightarrow> nat" where
  "work_left n ph y c = (\<Sum>w<n. work (ph w)) + (\<Sum>w<n. token (c w)) + 4 * length (write_queue y)"

text \<open>A step uses up one unit or more: of its writer, of the queue, or the result it takes.\<close>

lemma ctl_work:
  assumes "ctl fl w q y c p y' c'"
  shows "c' = c \<and> work p + 4 * length (write_queue y') < work q + 4 * length (write_queue y)
    \<or> (\<exists>r x. c' = c(r \<mapsto> x)) \<and> work p + 1 + 4 * length (write_queue y') < work q + 4 * length (write_queue y)
    \<or> c w \<noteq> None \<and> c' = c(w := None) \<and> work p + 4 * length (write_queue y') \<le> work q + 4 * length (write_queue y)"
  using assms by (cases rule: ctl.cases) auto

lemma sum_upd:
  fixes w n :: nat
  assumes "w < n"
  shows "(\<Sum>u<n. h ((g(w := p)) u)) + (h (g w) :: nat) = (\<Sum>u<n. h (g u)) + h p"
proof -
  have "(\<Sum>u<n. h ((g(w := p)) u)) = h p + (\<Sum>u\<in>{..<n} - {w}. h (g u))"
    using sum.remove [OF finite_lessThan, of w n "\<lambda>u. h ((g(w := p)) u)"] assms by simp
  moreover have "(\<Sum>u<n. h (g u)) = h (g w) + (\<Sum>u\<in>{..<n} - {w}. h (g u))"
    using sum.remove [OF finite_lessThan, of w n "\<lambda>u. h (g u)"] assms by simp
  ultimately show ?thesis by simp
qed

lemma sum_token_upd:
  fixes r n :: nat
  shows "(\<Sum>u<n. token ((c(r \<mapsto> x)) u)) \<le> (\<Sum>u<n. token (c u)) + 1"
proof (cases "r < n")
  case True
  with sum_upd [of r n token c "Some x"] show ?thesis by (simp add: token_def)
next
  case False
  then have "(\<Sum>u<n. token ((c(r \<mapsto> x)) u)) = (\<Sum>u<n. token (c u))" by (intro sum.cong) auto
  then show ?thesis by simp
qed

lemma work_left_step:
  assumes "ctl fl w (ph w) y c p y' c'" "w < n"
  shows "work_left n (ph(w := p)) y' c' < work_left n ph y c"
proof -
  note W = sum_upd [OF assms(2), of work ph p]
  from ctl_work [OF assms(1)] show ?thesis
  proof (elim disjE conjE exE)
    fix r x
    assume "c' = c(r \<mapsto> x)" "work p + 1 + 4 * length (write_queue y') < work (ph w) + 4 * length (write_queue y)"
    with W sum_token_upd [of c r x n] show ?thesis by (simp add: work_left_def)
  next
    assume c: "c w \<noteq> None" "c' = c(w := None)" "work p + 4 * length (write_queue y') \<le> work (ph w) + 4 * length (write_queue y)"
    with W sum_upd [OF assms(2), of token c None] show ?thesis by (simp add: work_left_def token_def)
  qed (use W in \<open>simp add: work_left_def\<close>)
qed

subsection \<open>Runs of a number of writers\<close>

text \<open>Runs in which only the first \<open>n\<close> writers take steps, \<open>k\<close> of them in all.\<close>

inductive takes :: "(bytes \<Rightarrow> u32) \<Rightarrow> 'm skipmap \<Rightarrow> nat \<Rightarrow> 'm sys \<Rightarrow> nat \<Rightarrow> 'm sys \<Rightarrow> bool"
  for crc sm n s0 where
  start: "takes crc sm n s0 0 s0"
| writer: "takes crc sm n s0 k s \<Longrightarrow> w < n \<Longrightarrow> writer_step crc sm env w s = Some s' \<Longrightarrow> takes crc sm n s0 (Suc k) s'"
| worker: "takes crc sm n s0 k s \<Longrightarrow> worker_change s s' \<Longrightarrow> takes crc sm n s0 k s'"

lemma takes_work:
  "takes crc sm n s0 k s \<Longrightarrow> k + work_left n (sys_phase s) (sync_of s) (result_of s)
     \<le> work_left n (sys_phase s0) (sync_of s0) (result_of s0)"
proof (induction rule: takes.induct)
  case (writer k s w env s')
  from writer_step_ctl [OF writer.hyps(3), of True] have ph: "sys_phase s' = (sys_phase s)(w := sys_phase s' w)"
    and st: "ctl True w (sys_phase s w) (sync_of s) (result_of s) (sys_phase s' w) (sync_of s') (result_of s')" by simp_all
  from work_left_step [of True w "sys_phase s", OF st writer.hyps(2)]
  have "work_left n (sys_phase s') (sync_of s') (result_of s') < work_left n (sys_phase s) (sync_of s) (result_of s)"
    unfolding ph [symmetric] .
  with writer.IH show ?case by simp
next
  case (worker k s s')
  then have "sys_phase s' = sys_phase s" "sync_of s' = sync_of s" "result_of s' = result_of s"
    by (auto simp: worker_change_def sync_of_def result_of_def)
  with worker show ?case by simp
qed simp

lemma idle_work:
  assumes "idle s"
  shows "work_left n (sys_phase s) (sync_of s) (result_of s) = 18 * n"
proof -
  have "write_queue (sync_of s) = []" using assms by (auto simp: idle_def write_syncs_new_def)
  then show ?thesis using assms by (simp add: work_left_def idle_def result_of_def token_def)
qed

lemma takes_bound: "takes crc sm n s0 k s \<Longrightarrow> idle s0 \<Longrightarrow> k \<le> 18 * n"
  using takes_work [of crc sm n s0 k s] idle_work [of s0 n] by simp

lemma schedule_takes:
  fixes s :: "'m sys"
  assumes "schedule crc sm ms s = Some (tr, s')" "takes crc sm n s0 k s" "\<forall>(env, w) \<in> set ms. w < n"
  shows "takes crc sm n s0 (length ms + k) s'"
  using assms
proof (induction ms arbitrary: s k tr)
  case (Cons m ms)
  obtain env w where m: "m = (env, w)" by (cases m)
  with Cons.prems(1) obtain s1 tr1 where st: "writer_step crc sm env w s = Some s1"
    and rest: "schedule crc sm ms s1 = Some (tr1, s')" by (auto split: option.splits)
  have "w < n" "\<forall>(env, w) \<in> set ms. w < n" using Cons.prems(3) by (simp_all add: m)
  with Cons.IH [OF rest takes.writer [OF Cons.prems(2) _ st]] show ?case by simp
qed simp

subsection \<open>The properties\<close>

text \<open>C27: The write pipeline terminates: whatever the order of their steps, the faults and the changes the
  background worker makes in between, \<open>n\<close> concurrent writers of an open database take no more than
  \<open>18 n\<close> steps in all. (One that meets nobody takes 16.)\<close>

theorem writers_terminate:
  assumes "takes crc sm n s0 k s" "idle s0"
  shows "k \<le> 18 * n"
  using takes_bound [OF assms] .

theorem writers_terminate_witness:
  "\<exists>s. takes (x_crc sample_ext) alist_skipmap 1 sample_sys 16 s \<and> sys_phase s 0 = Returned (Inr 1) \<and> (16 :: nat) \<le> 18 * 1"
proof -
  obtain tr s where "schedule (x_crc sample_ext) alist_skipmap (replicate 16 (calm, 0)) sample_sys = Some (tr, s)"
    and ph: "sys_phase s 0 = Returned (Inr 1)"
    using sample_alone [of "x_crc sample_ext"] by blast
  from schedule_takes [OF this(1) takes.start] have t: "takes (x_crc sample_ext) alist_skipmap 1 sample_sys 16 s" by simp
  from writers_terminate [OF t idle_sample_sys(1)] t ph show ?thesis by blast
qed

text \<open>C29: The write pipeline does not deadlock: as long as no log write fails, when some writer has begun and not returned,
  some writer that has begun can take a step, whatever the environment. With the bound on the number of steps
  this means that all of them return.\<close>

theorem writers_never_deadlock:
  assumes "run False crc sm s0 tr s" "idle s0" "active s w"
  shows "\<exists>u. active s u \<and> writer_step crc sm env u s \<noteq> None"
  by (rule protocol_progress [OF assms])

theorem writers_never_deadlock_witness:
  "\<exists>tr s u. run False (x_crc sample_ext) alist_skipmap sample_sys tr s \<and> writer_step (x_crc sample_ext) alist_skipmap calm 1 s = None
    \<and> active s 1 \<and> active s u \<and> writer_step (x_crc sample_ext) alist_skipmap calm u s \<noteq> None"
proof -
  obtain tr s where r: "run False (x_crc sample_ext) alist_skipmap sample_sys tr s"
    and ph: "sys_phase s 0 = LeaderReleasingWal \<lparr>g_reqs = [0], committed_lsn = Some 1\<rparr> 0"
      "sys_phase s 1 = LeaderWaitingToWriteWal \<lparr>g_reqs = [1], committed_lsn = None\<rparr>"
    using sample_run by metis
  have "wal_busy (sync_of s)" using wal_stage.run_keeps [OF r idle_sample_sys(1)] ph(1) unfolding wal_inv_def by (metis holds_wal.simps(3))
  then have "writer_step (x_crc sample_ext) alist_skipmap calm 1 s = None" unfolding writer_step_def ph(2) by (simp add: step_wait_wal_def)
  moreover have a: "active s 1" unfolding active_def ph(2) by simp
  ultimately show ?thesis using writers_never_deadlock [OF r idle_sample_sys(1) a, of calm] r by metis
qed

text \<open>C28: The control state is well formed at every moment of every run, with log faults and with any interference: what a
  writer still has to drop is one of six lists of guards, with that of the log only where log writes may fail; no request
  is twice in the queue or in a group; and a request whose caller waits is either in the
  queue or in the group of exactly one writer, which owes it an outcome, while a group has nobody but its leader and
  requests that wait.\<close>

theorem control_state_well_formed:
  assumes "run faults crc sm s0 tr s" "idle s0"
  shows "(\<forall>w gs res. sys_phase s w = Dropping gs res \<longrightarrow> drop_shape faults gs)
    \<and> distinct (write_queue (sync_of s)) \<and> (\<forall>w. distinct (members (sys_phase s w)))
    \<and> (\<forall>r. pending (sys_phase s) (result_of s) r \<longrightarrow>
         (if r \<in> set (write_queue (sync_of s)) then \<forall>w. r \<notin> set (members (sys_phase s w))
          else \<exists>!w. r \<in> set (members (sys_phase s w))))
    \<and> (\<forall>w r. r \<in> set (members (sys_phase s w)) \<longrightarrow> r = w \<or> pending (sys_phase s) (result_of s) r)"
proof -
  have S: "shapes_ok faults (sys_phase s)" and G: "group_inv (sys_phase s) (sync_of s) (result_of s)"
    using groups.run_keeps [OF assms] by blast+
  note I = group_invD [OF G]
  have "drop_shape faults gs" if "sys_phase s w = Dropping gs res" for w gs res
    using S that unfolding shapes_ok_def by (metis shape_ok.simps(1))
  moreover have "\<exists>!w. r \<in> set (members (sys_phase s w))"
    if "pending (sys_phase s) (result_of s) r" "r \<notin> set (write_queue (sync_of s))" for r
    using I(8) [OF that(1)] that(2) I(3) by blast
  ultimately show ?thesis using I(1,2,4,6) by auto
qed

theorem control_state_well_formed_witness:
  "\<exists>tr s. run False (x_crc sample_ext) alist_skipmap sample_sys tr s \<and> members (sys_phase s 0) = [0] \<and> members (sys_phase s 1) = [1]
     \<and> pending (sys_phase s) (result_of s) 0 = False \<and> distinct (write_queue (sync_of s))"
proof -
  obtain tr s where r: "run False (x_crc sample_ext) alist_skipmap sample_sys tr s"
    and ph: "sys_phase s 0 = LeaderReleasingWal \<lparr>g_reqs = [0], committed_lsn = Some 1\<rparr> 0"
      "sys_phase s 1 = LeaderWaitingToWriteWal \<lparr>g_reqs = [1], committed_lsn = None\<rparr>"
    using sample_run by metis
  have "members (sys_phase s 0) = [0]" "members (sys_phase s 1) = [1]" "pending (sys_phase s) (result_of s) 0 = False"
    unfolding ph pending_def by simp_all
  then show ?thesis using control_state_well_formed [OF r idle_sample_sys(1)] r by blast
qed

end
