(* ===== verification/Durability.thy ===== *)
theory Durability
  imports Liveness
begin

text \<open>
  What an acknowledgement means for the disk: the write pipeline, the log and recovery put
  together. As long as the memtable is not full, so that no writer rotates it, and no log write
  fails, the directory determines at every moment the version with everything that was logged,
  whether it has reached the memtable yet or not; so a process that dies between two steps,
  or in the middle of an entry, comes back with every write it had acknowledged.
\<close>

subsection \<open>Steady runs\<close>

definition full :: "'m sys \<Rightarrow> bool" where
  "full s \<longleftrightarrow> max_memtable_size (sys_db s) \<le> active_memtable_size (db_current (sys_db s))"

text \<open>The step that would rotate the memtable.\<close>

definition rotates :: "nat \<Rightarrow> 'm sys \<Rightarrow> bool" where
  "rotates w s \<longleftrightarrow> (\<exists>g t. sys_phase s w = LeaderApplied g t) \<and> full s"

inductive steady :: "(bytes \<Rightarrow> u32) \<Rightarrow> 'm skipmap \<Rightarrow> 'm sys \<Rightarrow> event list \<Rightarrow> 'm sys \<Rightarrow> bool"
  for crc sm s0 where
  start: "steady crc sm s0 [] s0"
| writer: "steady crc sm s0 tr s \<Longrightarrow> writer_step crc sm env w s = Some s' \<Longrightarrow> wal_fault env = None \<Longrightarrow> \<not> full s \<Longrightarrow>
    steady crc sm s0 (tr @ step_events w s s') s'"

lemma steady_run: "steady crc sm s0 tr s \<Longrightarrow> run False crc sm s0 tr s"
  by (induction rule: steady.induct) (auto intro: run.intros simp: fault_ok_def)

text \<open>The version the directory determines: its memtable has everything that was logged.\<close>

definition logged_entries :: "event list \<Rightarrow> entry list" where
  "logged_entries tr = concat (map snd (logs tr))"

definition logged_version :: "'m skipmap \<Rightarrow> entry list \<Rightarrow> 'm sys \<Rightarrow> 'm db_version" where
  "logged_version sm es s = (db_current (sys_db s))\<lparr>mutable_memtable := memtable_put_batch sm es (memtable_new sm)\<rparr>"

definition disk_logged :: "ext \<Rightarrow> 'm skipmap \<Rightarrow> entry list \<Rightarrow> event list \<Rightarrow> 'm sys \<Rightarrow> bool" where
  "disk_logged x sm es0 tr s \<longleftrightarrow>
     durable x sm (db_manifest (sys_db s)) (sys_fs s) (logged_version sm (es0 @ logged_entries tr) s) (es0 @ logged_entries tr) []
     \<and> wal_id (mutable_wal (db_current (sys_db s))) \<notin> set (butlast (wals (db_manifest (sys_db s))))
     \<and> (\<forall>r. entry_ok (entry_of s r))"

lemma assign_lsns_kbytes [simp]: "kbytes (rq_key (assign_lsns l rs reqs r)) = kbytes (rq_key (reqs r))"
proof (induction l rs reqs rule: assign_lsns.induct)
  case (2 l r' rs reqs)
  show ?case unfolding assign_lsns.simps 2 by (simp add: key_update_lsn_def)
qed simp

lemma writer_step_entry_ok:
  assumes "writer_step crc sm env w s = Some s'" "entry_ok (entry_of s r)"
  shows "entry_ok (entry_of s' r)"
  using writer_step_entries [OF assms(1)]
proof (elim disjE conjE exE)
  assume "entry_of s' = entry_of s"
  with assms(2) show ?thesis by (simp only:)
next
  fix g t l
  assume "sys_reqs s' = assign_lsns l (g_reqs g) (sys_reqs s)"
  with assms(2) show ?thesis by (simp add: entry_of_def request_entry_def key_ok_def)
qed

text \<open>What a step does to the directory and to the rest of the version.\<close>

lemma writer_step_disk:
  assumes "writer_step crc sm env w s = Some s'" "wal_fault env = None" "\<not> rotates w s"
  shows "db_manifest (sys_db s') = db_manifest (sys_db s)
    \<and> mutable_wal (db_current (sys_db s')) = mutable_wal (db_current (sys_db s))
    \<and> (\<forall>es. logged_version sm es s' = logged_version sm es s)
    \<and> (sys_fs s' = sys_fs s \<and> logs (step_events w s s') = []
      \<or> (\<exists>t g. sys_fs s' = write_wal (db_current (sys_db s)) (encode_group crc (group_entries s' g)) (sys_fs s)
            \<and> logs (step_events w s s') = [(t, group_entries s' g)]))"
proof (cases "sys_phase s w")
  case (LeaderLogging g t l)
  then show ?thesis
    using assms by (auto simp: writer_step_def step_log_def Let_def step_events_def logged_version_def group_entries_def)
next
  case (LeaderWritingMemtable g t)
  then show ?thesis
    using assms by (auto simp: writer_step_def step_apply_def step_events_def logged_version_def write_memtable_def)
next
  case (LeaderApplied g t)
  then show ?thesis using assms by (auto simp: writer_step_def step_rotate_def Let_def step_events_def logged_version_def rotates_def full_def)
next
  case (Dropping gs res)
  then show ?thesis
    using assms by (cases "(w, gs, res, s)" rule: step_drop.cases)
      (auto simp: writer_step_def drop_wal_guard_def drop_ticket_guard_def step_events_def logged_version_def)
next
  case (LeaderAnnouncing g rs)
  then show ?thesis using assms by (cases rs) (auto simp: writer_step_def step_events_def logged_version_def)
qed (use assms in \<open>auto simp: writer_step_def step_queue_def step_seek_def step_follow_def step_wait_wal_def step_ticket_def
      step_wait_memtable_def step_finish_def drop_wal_guard_def drop_ticket_guard_def form_write_group_def Let_def
      step_events_def logged_version_def
      split: if_splits option.splits sum.splits completion.splits list.splits\<close>)

lemma logged_entries_simps [simp]:
  "logged_entries [] = []" "logged_entries (tr @ tr') = logged_entries tr @ logged_entries tr'"
  by (simp_all add: logged_entries_def)

lemma durable_writer_step:
  assumes d: "durable x sm (db_manifest (sys_db s)) (sys_fs s) (logged_version sm es s) es []"
    and n: "wal_id (mutable_wal (db_current (sys_db s))) \<notin> set (butlast (wals (db_manifest (sys_db s))))"
    and ok: "\<forall>r. entry_ok (entry_of s r)"
    and st: "writer_step (x_crc x) sm env w s = Some s'" "wal_fault env = None" "\<not> rotates w s"
  defines "es' \<equiv> es @ logged_entries (step_events w s s')"
  shows "durable x sm (db_manifest (sys_db s')) (sys_fs s') (logged_version sm es' s') es' []"
proof -
  let ?V = "logged_version sm"
  have ok': "entry_ok (entry_of s' r)" for r by (rule writer_step_entry_ok [OF st(1) spec [OF ok]])
  from writer_step_disk [OF st] have keep: "db_manifest (sys_db s') = db_manifest (sys_db s)" "?V es s' = ?V es s" for es by blast+
  from writer_step_disk [OF st] consider "sys_fs s' = sys_fs s" "logs (step_events w s s') = []"
    | t g where "sys_fs s' = write_wal (db_current (sys_db s)) (encode_group (x_crc x) (group_entries s' g)) (sys_fs s)"
      "logs (step_events w s s') = [(t, group_entries s' g)]" by blast
  then show ?thesis
  proof cases
    case 1
    then show ?thesis using d by (simp add: es'_def keep logged_entries_def)
  next
    case 2
    let ?reqs = "group_entries s' g"
    have "list_all entry_ok ?reqs" using ok' by (auto simp: list_all_iff group_entries_of)
    moreover have "mutable_wal (?V es s) = mutable_wal (db_current (sys_db s))" by (simp add: logged_version_def)
    ultimately have "durable x sm (db_manifest (sys_db s)) (write_wal (?V es s) (wal_log (x_crc x) ?reqs @ []) (sys_fs s))
        (write_memtable sm ?reqs (?V es s)) (es @ ?reqs) []"
      using durable_append [OF d, of ?reqs "[]"] n by simp
    moreover have "write_memtable sm ?reqs (?V es s) = ?V (es @ ?reqs) s"
      by (simp add: write_memtable_def logged_version_def memtable_put_batch_def)
    moreover have "write_wal (?V es s) (wal_log (x_crc x) ?reqs @ []) (sys_fs s) = sys_fs s'"
      by (simp add: 2(1) write_wal_def encode_group_def logged_version_def)
    ultimately show ?thesis by (simp add: es'_def keep logged_entries_def 2(2))
  qed
qed

lemma disk_logged_step:
  assumes I: "disk_logged x sm es0 tr s" and st: "writer_step (x_crc x) sm env w s = Some s'" "wal_fault env = None" "\<not> rotates w s"
  shows "disk_logged x sm es0 (tr @ step_events w s s') s'"
proof -
  from I have d: "durable x sm (db_manifest (sys_db s)) (sys_fs s) (logged_version sm (es0 @ logged_entries tr) s) (es0 @ logged_entries tr) []"
    and n: "wal_id (mutable_wal (db_current (sys_db s))) \<notin> set (butlast (wals (db_manifest (sys_db s))))"
    and ok: "\<forall>r. entry_ok (entry_of s r)" by (simp_all add: disk_logged_def)
  have "entry_ok (entry_of s' r)" for r by (rule writer_step_entry_ok [OF st(1) spec [OF ok]])
  with durable_writer_step [OF d n ok st] n writer_step_disk [OF st] show ?thesis by (simp add: disk_logged_def)
qed

lemma steady_disk_logged:
  "steady (x_crc x) sm s0 tr s \<Longrightarrow> disk_logged x sm es0 [] s0 \<Longrightarrow> disk_logged x sm es0 tr s"
  by (induction rule: steady.induct) (auto intro: disk_logged_step simp: rotates_def)

lemma acknowledged_logged:
  assumes "run False crc sm s0 tr s" "idle s0" "sys_phase s w = Returned (Inr l)"
  shows "request_entry (sys_reqs s w) \<in> set (logged_entries tr)"
proof -
  from run_ack_inv [OF assms(1,2)] assms(3) have "in_log tr (entry_of s w)"
    by (auto simp: ack_inv_def written_def)
  then show ?thesis by (force simp: in_log_def entry_of_def logged_entries_def)
qed

lemma restart_logged:
  assumes "disk_logged x sm es0 tr s" "wal_next (x_crc x) torn = None"
  shows "\<exists>db. db_new x sm True (write_wal (db_current (sys_db s)) torn (sys_fs s))
        = (Inr db, write_wal (db_current (sys_db s)) torn (sys_fs s))
    \<and> db_current db = (logged_version sm (es0 @ logged_entries tr) s)\<lparr>v_next_lsn := recovered_lsn (es0 @ logged_entries tr)\<rparr>"
proof -
  let ?es = "es0 @ logged_entries tr"
  let ?v = "logged_version sm ?es s"
  from assms(1) have d: "durable x sm (db_manifest (sys_db s)) (sys_fs s) ?v ?es []"
    and n: "wal_id (mutable_wal ?v) \<notin> set (butlast (wals (db_manifest (sys_db s))))"
    by (simp_all add: disk_logged_def logged_version_def)
  have "write_wal ?v torn (sys_fs s) = write_wal (db_current (sys_db s)) torn (sys_fs s)"
    by (simp add: write_wal_def logged_version_def)
  moreover have "write_memtable sm [] ?v = ?v" by (simp add: write_memtable_def memtable_put_batch_def)
  ultimately have "durable x sm (db_manifest (sys_db s)) (write_wal (db_current (sys_db s)) torn (sys_fs s)) ?v ?es torn"
    using durable_append [OF d n _ assms(2), of "[]"] by simp
  from db_new_durable [OF this] show ?thesis by auto
qed

subsection \<open>Entries of a batch in the memtable\<close>

lemma map_of_batch:
  "run_sorted acc \<Longrightarrow> distinct (map fst es) \<Longrightarrow>
     map_of (fold (\<lambda>(k, v). ins_entry k v) es acc) k = (case map_of es k of Some v \<Rightarrow> Some v | None \<Rightarrow> map_of acc k)"
proof (induction es arbitrary: acc)
  case (Cons e es)
  obtain k' v' where e: "e = (k', v')" by (cases e)
  have "map_of es k' = None" using Cons.prems(2) by (simp add: e map_of_eq_None_iff)
  moreover have "run_sorted (ins_entry k' v' acc)" using Cons.prems(1) by (rule run_sorted_ins_entry)
  ultimately show ?case using Cons by (auto simp: e map_of_ins_entry split: option.splits)
qed simp

lemma batch_lookup:
  assumes "skipmap_ok sm" "distinct (map fst es)" "e \<in> set es"
  shows "map_of (memtable_iter sm (memtable_put_batch sm es (memtable_new sm))) (fst e) = Some (snd e)"
proof -
  have sorted: "run_sorted []" and e: "map_of es (fst e) = Some (snd e)" using assms(2,3) by simp_all
  from map_of_batch [OF sorted assms(2), of "fst e"] show ?thesis
    unfolding memtable_iter_put_batch [OF assms(1)] memtable_iter_new [OF assms(1)] e by simp
qed

text \<open>The LSNs of a run tell its entries apart, from one another and from older ones.\<close>

lemma run_distinct:
  assumes "run False crc sm s0 tr s" "idle s0" "sync_of s0 = write_syncs_new l0"
    and old: "distinct (map fst es0)" "\<forall>e \<in> set es0. lsn (fst e) < l0" and room: "unat l0 + length (logged_entries tr) \<le> 2 ^ 64"
  shows "distinct (map fst (es0 @ logged_entries tr))"
proof -
  have n: "logged_count tr = length (logged_entries tr)"
    by (simp add: logged_count_def logged_entries_def length_concat o_def case_prod_unfold)
  have "log_inv l0 tr s" using run_log_inv [OF assms(1-3)] by simp
  then have lsns: "map (\<lambda>e. lsn (fst e)) (logged_entries tr) = map (\<lambda>i. l0 + of_nat i) [0..<length (logged_entries tr)]"
    by (simp add: log_inv_def n logged_entries_def)
  have u: "unat (l0 + of_nat i) = unat l0 + i" if "i < length (logged_entries tr)" for i
  proof -
    have "unat (of_nat i :: u64) = i" using that room by (simp add: unat_of_nat)
    then show ?thesis using that room by (simp add: unat_add_lem [THEN iffD1])
  qed
  have "inj_on (\<lambda>i. l0 + of_nat i) {0..<length (logged_entries tr)}"
    by (rule inj_onI) (metis u add_left_cancel atLeastLessThan_iff)
  then have "distinct (map (\<lambda>e. lsn (fst e)) (logged_entries tr))" unfolding lsns by (simp add: distinct_map)
  then have "distinct (map lsn (map fst (logged_entries tr)))" by (simp add: o_def)
  then have "distinct (map fst (logged_entries tr))" unfolding distinct_map [of lsn] by (rule conjunct1)
  moreover have "l0 \<le> lsn (fst e)" if "e \<in> set (logged_entries tr)" for e
  proof -
    have "lsn (fst e) \<in> set (map (\<lambda>e. lsn (fst e)) (logged_entries tr))" using that by simp
    then obtain i where "i < length (logged_entries tr)" "lsn (fst e) = l0 + of_nat i" unfolding lsns by auto
    then show ?thesis by (simp add: word_le_nat_alt u)
  qed
  ultimately show ?thesis using old by (auto simp: not_less [symmetric])
qed

lemma durable_disk_logged:
  assumes "durable x sm (db_manifest (sys_db s0)) (sys_fs s0) (db_current (sys_db s0)) es0 []"
    and "wal_id (mutable_wal (db_current (sys_db s0))) \<notin> set (butlast (wals (db_manifest (sys_db s0))))" "\<forall>r. entry_ok (entry_of s0 r)"
  shows "disk_logged x sm es0 [] s0"
proof -
  have "mutable_memtable (db_current (sys_db s0)) = memtable_put_batch sm es0 (memtable_new sm)"
    using assms(1) by (simp add: durable_def wal_mirrors_def)
  then have "logged_version sm es0 s0 = db_current (sys_db s0)" by (simp add: logged_version_def)
  with assms show ?thesis by (simp add: disk_logged_def logged_entries_def)
qed

subsection \<open>The property\<close>

text \<open>No acknowledged write is lost: in a run in which the memtable is not full and the log works, whenever the
  process dies, leaving any torn entry at the end of the log, reopening the directory succeeds
  and the memtable of the reopened database has every write that had returned success, under the LSN it was given
  and with its value.\<close>

theorem acknowledged_survives_restart:
  assumes "steady (x_crc x) sm s0 tr s" "idle s0" "sync_of s0 = write_syncs_new l0" "skipmap_ok sm"
    and "durable x sm (db_manifest (sys_db s0)) (sys_fs s0) (db_current (sys_db s0)) es0 []"
    and "wal_id (mutable_wal (db_current (sys_db s0))) \<notin> set (butlast (wals (db_manifest (sys_db s0))))"
    and "\<forall>r. entry_ok (request_entry (sys_reqs s0 r))"
    and "distinct (map fst es0)" "\<forall>e \<in> set es0. lsn (fst e) < l0" "unat l0 + length (logged_entries tr) \<le> 2 ^ 64"
    and "sys_phase s w = Returned (Inr l)" "wal_next (x_crc x) torn = None"
  shows "\<exists>db. db_new x sm True (write_wal (db_current (sys_db s)) torn (sys_fs s))
        = (Inr db, write_wal (db_current (sys_db s)) torn (sys_fs s))
    \<and> map_of (memtable_iter sm (mutable_memtable (db_current db))) (rq_key (sys_reqs s w)) = Some (rq_val (sys_reqs s w))"
proof -
  have "disk_logged x sm es0 [] s0" using durable_disk_logged [OF assms(5,6)] assms(7) by (simp add: entry_of_def)
  from restart_logged [OF steady_disk_logged [OF assms(1) this] assms(12)] obtain db where
    db: "db_new x sm True (write_wal (db_current (sys_db s)) torn (sys_fs s)) = (Inr db, write_wal (db_current (sys_db s)) torn (sys_fs s))"
      "mutable_memtable (db_current db) = memtable_put_batch sm (es0 @ logged_entries tr) (memtable_new sm)"
    by (auto simp: logged_version_def)
  have "request_entry (sys_reqs s w) \<in> set (es0 @ logged_entries tr)" using acknowledged_logged [OF steady_run [OF assms(1)] assms(2,11)] by simp
  from batch_lookup [OF assms(4) run_distinct [OF steady_run [OF assms(1)] assms(2,3,8-10)] this] db show ?thesis
    by (simp add: request_entry_def)
qed

subsection \<open>A sample\<close>

fun steady_schedule :: "(bytes \<Rightarrow> u32) \<Rightarrow> 'm skipmap \<Rightarrow> nat list \<Rightarrow> 'm sys \<Rightarrow> (event list \<times> 'm sys) option" where
  "steady_schedule crc sm [] s = Some ([], s)"
| "steady_schedule crc sm (w # ws) s =
     (if full s then None
      else (case writer_step crc sm calm w s of
              None \<Rightarrow> None
            | Some s' \<Rightarrow> (case steady_schedule crc sm ws s' of None \<Rightarrow> None | Some (tr, s2) \<Rightarrow> Some (step_events w s s' @ tr, s2))))"

lemma steady_schedule_steady:
  "steady_schedule crc sm ws s = Some (tr', s') \<Longrightarrow> steady crc sm s0 tr s \<Longrightarrow> steady crc sm s0 (tr @ tr') s'"
proof (induction ws arbitrary: s tr tr')
  case (Cons w ws)
  from Cons.prems(1) obtain s1 tr1 where st: "writer_step crc sm calm w s = Some s1" "\<not> full s"
    and rest: "steady_schedule crc sm ws s1 = Some (tr1, s')" and tr': "tr' = step_events w s s1 @ tr1"
    by (auto split: option.splits if_splits)
  have "wal_fault calm = None" by (simp add: calm_def)
  from Cons.IH [OF rest steady.writer [OF Cons.prems(2) st(1) this st(2)]] show ?case by (simp add: tr')
qed simp

definition sample_opened :: "fs \<Rightarrow> entry list sys" where
  "sample_opened f = sample_sys\<lparr>sys_fs := f\<rparr>"

lemma sample_empty: "\<not> MAX_MEMTABLE_SIZE \<le> active_memtable_size (fresh_version alist_skipmap i)"
  by (simp add: active_memtable_size_def fresh_version_def memtable_new_def memtable_size_def MAX_MEMTABLE_SIZE_def)

lemma sample_steady:
  "\<exists>tr s. steady_schedule crc alist_skipmap (replicate 16 0) (sample_opened f) = Some (tr, s) \<and> sys_phase s 0 = Returned (Inr 1)
     \<and> logs tr = [(0, [(Key 1 [0], val_new [7])])] \<and> sys_reqs s 0 = \<lparr>rq_key = Key 1 [0], rq_val = val_new [7], rq_result = Some (Inr (Success 1))\<rparr>"
  by (simp add: numeral_eq_Suc)
    (simp add: full_def sample_opened_def step_simps sample_simps group_entries_def request_entry_def key_update_lsn_def key_new_def
      sample_small sample_empty)

lemma sample_requests: "sys_reqs sample_sys r = fst (db_put [of_nat r] (val_new [7]))"
  by (simp add: sample_sys_def)

theorem acknowledged_survives_restart_witness:
  "\<exists>f tr s db. steady (x_crc sample_ext) alist_skipmap (sample_opened f) tr s \<and> sys_phase s 0 = Returned (Inr 1)
     \<and> db_new sample_ext alist_skipmap True (write_wal (db_current (sys_db s)) [] (sys_fs s))
         = (Inr db, write_wal (db_current (sys_db s)) [] (sys_fs s))
     \<and> map_of (memtable_iter alist_skipmap (mutable_memtable (db_current db))) (Key 1 [0]) = Some (val_new [7])"
proof -
  obtain f where d: "durable sample_ext alist_skipmap (manifest_new 0) f (fresh_version alist_skipmap (next_inode fs_empty)) [] []"
    using db_new_fresh [OF fs_empty_fresh, of sample_ext alist_skipmap] by blast
  let ?s0 = "sample_opened f"
  obtain tr s where "steady_schedule (x_crc sample_ext) alist_skipmap (replicate 16 0) ?s0 = Some (tr, s)"
    and r: "sys_phase s 0 = Returned (Inr 1)" "logs tr = [(0, [(Key 1 [0], val_new [7])])]"
      "rq_key (sys_reqs s 0) = Key 1 [0]" "rq_val (sys_reqs s 0) = val_new [7]"
    using sample_steady [of "x_crc sample_ext" f] by (metis write_request.select_convs(1,2))
  from steady_schedule_steady [OF this(1) steady.start] have st: "steady (x_crc sample_ext) alist_skipmap ?s0 tr s" by simp
  have idle: "idle ?s0" "sync_of ?s0 = write_syncs_new 1"
    using idle_sample_sys by (simp_all add: sample_opened_def idle_def sync_of_def)
  have dur: "durable sample_ext alist_skipmap (db_manifest (sys_db ?s0)) (sys_fs ?s0) (db_current (sys_db ?s0)) [] []"
    using d by (simp add: sample_opened_def sample_sys_def fs_empty_def)
  have own: "wal_id (mutable_wal (db_current (sys_db ?s0))) \<notin> set (butlast (wals (db_manifest (sys_db ?s0))))"
    by (simp add: sample_opened_def sample_sys_def manifest_new_def)
  have ok: "\<forall>r. entry_ok (request_entry (sys_reqs ?s0 r))"
    by (simp add: sample_opened_def sample_requests request_entry_def db_put_def writer_new_req_def key_new_def key_ok_def val_new_def)
  have room: "unat (1 :: u64) + length (logged_entries tr) \<le> 2 ^ 64" by (simp add: logged_entries_def r(2))
  have "wal_next (x_crc sample_ext) [] = None" using dur by (simp add: durable_def wal_mirrors_def)
  from acknowledged_survives_restart [OF st idle alist_skipmap_ok dur own ok _ _ room r(1) this] st r
  show ?thesis by auto
qed

end
