(* ===== verification/Compaction.thy ===== *)
theory Compaction
  imports Database Merge
begin

text \<open>
  Compaction of \<open>src/compact.rs\<close>: \<open>compact_l0\<close>, \<open>compact_ln\<close> and \<open>execute_compaction\<close>;
  the loop that calls them is in the theory Worker. A compaction merges some SSTables of a level with those
  they overlap in the next, writes the result to new SSTables of the next level, and commits the
  change to the manifest and to the version. \<open>None\<close> is a panic. The specification is stated on
  tables, which tie the entry of the manifest, the open SSTable and the run it holds together.
\<close>

subsection \<open>Inputs\<close>

fun open_ssts :: "string \<Rightarrow> ext \<Rightarrow> fs \<Rightarrow> file_meta list \<Rightarrow> sstable list result" where
  "open_ssts msg x f [] = Inr []"
| "open_ssts msg x f (meta # metas) =
     (case sst_new x f (sst_name (unat (file_id meta))) of
        Inl e \<Rightarrow> Inl (Io (OtherIo msg))
      | Inr s \<Rightarrow> and_then (open_ssts msg x f metas) (\<lambda>ss. Inr (s # ss)))"

definition open_merge :: "ext \<Rightarrow> fs \<Rightarrow> file_meta list \<Rightarrow> sst_iter merge result" where
  "open_merge x f all_files =
     and_then (open_ssts ''Failed to open SST'' x f all_files) (\<lambda>ssts.
       case merge_new (sst_iter_next x f) (map sst_iter_new ssts) of
         Inl e \<Rightarrow> Inl (Io (OtherIo ''Failed to create merge iterator''))
       | Inr it \<Rightarrow> Inr it)"

subsection \<open>Outputs\<close>

text \<open>Closing the current writer, if there is one, adds a file to those written.\<close>

definition finish_output ::
  "ext \<Rightarrow> (writer \<times> u32) option \<Rightarrow> file_meta list \<Rightarrow> fs \<Rightarrow> file_meta list result \<times> fs" where
  "finish_output x cw new_files f =
     (case cw of
        None \<Rightarrow> (Inr new_files, f)
      | Some (w, i) \<Rightarrow>
          (case writer_finalize x w f of
             (Inl e, f1) \<Rightarrow> (Inl (Io (OtherIo ''Finalize error'')), f1)
           | (Inr meta, f1) \<Rightarrow> (Inr (new_files @ [meta\<lparr>file_id := i\<rparr>]), f1)))"

text \<open>The loop: one entry after the other; \<open>next_sstable_id\<close> is taken under the lock.\<close>

partial_function (option) compact_loop ::
  "ext \<Rightarrow> u64 \<Rightarrow> sst_iter merge \<Rightarrow> (writer \<times> u32) option \<Rightarrow> file_meta list \<Rightarrow> manifest \<Rightarrow> fs \<Rightarrow>
   (((writer \<times> u32) option \<times> file_meta list) result \<times> manifest \<times> fs) option" where
  "compact_loop x target it cw new_files m f =
     (case merge_next (sst_iter_next x f) it of
        None \<Rightarrow> Some (Inr (cw, new_files), m, f)
      | Some (Inl e) \<Rightarrow> Some (Inl e, m, f)
      | Some (Inr ((k, v), it1)) \<Rightarrow>
     (if (case cw of Some (w, _) \<Rightarrow> target \<le> current_size w | None \<Rightarrow> True)
      then (case finish_output x cw new_files f of
              (Inl e, f1) \<Rightarrow> Some (Inl e, m, f1)
            | (Inr new1, f1) \<Rightarrow>
                let next_id = next_sstable_id m;
                    m1 = m\<lparr>next_sstable_id := next_id + 1\<rparr>;
                    (w, f2) = writer_new f1 (sst_name (unat next_id))
                in Option.bind (writer_write x k v w) (\<lambda>w1.
                     compact_loop x target it1 (Some (w1, next_id)) new1 m1 f2))
      else (case cw of
              None \<Rightarrow> compact_loop x target it1 cw new_files m f
            | Some (w, i) \<Rightarrow> Option.bind (writer_write x k v w) (\<lambda>w1.
                compact_loop x target it1 (Some (w1, i)) new_files m f))))"

definition compact_outputs ::
  "ext \<Rightarrow> u64 \<Rightarrow> sst_iter merge \<Rightarrow> manifest \<Rightarrow> fs \<Rightarrow> (file_meta list result \<times> manifest \<times> fs) option" where
  "compact_outputs x target it m f =
     Option.bind (compact_loop x target it None [] m f) (\<lambda>(r, m1, f1).
       case r of
         Inl e \<Rightarrow> Some (Inl e, m1, f1)
       | Inr (cw, new_files) \<Rightarrow> (case finish_output x cw new_files f1 of (r2, f2) \<Rightarrow> Some (r2, m1, f2)))"

subsection \<open>The commit\<close>

definition pad_levels :: "'a \<Rightarrow> nat \<Rightarrow> 'a list \<Rightarrow> 'a list" where
  "pad_levels d target ls = ls @ replicate (Suc target - length ls) d"

definition not_in :: "file_meta list \<Rightarrow> u32 \<Rightarrow> bool" where
  "not_in removed i \<longleftrightarrow> \<not> list_ex (\<lambda>r. file_id r = i) removed"

definition compact_mutator ::
  "nat \<Rightarrow> file_meta list \<Rightarrow> file_meta list \<Rightarrow> file_meta list \<Rightarrow> manifest \<Rightarrow> manifest result" where
  "compact_mutator src rem_src rem_tgt new_files m =
     (let tgt = src + 1;
          l1 = pad_levels level_default tgt (levels m);
          l2 = l1[src := (l1 ! src)\<lparr>files := filter (\<lambda>a. not_in rem_src (file_id a)) (files (l1 ! src))\<rparr>];
          l3 = l2[tgt := (l2 ! tgt)\<lparr>files := filter (\<lambda>a. not_in rem_tgt (file_id a)) (files (l2 ! tgt))\<rparr>];
          l4 = l3[tgt := (l3 ! tgt)\<lparr>files := files (l3 ! tgt) @ new_files\<rparr>];
          l5 = l4[tgt := (l4 ! tgt)\<lparr>files := sort_key min_key (files (l4 ! tgt))\<rparr>]
      in Inr (m\<lparr>levels := l5\<rparr>))"

definition compact_install ::
  "nat \<Rightarrow> file_meta list \<Rightarrow> file_meta list \<Rightarrow> sstable list \<Rightarrow> 'm db_version \<Rightarrow> 'm db_version" where
  "compact_install src rem_src rem_tgt new_objs v =
     (let tgt = src + 1;
          l1 = pad_levels [] tgt (sstables v);
          l2 = (if src < length l1 then l1[src := filter (\<lambda>s. not_in rem_src (sst_id s)) (l1 ! src)] else l1);
          l3 = (if tgt < length l2 then l2[tgt := filter (\<lambda>s. not_in rem_tgt (sst_id s)) (l2 ! tgt)] else l2);
          l4 = l3[tgt := l3 ! tgt @ new_objs];
          l5 = l4[tgt := sort_key sst_min (l4 ! tgt)]
      in v\<lparr>sstables := l5\<rparr>)"

definition execute_compaction ::
  "ext \<Rightarrow> (nat \<Rightarrow> manifest \<times> fs \<Rightarrow> manifest \<times> fs) \<Rightarrow> nat \<Rightarrow>
   file_meta list \<Rightarrow> file_meta list \<Rightarrow> file_meta list \<Rightarrow> u64 \<Rightarrow>
   manifest \<times> fs \<times> 'm db_version \<Rightarrow> (unit result \<times> manifest \<times> fs \<times> 'm db_version) option" where
  "execute_compaction x others src all_files rem_src rem_tgt target st =
     (case st of (m, f, v) \<Rightarrow>
     (case open_merge x f all_files of
        Inl e \<Rightarrow> Some (Inl e, m, f, v)
      | Inr it \<Rightarrow>
     Option.bind (compact_outputs x target it m f) (\<lambda>(r, m1, f1).
     case r of
        Inl e \<Rightarrow> Some (Inl e, m1, f1, v)
      | Inr new_files \<Rightarrow>
     (case open_ssts ''Failed to open new SST'' x f1 new_files of
        Inl e \<Rightarrow> Some (Inl e, m1, f1, v)
      | Inr new_objs \<Rightarrow>
     (case apply_atomic_update (x_crc x) (\<lambda>m f. (compact_mutator src rem_src rem_tgt new_files m, f)) others (m1, f1) of
        (Inl e, m2, f2) \<Rightarrow> Some (Inl e, m2, f2, v)
      | (Inr _, m2, f2) \<Rightarrow>
          Some (Inr (), m2, garbage_collect (x_crc x) (gc_snapshot m2) f2,
                compact_install src rem_src rem_tgt new_objs v))))))"

subsection \<open>Selection\<close>

definition overlaps :: "key \<Rightarrow> key \<Rightarrow> file_meta \<Rightarrow> bool" where
  "overlaps lo hi a \<longleftrightarrow> lo \<le> max_key a \<and> min_key a \<le> hi"

definition next_overlaps :: "manifest \<Rightarrow> nat \<Rightarrow> key \<Rightarrow> key \<Rightarrow> file_meta list" where
  "next_overlaps m lvl lo hi =
     (if lvl + 1 < length (levels m) then filter (overlaps lo hi) (files (levels m ! (lvl + 1))) else [])"

definition compact_l0 ::
  "ext \<Rightarrow> (nat \<Rightarrow> manifest \<times> fs \<Rightarrow> manifest \<times> fs) \<Rightarrow> u64 \<Rightarrow>
   manifest \<times> fs \<times> 'm db_version \<Rightarrow> (unit result \<times> manifest \<times> fs \<times> 'm db_version) option" where
  "compact_l0 x others target st =
     (case st of (m, f, v) \<Rightarrow>
      if levels m = [] \<or> files (levels m ! 0) = [] then Some (Inr (), m, f, v)
      else
        let files_l0 = files (levels m ! 0);
            min_l0 = Min (set (map min_key files_l0));
            max_l0 = Max (set (map max_key files_l0));
            files_l1_overlap = next_overlaps m 0 min_l0 max_l0
        in execute_compaction x others 0 (files_l0 @ files_l1_overlap) files_l0 files_l1_overlap target (m, f, v))"

definition compact_ln ::
  "ext \<Rightarrow> (nat \<Rightarrow> manifest \<times> fs \<Rightarrow> manifest \<times> fs) \<Rightarrow> nat \<Rightarrow> u64 \<Rightarrow>
   manifest \<times> fs \<times> 'm db_version \<Rightarrow> (unit result \<times> manifest \<times> fs \<times> 'm db_version) option" where
  "compact_ln x others level_idx target st =
     (case st of (m, f, v) \<Rightarrow>
      if length (levels m) \<le> level_idx \<or> files (levels m ! level_idx) = [] then Some (Inr (), m, f, v)
      else
        let candidate = files (levels m ! level_idx) ! 0;
            files_overlap = next_overlaps m level_idx (min_key candidate) (max_key candidate)
        in execute_compaction x others level_idx (candidate # files_overlap) [candidate] files_overlap target (m, f, v))"

subsection \<open>Tables\<close>

type_synonym table = "file_meta \<times> sstable \<times> entry list"

definition t_meta :: "table \<Rightarrow> file_meta" where "t_meta t = fst t"
definition t_sst :: "table \<Rightarrow> sstable" where "t_sst t = fst (snd t)"
definition t_run :: "table \<Rightarrow> entry list" where "t_run t = snd (snd t)"

abbreviation t_id :: "table \<Rightarrow> u32" where "t_id t \<equiv> file_id (t_meta t)"
abbreviation t_name :: "table \<Rightarrow> string" where "t_name t \<equiv> sst_name (unat (t_id t))"
abbreviation t_min :: "table \<Rightarrow> key" where "t_min t \<equiv> min_key (t_meta t)"
abbreviation t_max :: "table \<Rightarrow> key" where "t_max t \<equiv> max_key (t_meta t)"

lemma t_simps [simp]: "t_meta (a, s, r) = a" "t_sst (a, s, r) = s" "t_run (a, s, r) = r"
  by (simp_all add: t_meta_def t_sst_def t_run_def)

definition table_ok :: "ext \<Rightarrow> fs \<Rightarrow> table \<Rightarrow> bool" where
  "table_ok x f t \<longleftrightarrow>
     sst_new x f (t_name t) = Inr (t_sst t) \<and> fs_lookup f (t_name t) = Some (sst_file (t_sst t))
     \<and> sst_id (t_sst t) = t_id t \<and> sst_holds x f (t_sst t) (t_run t) \<and> run_sorted (t_run t)
     \<and> t_min t = fst (hd (t_run t)) \<and> t_max t = fst (last (t_run t))"

text \<open>The manifest and the version show the same tables.\<close>

definition tables :: "ext \<Rightarrow> fs \<Rightarrow> manifest \<Rightarrow> 'm db_version \<Rightarrow> table list list \<Rightarrow> bool" where
  "tables x f m v T \<longleftrightarrow>
     level_files m = map (map t_meta) T \<and> sstables v = map (map t_sst) T \<and> (\<forall>t \<in> set (concat T). table_ok x f t)"

text \<open>What a compaction does to the tables: the abstract specification.\<close>

definition compact_spec :: "nat \<Rightarrow> file_meta list \<Rightarrow> file_meta list \<Rightarrow> table list \<Rightarrow> table list list \<Rightarrow> table list list" where
  "compact_spec src rem_src rem_tgt new T =
     (let T1 = pad_levels [] (src + 1) T;
          T2 = T1[src := filter (\<lambda>t. not_in rem_src (t_id t)) (T1 ! src)]
      in T2[src + 1 := sort_key t_min (filter (\<lambda>t. not_in rem_tgt (t_id t)) (T2 ! (src + 1)) @ new)])"

lemma table_ok_frame:
  assumes "table_ok x f t" "fs_frame A f f'" "fs_wf f" "t_name t \<notin> A"
  shows "table_ok x f' t"
proof -
  from assms(1) have lk: "fs_lookup f (t_name t) = Some (sst_file (t_sst t))" by (simp add: table_ok_def)
  note s = fs_frame_sst [OF assms(2,3) lk assms(4)]
  from fs_frame_sst_new [OF assms(2,3) lk assms(4)] assms(1) s show ?thesis by (simp add: table_ok_def)
qed

lemma sst_holds_min: "sst_holds x f s r \<Longrightarrow> sst_min s = fst (hd r) \<and> r \<noteq> []"
  by (auto simp: sst_holds_def)

lemma table_ok_sst_min: "table_ok x f t \<Longrightarrow> sst_min (t_sst t) = t_min t"
  by (auto simp: table_ok_def dest: sst_holds_min)

lemma table_ok_run: "table_ok x f t \<Longrightarrow> t_run t \<noteq> [] \<and> t_min t \<le> t_max t"
proof -
  assume ok: "table_ok x f t"
  then have ne: "t_run t \<noteq> []" by (auto simp: table_ok_def dest: sst_holds_min)
  with ok run_sorted_le_last [of "t_run t" "hd (t_run t)"] show ?thesis by (simp add: table_ok_def)
qed

lemma insort_key_map: "insort_key h (g a) (map g xs) = map g (insort_key (\<lambda>a. h (g a)) a xs)"
  by (induction xs) auto

lemma sort_key_map: "sort_key h (map g xs) = map g (sort_key (\<lambda>a. h (g a)) xs)"
  by (induction xs) (simp_all add: insort_key_map)

lemma sort_key_map_append: "sort_key h (map g xs @ map g ys) = map g (sort_key (\<lambda>a. h (g a)) (xs @ ys))"
  using sort_key_map [of h g "xs @ ys"] by simp

lemma insort_key_cong: "\<forall>y \<in> set (a # xs). h y = h' y \<Longrightarrow> insort_key h a xs = insort_key h' a xs"
  by (induction xs) auto

lemma sort_key_cong: "\<forall>y \<in> set xs. h y = h' y \<Longrightarrow> sort_key h xs = sort_key h' xs"
proof (induction xs)
  case (Cons a xs)
  then have "insort_key h a (sort_key h' xs) = insort_key h' a (sort_key h' xs)"
    by (intro insort_key_cong) simp
  with Cons show ?case by simp
qed simp

lemma length_pad_levels [simp]: "length (pad_levels d n ls) = max (length ls) (Suc n)"
  by (simp add: pad_levels_def)

lemma map_pad_levels: "map g (pad_levels d n ls) = pad_levels (g d) n (map g ls)"
  by (simp add: pad_levels_def)

lemma length_compact_spec [simp]: "length (compact_spec src rs rt new T) = max (length T) (src + 2)"
  by (simp add: compact_spec_def Let_def)

lemma compact_mutator_spec:
  assumes "level_files m = map (map t_meta) T"
  shows "\<exists>m1. compact_mutator src rs rt (map t_meta new) m = Inr m1
    \<and> level_files m1 = map (map t_meta) (compact_spec src rs rt new T)
    \<and> wals m1 = wals m \<and> version m1 = version m \<and> next_sstable_id m1 = next_sstable_id m \<and> next_wal_id m1 = next_wal_id m"
proof -
  let ?L = "pad_levels level_default (src + 1) (levels m)" and ?T = "pad_levels [] (src + 1) T"
  have L: "map files ?L = map (map t_meta) ?T"
    using assms by (simp add: map_pad_levels level_files_def level_default_def)
  have len: "length ?L = length ?T" "src + 1 < length ?L"
    using assms by (auto simp: level_files_def dest!: map_eq_imp_length_eq)
  have at: "files (?L ! i) = map t_meta (?T ! i)" if "i < length ?T" for i
    using arg_cong [OF L, of "\<lambda>l. l ! i"] that len by simp
  show ?thesis
    using at [of src] at [of "src + 1"] len L
    by (simp add: compact_mutator_def compact_spec_def Let_def level_files_def map_update filter_map o_def sort_key_map_append)
qed

lemma compact_install_spec:
  assumes "sstables v = map (map t_sst) T" "\<forall>t \<in> set (concat T). table_ok x f t" "\<forall>t \<in> set new. table_ok x f' t"
  shows "compact_install src rs rt (map t_sst new) v = v\<lparr>sstables := map (map t_sst) (compact_spec src rs rt new T)\<rparr>"
proof -
  let ?L = "pad_levels [] (src + 1) (sstables v)" and ?T = "pad_levels [] (src + 1) T"
  have L: "?L = map (map t_sst) ?T"
    using assms(1) by (simp add: map_pad_levels)
  have len: "src + 1 < length ?T" by simp
  have ok: "table_ok x f t" if "i < length ?T" "t \<in> set (?T ! i)" for i t
    using that assms(2) by (force simp: pad_levels_def nth_append split: if_splits)
  have ids: "filter (\<lambda>s. not_in r (sst_id s)) (map t_sst (?T ! i)) = map t_sst (filter (\<lambda>t. not_in r (t_id t)) (?T ! i))"
    if "i < length ?T" for i r
    using ok [OF that] by (auto simp: filter_map o_def table_ok_def intro!: arg_cong [where f = "map t_sst"] filter_cong)
  have srt: "sort_key sst_min (map t_sst (filter P (?T ! (src + 1))) @ map t_sst new)
      = map t_sst (sort_key t_min (filter P (?T ! (src + 1)) @ new))" for P
  proof -
    have "sst_min (t_sst t) = t_min t" if "t \<in> set (filter P (?T ! (src + 1)) @ new)" for t
      using that ok [OF len, of t] assms(3) table_ok_sst_min [of x f t] table_ok_sst_min [of x f' t] by auto
    then have "sort_key (\<lambda>t. sst_min (t_sst t)) (filter P (?T ! (src + 1)) @ new) = sort_key t_min (filter P (?T ! (src + 1)) @ new)"
      by (intro sort_key_cong) blast
    then show ?thesis by (simp only: sort_key_map_append)
  qed
  let ?T2 = "?T[src := filter (\<lambda>t. not_in rs (t_id t)) (?T ! src)]"
  have s2: "(map (map t_sst) ?T)[src := filter (\<lambda>s. not_in rs (sst_id s)) (map (map t_sst) ?T ! src)] = map (map t_sst) ?T2"
    using ids [of src rs] len by (simp add: map_update)
  have "?T2 ! (src + 1) = ?T ! (src + 1)" by simp
  with ids [of "src + 1" rt] len have s3: "filter (\<lambda>s. not_in rt (sst_id s)) (map (map t_sst) ?T2 ! (src + 1))
      = map t_sst (filter (\<lambda>t. not_in rt (t_id t)) (?T ! (src + 1)))" by simp
  have ln: "src < length ?T" "src + 1 < length ?T2" using len by simp_all
  show ?thesis
    unfolding compact_install_def Let_def L length_map if_P [OF ln(1)] s2 if_P [OF ln(2)] s3 compact_spec_def
    using srt ln by (simp add: map_update)
qed

subsection \<open>One output\<close>

text \<open>A file \<open>i\<close> was created in \<open>f0\<close>, and the entries \<open>cur\<close> were written to it.\<close>

definition writing :: "ext \<Rightarrow> fs \<Rightarrow> u32 \<Rightarrow> entry list \<Rightarrow> writer \<Rightarrow> fs \<Rightarrow> bool" where
  "writing x f0 i cur w f \<longleftrightarrow>
     (\<exists>w0. writer_new f0 (sst_name (unat i)) = (w0, f) \<and> writer_write_all x cur w0 = Some w)
     \<and> length (buffer (current_block w)) < BLOCK_SIZE"

lemma writing_start: "writer_new f0 (sst_name (unat i)) = (w0, f) \<Longrightarrow> writing x f0 i [] w0 f"
  by (auto simp: writing_def writer_write_all_def writer_new_def block_new_def BLOCK_SIZE_def split: prod.splits)

lemma writing_inv:
  assumes "writing x f0 i cur w f"
  shows "\<exists>blocks c. writer_inv x cur blocks c w"
proof -
  from assms obtain w0 where w0: "writer_new f0 (sst_name (unat i)) = (w0, f)" "writer_write_all x cur w0 = Some w"
    by (auto simp: writing_def)
  from writer_write_all_inv [OF writer_inv_new [OF w0(1)], of x cur] w0(2) show ?thesis by auto
qed

lemma writer_write_not_full:
  assumes "writer_write x k v w = Some w'"
  shows "length (buffer (current_block w')) < BLOCK_SIZE"
proof -
  have "buffer (current_block (flush_block x w1)) = []" for w1
    by (auto simp: flush_block_def block_flush_def Let_def split: prod.splits option.splits if_splits)
  moreover have "0 < BLOCK_SIZE" by (simp add: BLOCK_SIZE_def)
  ultimately show ?thesis
    using assms by (auto simp: writer_write_def Let_def block_is_full_def split: bind_splits if_splits)
qed

lemma writing_step:
  assumes "writing x f0 i cur w f"
  shows "\<exists>w'. writer_write x k v w = Some w' \<and> writing x f0 i (cur @ [(k, v)]) w' f"
proof -
  from writing_inv [OF assms] obtain blocks c where "writer_inv x cur blocks c w" by blast
  from writer_write_inv [OF this, of k v] obtain w' where w': "writer_write x k v w = Some w'" by blast
  with assms writer_write_not_full [OF w'] show ?thesis
    by (auto simp: writing_def writer_write_all_def ofold_append)
qed

lemma writing_size:
  assumes "writing x f0 i cur w f"
  shows "length (enc_all cur) < length (wr_out w) + BLOCK_SIZE \<and> length (wr_out w) \<le> 2 * length (enc_all cur)"
proof -
  from writing_inv [OF assms] obtain bs c where inv: "writer_inv x cur bs c w" by blast
  then have c: "cur = concat bs @ c" and ne: "[] \<notin> set bs" and out: "wr_out w = blocks_bytes x bs"
    and buf: "buffer (current_block w) = enc_all c" by (simp_all add: writer_inv_def)
  have "length (enc_all c) < BLOCK_SIZE" using assms buf by (simp add: writing_def)
  moreover have "8 * length bs \<le> length (enc_all (concat bs))"
    using blocks_count [OF ne] enc_all_count [of "concat bs"] by linarith
  ultimately show ?thesis by (simp add: c out length_blocks_bytes)
qed

lemma fs_frame_create: "fs_create f nm = (i, f') \<Longrightarrow> fs_frame {nm} f f'"
  by (auto simp: fs_create_def fs_alloc_def fs_set_def fs_frame_def fs_lookup_def map_add_def split: option.splits)

lemma writing_finish:
  assumes "writing x f0 i cur w f" "fs_wf f0" "ext_ok x" "run_ok cur"
  shows "\<exists>meta s f1. writer_finalize x w f = (Inr meta, f1) \<and> table_ok x f1 (meta\<lparr>file_id := i\<rparr>, s, cur)
    \<and> fs_wf f1 \<and> fs_frame {sst_name (unat i)} f0 f1"
proof -
  from assms(1) obtain w0 where w0: "writer_new f0 (sst_name (unat i)) = (w0, f)" "writer_write_all x cur w0 = Some w"
    by (auto simp: writing_def)
  then have b: "sst_build x (sst_name (unat i)) cur f0 = Some (writer_finalize x w f)" by (simp add: sst_build_def)
  have "parse_u32 (path_stem (sst_name (unat i))) = Some (unat i)"
    using parse_fmt05 [OF unat_u32_less [of i]] by simp
  from sst_build_opens [OF assms(2,3) _ _ this, of cur] assms(4) b obtain meta f1 s bytes where
    "writer_finalize x w f = (Inr meta, f1)" "min_key meta = fst (hd cur)" "max_key meta = fst (last cur)"
    "fs_wf f1" "f1 = fs_put f0 (sst_name (unat i)) bytes" "sst_new x f1 (sst_name (unat i)) = Inr s"
    "sst_holds x f1 s cur" "sst_id s = of_nat (unat i)" "fs_lookup f1 (sst_name (unat i)) = Some (sst_file s)"
    by (auto simp: run_ok_def)
  with assms(4) show ?thesis by (auto simp: table_ok_def run_ok_def fs_frame_put)
qed

subsection \<open>The sources do not change\<close>

lemma iter_rest_data:
  "data f' (sst_file (it_sst it)) = data f (sst_file (it_sst it)) \<Longrightarrow> iter_rest x f' it r = iter_rest x f it r"
  by (simp add: iter_rest_def)

lemma merge_inv_data:
  assumes "sst_stream.merge_inv x f it pend" "\<forall>j \<in> (\<lambda>i. sst_file (it_sst i)) ` set (iters it). data f' j = data f j"
  shows "sst_stream.merge_inv x f' it pend"
proof -
  have "iter_rest x f' (iters it ! i) r = iter_rest x f (iters it ! i) r" if "i < length (iters it)" for i r
    using that assms(2) by (intro iter_rest_data) auto
  then have eq: "iter_rest x f' (iters it ! i) (rs ! i) = iter_rest x f (iters it ! i) (rs ! i)"
    if "length rs = length (iters it)" "i < length rs" for i rs
    using that by simp
  from assms(1) show ?thesis
    unfolding sst_stream.merge_inv_def sst_stream.merge_left_def using eq by (elim exE conjE) (intro exI conjI; simp)
qed

subsection \<open>All outputs\<close>

text \<open>
  Entries still to come are greater than those written to the current file, no two of them have
  the same key, and each is small enough for the files to stay below their bound.
\<close>

definition entries_fit :: "nat \<Rightarrow> entry multiset \<Rightarrow> bool" where
  "entries_fit B es \<longleftrightarrow> (\<forall>e \<in># es. entry_ok e \<and> length (entry_encode e) \<le> B)"

definition keys_distinct :: "entry multiset \<Rightarrow> bool" where
  "keys_distinct es \<longleftrightarrow> (\<forall>e \<in># es. \<forall>e' \<in># es - {#e#}. fst e \<noteq> fst e')"

definition sources_safe :: "fs \<Rightarrow> u32 \<Rightarrow> inode set \<Rightarrow> bool" where
  "sources_safe f i S \<longleftrightarrow> (\<forall>j \<in> S. j < next_inode f \<and> (\<forall>n \<ge> unat i. fs_lookup f (sst_name n) \<noteq> Some j))"

abbreviation it_sources :: "sst_iter merge \<Rightarrow> inode set" where
  "it_sources it \<equiv> (\<lambda>i. sst_file (it_sst i)) ` set (iters it)"

text \<open>What the outputs from \<open>i\<close> on are to be.\<close>

definition outputs_ok :: "ext \<Rightarrow> u64 \<Rightarrow> u32 \<Rightarrow> fs \<Rightarrow> table list \<Rightarrow> fs \<Rightarrow> bool" where
  "outputs_ok x target i f0 ts f' \<longleftrightarrow>
     ts \<noteq> [] \<and> (\<forall>t \<in> set ts. table_ok x f' t \<and> list_all entry_ok (t_run t))
     \<and> map t_id ts = map (\<lambda>n. i + of_nat n) [0..<length ts]
     \<and> fs_wf f' \<and> fs_frame (sst_names i (length ts)) f0 f'
     \<and> (\<forall>t \<in> set (butlast ts). unat target \<le> 2 * length (enc_all (t_run t)))"

lemma sources_data:
  assumes "sources_safe f i S" "fs_frame {sst_name (unat i)} f f'" "j \<in> S"
  shows "data f' j = data f j"
  using assms by (simp add: sources_safe_def fs_frame_def)

lemma sources_safe_next:
  assumes "sources_safe f i S" "fs_frame {sst_name (unat i)} f f'" "unat (i + 1) = unat i + 1"
  shows "sources_safe f' (i + 1) S"
  unfolding sources_safe_def
proof (intro ballI conjI allI impI)
  fix j
  assume j: "j \<in> S"
  with assms(1,2) show "j < next_inode f'" by (fastforce simp: sources_safe_def fs_frame_def)
  fix n
  assume n: "unat (i + 1) \<le> n"
  then have "sst_name n \<noteq> sst_name (unat i)" using assms(3) by simp
  with assms(2) have "fs_lookup f' (sst_name n) = fs_lookup f (sst_name n)" by (simp add: fs_frame_def)
  with assms(1,3) j n show "fs_lookup f' (sst_name n) \<noteq> Some j" by (auto simp: sources_safe_def)
qed

lemma outputs_ok_single:
  assumes "table_ok x f1 t" "fs_wf f1" "fs_frame {sst_name (unat i)} f0 f1" "t_id t = i" "list_all entry_ok (t_run t)"
  shows "outputs_ok x target i f0 [t] f1"
  using assms by (simp add: outputs_ok_def sst_names_def)

lemma outputs_ok_Cons:
  assumes t: "table_ok x f1 t" "fs_wf f1" "fs_frame {sst_name (unat i)} f0 f1" "t_id t = i" "list_all entry_ok (t_run t)"
    and big: "unat target \<le> 2 * length (enc_all (t_run t))"
    and ts: "outputs_ok x target (i + 1) f1 ts f'" and n: "unat i + Suc (length ts) \<le> 2 ^ 32"
  shows "outputs_ok x target i f0 (t # ts) f'"
proof -
  from ts have ne: "ts \<noteq> []" and frame: "fs_frame (sst_names (i + 1) (length ts)) f1 f'" by (simp_all add: outputs_ok_def)
  from ne have "0 < length ts" by simp
  note names = sst_names_Suc [OF n this]
  have "fs_frame (sst_names i (length (t # ts))) f0 f'"
    using fs_frame_trans [OF t(3) frame] names by simp
  moreover have "table_ok x f' t"
    by (rule table_ok_frame [OF t(1) frame t(2)]) (simp add: t(4) names(2))
  moreover have "map t_id (t # ts) = map (\<lambda>n. i + of_nat n) [0..<length (t # ts)]"
    using ts t(4) by (simp add: outputs_ok_def upt_conv_Cons map_Suc_upt [symmetric] o_def add.assoc del: upt_Suc)
  ultimately show ?thesis using ts t(5) big ne by (simp add: outputs_ok_def)
qed

definition compact_finish ::
  "ext \<Rightarrow> (((writer \<times> u32) option \<times> file_meta list) result \<times> manifest \<times> fs) \<Rightarrow> (file_meta list result \<times> manifest \<times> fs) option" where
  "compact_finish x = (\<lambda>(r, m1, f1).
       case r of
         Inl e \<Rightarrow> Some (Inl e, m1, f1)
       | Inr (cw, new_files) \<Rightarrow> (case finish_output x cw new_files f1 of (r2, f2) \<Rightarrow> Some (r2, m1, f2)))"

lemma compact_outputs_finish:
  "compact_outputs x target it m f = Option.bind (compact_loop x target it None [] m f) (compact_finish x)"
  by (simp add: compact_outputs_def compact_finish_def)

lemma merge_step:
  assumes "sst_stream.merge_inv x f it pend" "keys_distinct pend" "pend \<noteq> {#}"
  obtains k v it1 where "merge_next (sst_iter_next x f) it = Some (Inr ((k, v), it1))"
    "(k, v) \<in># pend" "sst_stream.merge_inv x f it1 (pend - {#(k, v)#})" "it_sources it1 = it_sources it"
    "\<forall>e' \<in># pend - {#(k, v)#}. k < fst e'" "keys_distinct (pend - {#(k, v)#})"
proof -
  from sst_stream.merge_next_inv [OF assms(1)] assms(3) obtain e it1 where
    e: "merge_next (sst_iter_next x f) it = Some (Inr (e, it1))" "e \<in># pend" "sst_stream.merge_inv x f it1 (pend - {#e#})"
    "\<forall>e' \<in># pend. fst e \<le> fst e'"
    and src: "map (\<lambda>it. sst_file (it_sst it)) (iters it1) = map (\<lambda>it. sst_file (it_sst it)) (iters it)"
    by auto
  have "\<forall>e' \<in># pend - {#e#}. fst e < fst e'"
    using assms(2) e(2,4) by (metis keys_distinct_def in_diffD order.not_eq_order_implies_strict)
  moreover have "keys_distinct (pend - {#e#})"
    using assms(2) unfolding keys_distinct_def by (metis in_diffD diff_diff_add add.commute)
  moreover have "it_sources it1 = it_sources it" using arg_cong [OF src, of set] by simp
  ultimately show thesis using that [of "fst e" "snd e" it1] e by simp
qed

text \<open>The loop, once it has begun a file.\<close>

lemma compact_loop_ok:
  assumes "sst_stream.merge_inv x f it pend" "ext_ok x" "writing x f0 i cur w f" "cur \<noteq> []" "run_sorted cur"
    and "fs_wf f0" "sources_safe f0 i (it_sources it)"
    and "next_sstable_id m = i + 1" "unat i + size pend + 1 \<le> 2 ^ 32"
    and "entries_fit B (mset cur + pend)" "unat target + BLOCK_SIZE + B < 2 ^ 29"
    and "length (enc_all cur) \<le> unat target + BLOCK_SIZE + B"
    and "\<forall>e \<in> set cur. \<forall>e' \<in># pend. fst e < fst e'" "keys_distinct pend"
  shows "\<exists>ts f' out. Option.bind (compact_loop x target it (Some (w, i)) new m f) (compact_finish x)
      = Some (Inr (new @ map t_meta ts), m\<lparr>next_sstable_id := i + of_nat (length ts)\<rparr>, f')
    \<and> outputs_ok x target i f0 ts f' \<and> concat (map t_run ts) = cur @ out \<and> mset out = pend
    \<and> run_sorted (cur @ out) \<and> length ts \<le> size pend + 1"
  using assms
proof (induction "size pend" arbitrary: it pend f f0 i cur w m new)
  case 0
  then have "merge_next (sst_iter_next x f) it = None"
    using sst_stream.merge_next_inv [OF 0(2)] by simp
  moreover have "run_ok cur"
    using 0 by (auto simp: run_ok_def run_fits_def entries_fit_def list_all_iff)
  from writing_finish [OF 0(4,7,3) this] obtain meta s f1 where
    fin: "writer_finalize x w f = (Inr meta, f1)" and t: "table_ok x f1 (meta\<lparr>file_id := i\<rparr>, s, cur)" "fs_wf f1"
    "fs_frame {sst_name (unat i)} f0 f1" by blast
  have "list_all entry_ok cur" using 0 by (auto simp: entries_fit_def list_all_iff)
  with outputs_ok_single [OF t] have "outputs_ok x target i f0 [(meta\<lparr>file_id := i\<rparr>, s, cur)] f1" by simp
  ultimately show ?case
    using fin 0(1,6,9)
    by (intro exI [of _ "[(meta\<lparr>file_id := i\<rparr>, s, cur)]"] exI [of _ f1] exI [of _ "[]"])
      (subst compact_loop.simps, simp add: compact_finish_def finish_output_def)
next
  case (Suc n)
  note I = Suc.prems
  from Suc.hyps(2) have "pend \<noteq> {#}" by auto
  then obtain k v it1 where e: "merge_next (sst_iter_next x f) it = Some (Inr ((k, v), it1))" "(k, v) \<in># pend"
    and it1: "sst_stream.merge_inv x f it1 (pend - {#(k, v)#})" "it_sources it1 = it_sources it"
    and k: "\<forall>e' \<in># pend - {#(k, v)#}. k < fst e'" "keys_distinct (pend - {#(k, v)#})"
    using merge_step [OF I(1,14)] by blast
  let ?pend = "pend - {#(k, v)#}"
  have sz: "n = size ?pend" "size pend = Suc (size ?pend)"
    using Suc.hyps(2) e(2) by (simp_all add: size_Diff_singleton)
  have fit: "entries_fit B ({#(k, v)#} + ?pend)" "entries_fit B (mset (cur @ [(k, v)]) + ?pend)"
    using I(10) e(2) by (auto simp: entries_fit_def dest: in_diffD)
  have len1: "length (entry_encode (k, v)) \<le> B" using fit(1) by (simp add: entries_fit_def)
  show ?case
  proof (cases "target \<le> current_size w")
    case False
    from writing_step [OF I(3), of k v] obtain w' where w': "writer_write x k v w = Some w'"
      "writing x f0 i (cur @ [(k, v)]) w' f" by blast
    have "length (wr_out w) < 2 ^ 64" using writing_size [OF I(3)] I(11,12) by simp
    then have "unat (current_size w) = length (wr_out w)" by (simp add: current_size_def unat_of_nat_64)
    with False have "length (wr_out w) < unat target" by (simp add: word_le_nat_alt)
    with writing_size [OF I(3)] len1 have "length (enc_all (cur @ [(k, v)])) \<le> unat target + BLOCK_SIZE + B" by simp
    moreover have "\<forall>e \<in> set (cur @ [(k, v)]). \<forall>e' \<in># ?pend. fst e < fst e'" using I(13) k(1) by (auto dest: in_diffD)
    moreover have "\<forall>e \<in> set cur. fst e < k" using I(13) e(2) by fastforce
    then have "run_sorted (cur @ [(k, v)])" using I(5) by (simp add: run_sorted_append)
    ultimately obtain ts f' out where
      r: "Option.bind (compact_loop x target it1 (Some (w', i)) new m f) (compact_finish x)
        = Some (Inr (new @ map t_meta ts), m\<lparr>next_sstable_id := i + of_nat (length ts)\<rparr>, f')"
      "outputs_ok x target i f0 ts f'" "concat (map t_run ts) = (cur @ [(k, v)]) @ out" "mset out = ?pend"
      "run_sorted ((cur @ [(k, v)]) @ out)" "length ts \<le> size ?pend + 1"
      using Suc.hyps(1) [OF sz(1) it1(1) I(2) w'(2) _ _ I(6) _ I(8) _ fit(2) I(11) _ _ k(2), of new] I(7,9) it1(2) sz(2) by auto
    have "compact_loop x target it (Some (w, i)) new m f = compact_loop x target it1 (Some (w', i)) new m f"
      by (subst compact_loop.simps) (simp add: e(1) False w'(1))
    with r e(2) sz(2) show ?thesis
      by (intro exI [of _ ts] exI [of _ f'] exI [of _ "(k, v) # out"]) simp
  next
    case True
    have "run_ok cur" using I(4,5,10,11,12) by (auto simp: run_ok_def run_fits_def entries_fit_def list_all_iff)
    from writing_finish [OF I(3,6,2) this] obtain meta s f1 where
      fin: "writer_finalize x w f = (Inr meta, f1)" and t: "table_ok x f1 (meta\<lparr>file_id := i\<rparr>, s, cur)" "fs_wf f1"
      "fs_frame {sst_name (unat i)} f0 f1" by blast
    let ?t = "(meta\<lparr>file_id := i\<rparr>, s, cur)"
    obtain w0 f2 where w0: "writer_new f1 (sst_name (unat (i + 1))) = (w0, f2)" by (cases "writer_new f1 (sst_name (unat (i + 1)))")
    from writing_step [OF writing_start [OF w0], of x k v] obtain w' where w': "writer_write x k v w0 = Some w'"
      "writing x f1 (i + 1) [(k, v)] w' f2" by auto
    let ?m = "m\<lparr>next_sstable_id := i + 1 + 1\<rparr>"
    have i1: "unat (i + 1) = unat i + 1" using I(9) sz(2) by (simp add: unat_add_lem [THEN iffD1])
    have safe: "sources_safe f1 (i + 1) (it_sources it1)"
      using sources_safe_next [OF I(7) t(3) i1] by (simp only: it1(2))
    have "fs_frame {sst_name (unat (i + 1))} f1 f2"
      using w0 by (auto simp: writer_new_def split: prod.splits intro: fs_frame_create)
    note d2 = sources_data [OF safe this]
    have "fs_frame {sst_name (unat i)} f0 f"
      using I(3) by (auto simp: writing_def writer_new_def split: prod.splits intro: fs_frame_create)
    note d0 = sources_data [OF I(7) this] and d1 = sources_data [OF I(7) t(3)]
    have "sst_stream.merge_inv x f2 it1 ?pend"
      by (rule merge_inv_data [OF it1(1)]) (use d0 d1 d2 it1(2) in metis)
    then obtain ts f' out where
      r: "Option.bind (compact_loop x target it1 (Some (w', i + 1)) (new @ [t_meta ?t]) ?m f2) (compact_finish x)
        = Some (Inr ((new @ [t_meta ?t]) @ map t_meta ts), ?m\<lparr>next_sstable_id := i + 1 + of_nat (length ts)\<rparr>, f')"
      "outputs_ok x target (i + 1) f1 ts f'" "concat (map t_run ts) = [(k, v)] @ out" "mset out = ?pend"
      "run_sorted ([(k, v)] @ out)" "length ts \<le> size ?pend + 1"
      using Suc.hyps(1) [OF sz(1) _ I(2) w'(2) _ _ t(2) safe _ _ _ I(11) _ _ k(2), of ?m "new @ [t_meta ?t]"]
        I(9) i1 sz(2) fit(1) len1 k(1) by auto
    have "list_all entry_ok cur" using I(10) by (auto simp: entries_fit_def list_all_iff)
    moreover have "unat target \<le> 2 * length (enc_all cur)"
    proof -
      have "length (wr_out w) < 2 ^ 64" using writing_size [OF I(3)] I(11,12) by simp
      then have "unat (current_size w) = length (wr_out w)" by (simp add: current_size_def unat_of_nat_64)
      with True writing_size [OF I(3)] show ?thesis by (simp add: word_le_nat_alt)
    qed
    ultimately have "outputs_ok x target i f0 (?t # ts) f'"
      using outputs_ok_Cons [OF t _ _ _ r(2)] r(6) I(9) sz(2) by simp
    moreover have "compact_loop x target it (Some (w, i)) new m f
        = compact_loop x target it1 (Some (w', i + 1)) (new @ [t_meta ?t]) ?m f2"
      by (subst compact_loop.simps) (simp add: e(1) True finish_output_def fin I(8) w0 w'(1) Let_def)
    moreover have "run_sorted (cur @ (k, v) # out)"
      using I(5,13) e(2) r(4,5) by (auto simp: run_sorted_append dest: in_diffD simp flip: set_mset_mset)
    moreover have "mset ((k, v) # out) = pend" using r(4) e(2) by simp
    ultimately show ?thesis using r(1,3,6) sz(2)
      by (intro exI [of _ "?t # ts"] exI [of _ f'] exI [of _ "(k, v) # out"]) (simp add: add.assoc)
  qed
qed

subsection \<open>A commit keeps the disk in step\<close>

text \<open>The part of \<open>durable\<close> that is about the files the manifest names.\<close>

definition shows_version ::
  "ext \<Rightarrow> 'm skipmap \<Rightarrow> manifest \<Rightarrow> fs \<Rightarrow> 'm db_version \<Rightarrow> entry list \<Rightarrow> bytes \<Rightarrow> bool" where
  "shows_version x sm m f v es torn \<longleftrightarrow>
     (\<exists>ws. wals m = ws @ [wal_id (mutable_wal v)]
        \<and> list_all2 (\<lambda>w mt. \<exists>i es torn. wal_mirrors x sm f w i es torn mt) ws (frozen_memtables v))
     \<and> wal_mirrors x sm f (wal_id (mutable_wal v)) (wal_file (mutable_wal v)) es torn (mutable_memtable v)
     \<and> list_all2 (list_all2 (\<lambda>meta s. sst_new x f (sst_name (unat (file_id meta))) = Inr s)) (level_files m) (sstables v)"

lemma durable_iff:
  "durable x sm m f v es torn \<longleftrightarrow>
     fs_wf f \<and> mf_names_ok f \<and> versions_upto f (version m) \<and> manifest_candidates f \<noteq> []
     \<and> fst (recover_or_init (x_crc x) f) = Inr (manifest_reopened m (version m)) \<and> shows_version x sm m f v es torn"
  by (auto simp: durable_def shows_version_def)

lemma shows_version_transfer:
  assumes "shows_version x sm m f v es torn"
    and wals: "\<And>w i es torn mt. w \<in> set (wals m) \<Longrightarrow> wal_mirrors x sm f w i es torn mt \<Longrightarrow> wal_mirrors x sm f' w i es torn mt"
    and ssts: "\<And>meta s. meta \<in> set (concat (level_files m)) \<Longrightarrow> sst_new x f (sst_name (unat (file_id meta))) = Inr s \<Longrightarrow>
      sst_new x f' (sst_name (unat (file_id meta))) = Inr s"
  shows "shows_version x sm m f' v es torn"
proof -
  from assms(1) obtain ws where ws: "wals m = ws @ [wal_id (mutable_wal v)]"
    and frozen: "list_all2 (\<lambda>w mt. \<exists>i es torn. wal_mirrors x sm f w i es torn mt) ws (frozen_memtables v)"
    and mut: "wal_mirrors x sm f (wal_id (mutable_wal v)) (wal_file (mutable_wal v)) es torn (mutable_memtable v)"
    and lv: "list_all2 (list_all2 (\<lambda>meta s. sst_new x f (sst_name (unat (file_id meta))) = Inr s)) (level_files m) (sstables v)"
    unfolding shows_version_def by blast
  have "list_all2 (\<lambda>w mt. \<exists>i es torn. wal_mirrors x sm f' w i es torn mt) ws (frozen_memtables v)"
    using frozen by (rule list.rel_mono_strong) (use wals ws in force)
  moreover have "list_all2 (list_all2 (\<lambda>meta s. sst_new x f' (sst_name (unat (file_id meta))) = Inr s)) (level_files m) (sstables v)"
    using lv
  proof (rule list.rel_mono_strong)
    fix ms ss
    assume "ms \<in> set (level_files m)" "list_all2 (\<lambda>meta s. sst_new x f (sst_name (unat (file_id meta))) = Inr s) ms ss"
    then show "list_all2 (\<lambda>meta s. sst_new x f' (sst_name (unat (file_id meta))) = Inr s) ms ss"
      using ssts by (auto elim!: list.rel_mono_strong)
  qed
  ultimately show ?thesis using wals [OF _ mut] ws by (auto simp: shows_version_def)
qed

lemma shows_version_frame:
  assumes "shows_version x sm m f v es torn" "fs_frame A f f'" "fs_wf f"
    and "\<forall>w \<in> set (wals m). wal_name (unat w) \<notin> A" "\<forall>meta \<in> set (concat (level_files m)). sst_name (unat (file_id meta)) \<notin> A"
  shows "shows_version x sm m f' v es torn"
  using assms(1)
  by (rule shows_version_transfer) (use assms wal_mirrors_frame [OF assms(2,3)] sst_new_frame [OF assms(2,3)] in blast)+

lemma shows_version_cong:
  assumes "shows_version x sm m f v es torn" "wals m' = wals m" "level_files m' = level_files m"
  shows "shows_version x sm m' f v es torn"
  using assms by (simp add: shows_version_def)

lemma commit_durable:
  assumes f: "fs_wf f" "mf_names_ok f" "versions_upto f (version m)" "unat (version m) + 1 < 2 ^ 32"
    and mut: "mutator m f = (Inr m1, f)" "version m1 = version m" "manifest_ok m1"
    and sv: "shows_version x sm m1 f v es torn"
  defines "m2 \<equiv> m1\<lparr>version := version m + 1\<rparr>"
  shows "\<exists>f2. apply_atomic_update (x_crc x) mutator alone (m, f) = (Inr m2, m2, f2) \<and> durable x sm m2 f2 v es torn
    \<and> fs_frame {mf_tmp_name (unat (version m2)), mf_name (unat (version m2))} f f2"
proof -
  from update_alone [of f m mutator m1 "x_crc x", OF f(1,3,4,2) mut] obtain f2 where
    f2: "apply_atomic_update (x_crc x) mutator alone (m, f) = (Inr m2, m2, f2)" "fs_wf f2" "mf_names_ok f2"
    "versions_upto f2 (version m2)" "recover_or_init (x_crc x) f2 = (Inr (manifest_reopened m2 (version m2)), f2)"
    "manifest_candidates f2 \<noteq> []"
    and fr: "fs_frame {mf_tmp_name (unat (version m2)), mf_name (unat (version m2))} f f2"
    unfolding m2_def by blast
  have "shows_version x sm m2 f v es torn"
    using sv by (rule shows_version_cong) (simp_all add: m2_def level_files_def)
  then have "shows_version x sm m2 f2 v es torn" by (rule shows_version_frame [OF _ fr f(1)]) simp_all
  with f2 fr show ?thesis by (intro exI [of _ f2]) (simp add: durable_iff)
qed

subsection \<open>Garbage collection keeps the disk in step\<close>

lemma gc_mf_names: "mf_names_ok f \<Longrightarrow> mf_names_ok (garbage_collect crc live f)"
  by (auto simp: mf_names_ok_def gc_names)

lemma gc_sst_new:
  assumes "\<not> gc_removed crc live f nm"
  shows "sst_new x (garbage_collect crc live f) nm = sst_new x f nm"
  by (simp only: sst_new_def gc_lookup gc_data if_not_P [OF assms])

lemma durable_gc:
  assumes "durable x sm m f v es torn"
  shows "durable x sm m (garbage_collect (x_crc x) (gc_snapshot m) f) v es torn"
proof -
  let ?f = "garbage_collect (x_crc x) (gc_snapshot m) f"
  from assms have d: "fs_wf f" "mf_names_ok f" "versions_upto f (version m)" "manifest_candidates f \<noteq> []"
    "fst (recover_or_init (x_crc x) f) = Inr (manifest_reopened m (version m))" "shows_version x sm m f v es torn"
    by (simp_all add: durable_iff)
  note live = gc_references_live [of "gc_snapshot m" "x_crc x" f]
  have "shows_version x sm m ?f v es torn"
  proof (rule shows_version_transfer [OF d(6)])
    fix w i es torn mt
    assume "w \<in> set (wals m)" "wal_mirrors x sm f w i es torn mt"
    moreover from this(1) live have "\<not> gc_removed (x_crc x) (gc_snapshot m) f (wal_name (unat w))"
      by (intro gc_keeps_wal) (auto simp: gc_snapshot_def)
    ultimately show "wal_mirrors x sm ?f w i es torn mt" by (simp add: wal_mirrors_def gc_lookup)
  next
    fix meta s
    assume "meta \<in> set (concat (level_files m))" "sst_new x f (sst_name (unat (file_id meta))) = Inr s"
    moreover from this(1) have "file_id meta \<in> snd (gc_snapshot m)" by (auto simp: gc_snapshot_def level_files_def)
    with live have "\<not> gc_removed (x_crc x) (gc_snapshot m) f (sst_name (unat (file_id meta)))"
      by (intro gc_keeps_sst) blast
    ultimately show "sst_new x ?f (sst_name (unat (file_id meta))) = Inr s" by (simp add: gc_sst_new)
  qed
  moreover have "manifest_candidates ?f \<noteq> []"
    using gc_newest [OF d(1,2,4)] by (metis max_by_version.simps(1) option.distinct(1))
  moreover have "versions_upto ?f (version m)" using d(3) by (auto simp: versions_upto_def gc_candidates)
  ultimately show ?thesis
    using gc_wf [OF d(1)] gc_mf_names [OF d(2)] gc_recover_same [OF d(1,2,4)] d(5) by (simp add: durable_iff)
qed

subsection \<open>From the inputs to the outputs\<close>

lemma open_ssts_ok: "\<forall>t \<in> set ts. table_ok x f t \<Longrightarrow> open_ssts msg x f (map t_meta ts) = Inr (map t_sst ts)"
  by (induction ts) (auto simp: table_ok_def)

abbreviation runs_mset :: "table list \<Rightarrow> entry multiset" where
  "runs_mset ts \<equiv> mset (concat (map t_run ts))"

lemma open_merge_ok:
  assumes "\<forall>t \<in> set ts. table_ok x f t"
  shows "\<exists>it. open_merge x f (map t_meta ts) = Inr it \<and> sst_stream.merge_inv x f it (runs_mset ts)
    \<and> it_sources it = (\<lambda>t. sst_file (t_sst t)) ` set ts"
proof -
  have holds: "list_all2 (sst_holds x f) (map t_sst ts) (map t_run ts)"
    using assms by (simp add: list_all2_conv_all_nth table_ok_def)
  have "\<forall>r \<in> set (map t_run ts). sorted_wrt (\<lambda>a b. fst a \<le> fst b) r"
    using assms run_sorted_le by (auto simp: table_ok_def)
  from sst_stream.merge_new_inv [OF sst_stream_new [OF holds] this] obtain it where
    it: "merge_new (sst_iter_next x f) (map sst_iter_new (map t_sst ts)) = Inr it"
    "sst_stream.merge_inv x f it (\<Sum>r \<leftarrow> map t_run ts. mset r)"
    and src: "map (\<lambda>it. sst_file (it_sst it)) (iters it) = map (\<lambda>it. sst_file (it_sst it)) (map sst_iter_new (map t_sst ts))" by blast
  have sum: "(\<Sum>r \<leftarrow> rs. mset r) = mset (concat rs)" for rs :: "entry list list" by (induction rs) auto
  have "sst_stream.merge_inv x f it (runs_mset ts)" using it(2) by (simp only: sum)
  moreover have "it_sources it = (\<lambda>t. sst_file (t_sst t)) ` set ts"
    using arg_cong [OF src, of set] by (simp add: sst_iter_new_def image_image)
  ultimately show ?thesis using it(1) by (simp add: open_merge_def open_ssts_ok [OF assms])
qed

lemma compact_outputs_ok:
  assumes "sst_stream.merge_inv x f it pend" "pend \<noteq> {#}" "ext_ok x" "fs_wf f"
    and "sources_safe f (next_sstable_id m) (it_sources it)" "unat (next_sstable_id m) + size pend \<le> 2 ^ 32"
    and "entries_fit B pend" "unat target + BLOCK_SIZE + B < 2 ^ 29" "keys_distinct pend"
  shows "\<exists>ts f'. compact_outputs x target it m f
      = Some (Inr (map t_meta ts), m\<lparr>next_sstable_id := next_sstable_id m + of_nat (length ts)\<rparr>, f')
    \<and> outputs_ok x target (next_sstable_id m) f ts f' \<and> runs_mset ts = pend
    \<and> run_sorted (concat (map t_run ts)) \<and> length ts \<le> size pend"
proof -
  let ?i = "next_sstable_id m"
  obtain k v it1 where e: "merge_next (sst_iter_next x f) it = Some (Inr ((k, v), it1))" "(k, v) \<in># pend"
    and it1: "sst_stream.merge_inv x f it1 (pend - {#(k, v)#})" "it_sources it1 = it_sources it"
    and k: "\<forall>e' \<in># pend - {#(k, v)#}. k < fst e'" "keys_distinct (pend - {#(k, v)#})"
    using merge_step [OF assms(1,9,2)] by blast
  let ?pend = "pend - {#(k, v)#}" and ?m = "m\<lparr>next_sstable_id := ?i + 1\<rparr>"
  have sz: "size pend = Suc (size ?pend)" using e(2) by (metis insert_DiffM size_add_mset)
  have fit: "entries_fit B (mset [(k, v)] + ?pend)" using assms(7) e(2) by (auto simp: entries_fit_def dest: in_diffD)
  then have len1: "length (enc_all [(k, v)]) \<le> unat target + BLOCK_SIZE + B" by (simp add: entries_fit_def)
  obtain w0 f2 where w0: "writer_new f (sst_name (unat ?i)) = (w0, f2)" by (cases "writer_new f (sst_name (unat ?i))")
  from writing_step [OF writing_start [OF w0], of x k v] obtain w where w: "writer_write x k v w0 = Some w"
    "writing x f ?i [(k, v)] w f2" by auto
  have safe: "sources_safe f ?i (it_sources it1)" using assms(5) it1(2) by simp
  have "fs_frame {sst_name (unat ?i)} f f2"
    using w0 by (auto simp: writer_new_def split: prod.splits intro: fs_frame_create)
  note d2 = sources_data [OF safe this]
  have inv: "sst_stream.merge_inv x f2 it1 ?pend" by (rule merge_inv_data [OF it1(1)]) (use d2 in blast)
  have "next_sstable_id ?m = ?i + 1" "unat ?i + size ?pend + 1 \<le> 2 ^ 32"
    "\<forall>e \<in> set [(k, v)]. \<forall>e' \<in># ?pend. fst e < fst e'" using assms(6) sz k(1) by simp_all
  from compact_loop_ok [OF inv assms(3) w(2) _ _ assms(4) safe this(1,2) fit assms(8) len1 this(3) k(2), of "[]"]
  obtain ts f' out where
    r: "Option.bind (compact_loop x target it1 (Some (w, ?i)) [] ?m f2) (compact_finish x)
      = Some (Inr (map t_meta ts), m\<lparr>next_sstable_id := ?i + of_nat (length ts)\<rparr>, f')"
    "outputs_ok x target ?i f ts f'" "concat (map t_run ts) = (k, v) # out" "mset out = ?pend"
    "run_sorted ((k, v) # out)" "length ts \<le> size ?pend + 1" by auto
  have "compact_loop x target it None [] m f = compact_loop x target it1 (Some (w, ?i)) [] ?m f2"
    by (subst compact_loop.simps) (simp add: e(1) finish_output_def w0 w(1) Let_def)
  with r e(2) sz show ?thesis
    by (intro exI [of _ ts] exI [of _ f']) (simp add: compact_outputs_finish)
qed

subsection \<open>Sizes\<close>

lemma length_enc_all_mset: "mset a = mset b \<Longrightarrow> length (enc_all a) = length (enc_all b)"
proof -
  assume "mset a = mset b"
  moreover have "length (enc_all es) = (\<Sum>e \<in># mset es. length (entry_encode e))" for es by (induction es) auto
  ultimately show ?thesis by simp
qed

lemma outputs_count:
  assumes "outputs_ok x target i f ts f'" "0 < target"
  shows "length ts \<le> 2 * length (enc_all (concat (map t_run ts))) div unat target + 1"
proof -
  let ?h = "\<lambda>t. 2 * length (enc_all (t_run t))"
  have "unat target * length us \<le> sum_list (map ?h us)" if "\<forall>t \<in> set us. unat target \<le> ?h t" for us
    using that by (induction us) auto
  from this [of "butlast ts"] assms(1) have "unat target * (length ts - 1) \<le> sum_list (map ?h (butlast ts))"
    by (simp add: outputs_ok_def)
  also have "\<dots> \<le> sum_list (map ?h ts)"
    using assms(1) by (cases ts rule: rev_cases) (simp_all add: outputs_ok_def)
  also have "\<dots> = 2 * length (enc_all (concat (map t_run ts)))" by (induction ts) auto
  finally have "unat target * (length ts - 1) \<le> 2 * length (enc_all (concat (map t_run ts)))" .
  moreover have "0 < unat target" using assms(2) by (simp add: word_less_nat_alt)
  ultimately have "length ts - 1 \<le> 2 * length (enc_all (concat (map t_run ts))) div unat target"
    by (simp add: less_eq_div_iff_mult_less_eq mult.commute)
  then show ?thesis by simp
qed

lemma set_compact_spec:
  "t \<in> set (concat (compact_spec src rs rt new T)) \<Longrightarrow> t \<in> set (concat T) \<or> t \<in> set new"
proof -
  let ?T = "pad_levels [] (src + 1) T"
  have at: "set (?T ! i) \<subseteq> set (concat T)" if "i < length ?T" for i
    using that by (force simp: pad_levels_def nth_append)
  have all: "\<Union> (set ` set ?T) \<subseteq> set (concat T)" by (auto simp: pad_levels_def)
  assume "t \<in> set (concat (compact_spec src rs rt new T))"
  then have "t \<in> \<Union> (set ` set ?T) \<or> t \<in> set (?T ! src) \<or> t \<in> set (?T ! (src + 1)) \<or> t \<in> set new"
    unfolding compact_spec_def Let_def by (auto dest!: set_update_subset_insert [THEN subsetD])
  moreover have "set (?T ! src) \<subseteq> set (concat T)" "set (?T ! (src + 1)) \<subseteq> set (concat T)"
    by (rule at; simp)+
  ultimately show ?thesis using all by blast
qed

lemma sum_list_update_le:
  fixes xs :: "nat list"
  shows "i < length xs \<Longrightarrow> a \<le> xs ! i + c \<Longrightarrow> sum_list (xs[i := a]) \<le> sum_list xs + c"
proof (induction xs arbitrary: i)
  case (Cons b xs)
  then show ?case by (cases i) force+
qed simp

lemma compact_spec_weight:
  fixes h :: "table \<Rightarrow> nat"
  assumes "src < length T"
  defines "sz \<equiv> \<lambda>l. 4 + sum_list (map h l)"
  shows "sum_list (map sz (compact_spec src rs rt new T)) \<le> sum_list (map sz T) + 4 + sum_list (map h new)"
proof -
  have filt: "sum_list (map h (filter P l)) \<le> sum_list (map h l)" for P l by (induction l) auto
  have srt: "sum_list (map h (sort_key g l)) = sum_list (map h l)" for g :: "table \<Rightarrow> key" and l
    by (metis mset_map mset_sort sum_mset_sum_list)
  let ?T = "pad_levels [] (src + 1) T"
  let ?T2 = "?T[src := filter (\<lambda>t. not_in rs (t_id t)) (?T ! src)]"
  have "sum_list (map sz ?T) \<le> sum_list (map sz T) + 4"
    using assms(1) by (cases "src + 1 < length T") (simp_all add: pad_levels_def sz_def Suc_diff_le)
  moreover have "sum_list (map sz ?T2) \<le> sum_list (map sz ?T) + 0"
    unfolding map_update by (rule sum_list_update_le) (simp_all add: sz_def filt)
  moreover have "sum_list (map sz (compact_spec src rs rt new T)) \<le> sum_list (map sz ?T2) + sum_list (map h new)"
    unfolding compact_spec_def Let_def map_update by (rule sum_list_update_le) (simp_all add: sz_def srt filt)
  ultimately show ?thesis by linarith
qed

lemma manifest_room_mono: "manifest_room m N \<Longrightarrow> n \<le> N \<Longrightarrow> manifest_room m n"
  by (auto simp: manifest_room_def)

lemma manifest_room_compact:
  assumes room: "manifest_room m (length new)" and new: "list_all file_meta_ok (map t_meta new)"
    and m: "level_files m = map (map t_meta) T" "src < length T"
    and m1: "wals m1 = wals m" "level_files m1 = map (map t_meta) (compact_spec src rs rt new T)"
  shows "manifest_ok m1"
proof -
  let ?h = "\<lambda>t. length (file_meta_encode (t_meta t))"
  let ?sz = "\<lambda>fs. 4 + sum_list (map (length \<circ> file_meta_encode) fs)"
  have grow: "sum_list (map ?h new) \<le> 131098 * length new"
    using new by (induction new) (auto dest: length_file_meta_encode)
  have w: "sum_list (map ?sz (map (map t_meta) L)) = sum_list (map (\<lambda>l. 4 + sum_list (map ?h l)) L)" for L
    by (simp add: o_def)
  have "sum_list (map ?sz (level_files m1)) \<le> sum_list (map ?sz (level_files m)) + 4 + sum_list (map ?h new)"
    unfolding m1(2) m(1) w by (rule compact_spec_weight [OF m(2)])
  moreover have "length (manifest_body m) + 4 + 131098 * length new < 2 ^ 32"
    using room by (simp add: manifest_room_def)
  ultimately have len: "length (manifest_body m1) < 2 ^ 32"
    using grow unfolding length_manifest_body m1(1) by linarith
  have "file_meta_ok a" if a: "fs \<in> set (level_files m1)" "a \<in> set fs" for fs a
  proof -
    from a obtain l where "l \<in> set (compact_spec src rs rt new T)" "fs = map t_meta l" by (auto simp: m1(2))
    with a(2) obtain t where t: "t \<in> set (concat (compact_spec src rs rt new T))" "a = t_meta t" by fastforce
    from set_compact_spec [OF t(1)] show ?thesis
    proof
      assume "t \<in> set (concat T)"
      with room t(2) show ?thesis
        by (force simp: manifest_room_def manifest_ok_files m(1) list_all_iff)
    next
      assume "t \<in> set new"
      with new t(2) show ?thesis by (auto simp: list_all_iff)
    qed
  qed
  then have "list_all file_meta_ok fs" if "fs \<in> set (level_files m1)" for fs using that by (auto simp: list_all_iff)
  moreover have "length (wals m1) < 2 ^ 32" using len by (simp add: length_manifest_body)
  ultimately show ?thesis
    using len manifest_body_bounds(1) [of m1] manifest_body_bounds(2) [of _ m1] unfolding manifest_ok_files
    by (meson order.strict_trans1)
qed

subsection \<open>A compaction without interference\<close>

text \<open>
  What a compaction of the tables \<open>ins\<close> needs: identifiers above those in use, one version of
  an internal key in the inputs, entries of at most a quarter of a gigabyte, and room in the
  manifest for the outputs, each of which but the last holds at least half a target's bytes.
\<close>

definition can_compact :: "manifest \<Rightarrow> table list list \<Rightarrow> table list \<Rightarrow> u64 \<Rightarrow> bool" where
  "can_compact m T ins target \<longleftrightarrow>
     unat (version m) + 1 < 2 ^ 32 \<and> (\<forall>t \<in> set (concat T). t_id t < next_sstable_id m)
     \<and> unat (next_sstable_id m) + size (runs_mset ins) < 2 ^ 32
     \<and> entries_fit (2 ^ 28) (runs_mset ins) \<and> keys_distinct (runs_mset ins)
     \<and> 0 < target \<and> unat target \<le> 2 ^ 27
     \<and> manifest_room m (2 * length (enc_all (concat (map t_run ins))) div unat target + 1)"

lemma tables_sources_safe:
  assumes "fs_wf f" "\<forall>t \<in> set ts. table_ok x f t \<and> t_id t < i"
  shows "sources_safe f i ((\<lambda>t. sst_file (t_sst t)) ` set ts)"
  unfolding sources_safe_def
proof (intro ballI conjI allI impI)
  fix j
  assume "j \<in> (\<lambda>t. sst_file (t_sst t)) ` set ts"
  then obtain t where t: "t \<in> set ts" "j = sst_file (t_sst t)" by blast
  with assms(2) have lk: "fs_lookup f (t_name t) = Some j" and id: "t_id t < i" by (auto simp: table_ok_def)
  show "j < next_inode f" using fs_lookup_less [OF assms(1) lk] .
  fix n
  assume "unat i \<le> n"
  with id have "sst_name n \<noteq> t_name t" by (simp add: word_less_nat_alt)
  then show "fs_lookup f (sst_name n) \<noteq> Some j" using fs_lookup_inj [OF assms(1) lk] by metis
qed

lemma table_meta_ok: "table_ok x f t \<Longrightarrow> list_all entry_ok (t_run t) \<Longrightarrow> file_meta_ok (t_meta t)"
proof -
  assume t: "table_ok x f t" and ok: "list_all entry_ok (t_run t)"
  have "t_run t \<noteq> []" using table_ok_run [OF t] by simp
  then have "hd (t_run t) \<in> set (t_run t)" "last (t_run t) \<in> set (t_run t)" by simp_all
  with ok have "key_ok (fst (hd (t_run t)))" "key_ok (fst (last (t_run t)))" by (auto simp: list_all_iff)
  with t show ?thesis by (simp add: file_meta_ok_def table_ok_def)
qed

lemma tables_shows:
  assumes "level_files m' = map (map t_meta) T" "sstables v' = map (map t_sst) T" "\<forall>t \<in> set (concat T). table_ok x f t"
    and "shows_version x sm m f v es torn" "wals m' = wals m" "mutable_wal v' = mutable_wal v"
    "frozen_memtables v' = frozen_memtables v" "mutable_memtable v' = mutable_memtable v"
  shows "shows_version x sm m' f v' es torn"
proof -
  have "list_all2 (list_all2 (\<lambda>meta s. sst_new x f (sst_name (unat (file_id meta))) = Inr s)) (map (map t_meta) T) (map (map t_sst) T)"
    using assms(3) by (auto simp: list_all2_map1 list_all2_map2 table_ok_def intro!: list.rel_refl_strong)
  with assms show ?thesis by (simp add: shows_version_def)
qed

lemma tables_distinct_names:
  assumes "\<forall>t \<in> set ts. t_id t < i" "n \<le> 2 ^ 32 - unat i"
  shows "\<forall>t \<in> set ts. t_name t \<notin> sst_names i n"
  using assms by (auto simp: sst_names_def word_less_nat_alt)

lemma table_ok_gc:
  assumes "table_ok x f t" "level_files m = map (map t_meta) T" "t \<in> set (concat T)"
  shows "table_ok x (garbage_collect (x_crc x) (gc_snapshot m) f) t"
proof -
  have "t_id t \<in> snd (gc_snapshot m)"
  proof -
    from assms(3) obtain l where "l \<in> set T" "t \<in> set l" by auto
    then have "t_meta t \<in> set (concat (level_files m))" unfolding assms(2) by auto
    then show ?thesis by (auto simp: gc_snapshot_def level_files_def)
  qed
  then have "\<not> gc_removed (x_crc x) (gc_snapshot m) f (t_name t)"
    using gc_references_live [of "gc_snapshot m" "x_crc x" f] by (intro gc_keeps_sst) blast
  with assms(1) show ?thesis by (simp add: table_ok_def gc_sst_new gc_lookup sst_holds_def)
qed

lemma execute_compaction_ok:
  assumes D: "durable x sm m f v es torn" and ext: "ext_ok x" and T: "tables x f m v T" and src: "src < length T"
    and ins: "set ins \<subseteq> set (concat T)" "ins \<noteq> []" and can: "can_compact m T ins target"
  shows "\<exists>m' f' ts. execute_compaction x alone src (map t_meta ins) rs rt target (m, f, v)
      = Some (Inr (), m', f', v\<lparr>sstables := map (map t_sst) (compact_spec src rs rt ts T)\<rparr>)
    \<and> tables x f' m' (v\<lparr>sstables := map (map t_sst) (compact_spec src rs rt ts T)\<rparr>) (compact_spec src rs rt ts T)
    \<and> durable x sm m' f' (v\<lparr>sstables := map (map t_sst) (compact_spec src rs rt ts T)\<rparr>) es torn
    \<and> runs_mset ts = runs_mset ins \<and> run_sorted (concat (map t_run ts)) \<and> ts \<noteq> []
    \<and> (\<forall>t \<in> set ts. t_run t \<noteq> [] \<and> t_min t = fst (hd (t_run t)) \<and> t_max t = fst (last (t_run t)))
    \<and> (\<forall>t \<in> set (butlast ts). unat target \<le> 2 * length (enc_all (t_run t)))
    \<and> map t_id ts = map (\<lambda>n. next_sstable_id m + of_nat n) [0..<length ts] \<and> length ts \<le> size (runs_mset ins)
    \<and> next_sstable_id m' = next_sstable_id m + of_nat (length ts)
    \<and> wals m' = wals m \<and> version m' = version m + 1"
proof -
  let ?i = "next_sstable_id m" and ?pend = "runs_mset ins"
  from D have d: "fs_wf f" "mf_names_ok f" "versions_upto f (version m)" and sv: "shows_version x sm m f v es torn"
    by (simp_all add: durable_iff)
  from T have lf: "level_files m = map (map t_meta) T" and st: "sstables v = map (map t_sst) T"
    and ok: "\<forall>t \<in> set (concat T). table_ok x f t" by (simp_all add: tables_def)
  from can have c: "unat (version m) + 1 < 2 ^ 32" "\<forall>t \<in> set (concat T). t_id t < ?i" "unat ?i + size ?pend < 2 ^ 32"
    "entries_fit (2 ^ 28) ?pend" "keys_distinct ?pend" "0 < target" "unat target \<le> 2 ^ 27"
    and room: "manifest_room m (2 * length (enc_all (concat (map t_run ins))) div unat target + 1)"
    by (simp_all add: can_compact_def)
  have ins_ok: "\<forall>t \<in> set ins. table_ok x f t \<and> t_id t < ?i" using ins(1) ok c(2) by blast
  then obtain it where it: "open_merge x f (map t_meta ins) = Inr it" "sst_stream.merge_inv x f it ?pend"
    "it_sources it = (\<lambda>t. sst_file (t_sst t)) ` set ins" using open_merge_ok [of ins x f] by blast
  have safe: "sources_safe f ?i (it_sources it)" unfolding it(3) by (rule tables_sources_safe [OF d(1) ins_ok])
  have ne: "?pend \<noteq> {#}" using ins(2) ins_ok table_ok_run by (cases ins) fastforce+
  have fits: "unat target + BLOCK_SIZE + 2 ^ 28 < 2 ^ 29" using c(7) by (simp add: BLOCK_SIZE_def)
  from compact_outputs_ok [OF it(2) ne ext d(1) safe less_imp_le [OF c(3)] c(4) fits c(5)] obtain ts f1 where
    out: "compact_outputs x target it m f = Some (Inr (map t_meta ts), m\<lparr>next_sstable_id := ?i + of_nat (length ts)\<rparr>, f1)"
    "outputs_ok x target ?i f ts f1" "runs_mset ts = ?pend" "run_sorted (concat (map t_run ts))" "length ts \<le> size ?pend"
    by blast
  let ?m1 = "m\<lparr>next_sstable_id := ?i + of_nat (length ts)\<rparr>" and ?T = "compact_spec src rs rt ts T"
  let ?v = "v\<lparr>sstables := map (map t_sst) ?T\<rparr>"
  from out(2) have new: "\<forall>t \<in> set ts. table_ok x f1 t \<and> list_all entry_ok (t_run t)" and wf1: "fs_wf f1"
    and fr1: "fs_frame (sst_names ?i (length ts)) f f1" and nots: "ts \<noteq> []" by (simp_all add: outputs_ok_def)
  have apart: "\<forall>t \<in> set (concat T). t_name t \<notin> sst_names ?i (length ts)"
    by (rule tables_distinct_names) (use c(2,3) out(5) in auto)
  have ok1: "\<forall>t \<in> set (concat ?T). table_ok x f1 t"
    using set_compact_spec new ok apart table_ok_frame [OF _ fr1 d(1)] by blast
  obtain m2 where m2: "compact_mutator src rs rt (map t_meta ts) ?m1 = Inr m2" "level_files m2 = map (map t_meta) ?T"
    "wals m2 = wals m" "version m2 = version m" "next_sstable_id m2 = ?i + of_nat (length ts)"
    using compact_mutator_spec [of ?m1 T src rs rt ts] lf by (auto simp: level_files_def)
  have "list_all file_meta_ok (map t_meta ts)" using new table_meta_ok by (auto simp: list_all_iff)
  moreover have "manifest_room m (length ts)"
    using outputs_count [OF out(2) c(6)] length_enc_all_mset [OF out(3)] by (intro manifest_room_mono [OF room]) simp
  ultimately have mok: "manifest_ok m2" using manifest_room_compact [OF _ _ lf src m2(3,2)] by blast
  have "shows_version x sm m f1 v es torn"
    by (rule shows_version_frame [OF sv fr1 d(1)]) (use apart lf in \<open>auto simp: sst_names_def\<close>)
  from tables_shows [OF m2(2) _ ok1 this m2(3), of ?v] have sv2: "shows_version x sm m2 f1 ?v es torn" by simp
  have up1: "versions_upto f1 (version ?m1)"
    using d(3) fs_frame_candidates [OF fr1] by (simp add: versions_upto_def sst_names_extension)
  have mf1: "mf_names_ok f1" by (rule fs_frame_mf_names [OF d(2) fr1]) (auto simp: sst_names_def)
  let ?mut = "\<lambda>m f. (compact_mutator src rs rt (map t_meta ts) m, f)" and ?m3 = "m2\<lparr>version := version m + 1\<rparr>"
  obtain f2 where f2: "apply_atomic_update (x_crc x) ?mut alone (?m1, f1) = (Inr ?m3, ?m3, f2)" "durable x sm ?m3 f2 ?v es torn"
    and fr2: "fs_frame {mf_tmp_name (unat (version ?m3)), mf_name (unat (version ?m3))} f1 f2"
    using commit_durable [of f1 ?m1 ?mut m2 x sm ?v es torn] wf1 mf1 up1 c(1) m2(1,4) mok sv2 by auto
  let ?f3 = "garbage_collect (x_crc x) (gc_snapshot ?m3) f2"
  have d3: "durable x sm ?m3 ?f3 ?v es torn" by (rule durable_gc [OF f2(2)])
  have lf3: "level_files ?m3 = map (map t_meta) ?T" using m2(2) by (simp add: level_files_def)
  have ok3: "table_ok x ?f3 t" if "t \<in> set (concat ?T)" for t
    by (rule table_ok_gc [OF table_ok_frame [OF bspec [OF ok1 that] fr2 wf1] lf3 that]) simp
  have inst: "compact_install src rs rt (map t_sst ts) v = ?v"
    by (rule compact_install_spec [OF st ok]) (use new in blast)
  have "execute_compaction x alone src (map t_meta ins) rs rt target (m, f, v) = Some (Inr (), ?m3, ?f3, ?v)"
    using open_ssts_ok [of ts x f1] new by (simp add: execute_compaction_def it(1) out(1) f2(1) inst)
  moreover have "tables x ?f3 ?m3 ?v ?T" using ok3 lf3 by (simp add: tables_def)
  moreover have "t_run t \<noteq> [] \<and> t_min t = fst (hd (t_run t)) \<and> t_max t = fst (last (t_run t))" if "t \<in> set ts" for t
    using bspec [OF new that] table_ok_run [of x f1 t] by (simp add: table_ok_def)
  ultimately show ?thesis
    using d3 out(2,3,4,5) nots m2(3,5) by (intro exI [of _ ?m3] exI [of _ ?f3] exI [of _ ts]) (simp add: outputs_ok_def)
qed

end
