(* ===== verification/Levels.thy ===== *)
theory Levels
  imports Compaction
begin

text \<open>
  The invariant of the store under the background worker: the directory, the manifest and the
  version show the same tables, and from level 1 on the tables of a level are sorted and do not
  overlap. A flush adds the runs of the frozen memtables to level 0; a compaction moves runs
  down and merges them; neither loses an entry, and both leave a directory from which a restart
  gets the same version.
\<close>

subsection \<open>A flush keeps the disk in step\<close>

lemma open_new_ssts_nth:
  "open_new_ssts x f metas = Inr ss \<Longrightarrow> length ss = length metas
     \<and> (\<forall>i < length metas. sst_new x f (sst_name (unat (file_id (metas ! i)))) = Inr (ss ! i))"
proof (induction metas arbitrary: ss)
  case (Cons a metas)
  then obtain s rest where "sst_new x f (sst_name (unat (file_id a))) = Inr s" "open_new_ssts x f metas = Inr rest" "ss = s # rest"
    by (auto simp: and_then_Inr_iff split: sum.splits)
  with Cons.IH show ?case by (auto simp: less_Suc_eq_0_disj)
qed simp

text \<open>The tables of the files of a flush.\<close>

lemma flush_files_tables:
  assumes "fs_wf f" "ext_ok x" "unat sid + length mts \<le> 2 ^ 32" "\<forall>mt \<in> set mts. run_ok (memtable_iter sm mt)"
  shows "\<exists>ts f'. flush_files x sm sid mts f = Some (Inr (map t_meta ts), f') \<and> fs_wf f'
    \<and> open_new_ssts x f' (map t_meta ts) = Inr (map t_sst ts) \<and> fs_frame (sst_names sid (length mts)) f f'
    \<and> map t_run ts = map (memtable_iter sm) mts \<and> map t_id ts = map (\<lambda>i. sid + of_nat i) [0..<length mts]
    \<and> (\<forall>t \<in> set ts. table_ok x f' t \<and> list_all entry_ok (t_run t))"
proof -
  from flush_files_ok [OF assms] obtain metas ss f' where
    r: "flush_files x sm sid mts f = Some (Inr metas, f')" "fs_wf f'" "open_new_ssts x f' metas = Inr ss"
      "fs_frame (sst_names sid (length mts)) f f'" "length metas = length mts" "length ss = length mts"
    and each: "\<And>i. i < length mts \<Longrightarrow> meta_of (sid + of_nat i) (memtable_iter sm (mts ! i)) (metas ! i)
         \<and> sst_holds x f' (ss ! i) (memtable_iter sm (mts ! i)) \<and> sst_id (ss ! i) = sid + of_nat i
         \<and> fs_lookup f' (sst_name (unat sid + i)) = Some (sst_file (ss ! i))" by blast
  let ?ts = "map (\<lambda>i. (metas ! i, ss ! i, memtable_iter sm (mts ! i))) [0..<length mts]"
  have eq: "map t_meta ?ts = metas" "map t_sst ?ts = ss" "map t_run ?ts = map (memtable_iter sm) mts"
    using r(5,6) by (auto intro!: nth_equalityI)
  have ids: "map t_id ?ts = map (\<lambda>i. sid + of_nat i) [0..<length mts]" using each by (simp add: meta_of_def)
  have "table_ok x f' t \<and> list_all entry_ok (t_run t)" if "t \<in> set ?ts" for t
  proof -
    from that obtain i where i: "i < length mts" "t = (metas ! i, ss ! i, memtable_iter sm (mts ! i))" by auto
    have "unat (sid + of_nat i) = unat sid + i"
    proof -
      have "unat (of_nat i :: u32) = i" using assms(3) i(1) by (intro unat_of_nat_32) simp
      then show ?thesis using assms(3) i(1) by (simp add: unat_add_lem [THEN iffD1])
    qed
    moreover have "run_ok (memtable_iter sm (mts ! i))" using assms(4) i(1) by simp
    moreover have "sst_new x f' (sst_name (unat (file_id (metas ! i)))) = Inr (ss ! i)"
      using open_new_ssts_nth [OF r(3)] i(1) r(5) by simp
    ultimately show ?thesis using each [OF i(1)]
      by (simp add: i(2) table_ok_def meta_of_def run_ok_def run_fits_def)
  qed
  with r eq ids show ?thesis by (intro exI [of _ ?ts] exI [of _ f']) simp
qed

lemma set_add_first: "set (concat (add_first new T)) = set (concat T) \<union> set new"
  by (auto simp: add_first_def split: list.split)

lemma map_add_first: "map (map g) (add_first new T) = add_first (map g new) (map (map g) T)"
  by (simp add: add_first_def split: list.split)

text \<open>
  What a flush needs of the WALs: one for each frozen memtable, and the last one mirrors the mutable
  memtable. It does not look into the others.
\<close>

definition flushable ::
  "ext \<Rightarrow> 'm skipmap \<Rightarrow> manifest \<Rightarrow> fs \<Rightarrow> 'm db_version \<Rightarrow> entry list \<Rightarrow> bytes \<Rightarrow> bool" where
  "flushable x sm m f v es torn \<longleftrightarrow>
     fs_wf f \<and> mf_names_ok f \<and> versions_upto f (version m)
     \<and> (\<exists>ws. wals m = ws @ [wal_id (mutable_wal v)] \<and> length ws = length (frozen_memtables v))
     \<and> wal_mirrors x sm f (wal_id (mutable_wal v)) (wal_file (mutable_wal v)) es torn (mutable_memtable v)"

lemma durable_flushable: "durable x sm m f v es torn \<Longrightarrow> flushable x sm m f v es torn"
  by (auto simp: durable_def flushable_def dest: list_all2_lengthD)

lemma fold_push_l0_next_wal: "next_wal_id (fold push_l0 ss m) = next_wal_id m"
  by (induction ss arbitrary: m) (simp_all add: push_l0_def Let_def)

lemma flush_commit_ok:
  assumes D: "flushable x sm m f v es torn" and ext: "ext_ok x" and T: "tables x f m v T"
    and some: "frozen_memtables v \<noteq> []" and ver: "unat (version m) + 1 < 2 ^ 32"
    and ids: "\<forall>t \<in> set (concat T). t_id t < next_sstable_id m"
      "unat (next_sstable_id m) + length (frozen_memtables v) \<le> 2 ^ 32"
    and room: "manifest_room m (length (frozen_memtables v))"
    and runs: "\<forall>mt \<in> set (frozen_memtables v). run_ok (memtable_iter sm mt)"
  defines "v' \<equiv> \<lambda>T'. v\<lparr>frozen_memtables := [], sstables := map (map t_sst) T'\<rparr>"
  shows "\<exists>m' f' ts. flush_commit x sm alone (m, f, v) = Some (Inr (Some (length ts, map t_sst ts)), m', f')
    \<and> level_files m' = map (map t_meta) (add_first ts T) \<and> (\<forall>t \<in> set (concat (add_first ts T)). table_ok x f' t)
    \<and> durable x sm m' f' (v' (add_first ts T)) es torn
    \<and> map t_run ts = map (memtable_iter sm) (frozen_memtables v)
    \<and> map t_id ts = map (\<lambda>i. next_sstable_id m + of_nat i) [0..<length (frozen_memtables v)]
    \<and> next_sstable_id m' = next_sstable_id m + 1 \<and> next_wal_id m' = next_wal_id m
    \<and> wals m' = [wal_id (mutable_wal v)] \<and> version m' = version m + 1
    \<and> fs_frame (sst_names (next_sstable_id m) (length (frozen_memtables v))
        \<union> {mf_tmp_name (unat (version m')), mf_name (unat (version m'))}) f f'"
proof -
  let ?sid = "next_sstable_id m" and ?mts = "frozen_memtables v" and ?n = "length (frozen_memtables v)"
  let ?m1 = "m\<lparr>next_sstable_id := ?sid + 1\<rparr>"
  from D obtain ws where d: "fs_wf f" "mf_names_ok f" "versions_upto f (version m)"
    and mut0: "wal_mirrors x sm f (wal_id (mutable_wal v)) (wal_file (mutable_wal v)) es torn (mutable_memtable v)"
    and ws: "wals m = ws @ [wal_id (mutable_wal v)]" and lws: "length ws = ?n" by (auto simp: flushable_def)
  from T have lf: "level_files m = map (map t_meta) T" and st: "sstables v = map (map t_sst) T"
    and ok: "\<forall>t \<in> set (concat T). table_ok x f t" by (simp_all add: tables_def)
  have prep: "flush_prepare m v = (Inr (Some \<lparr>fj_memtables = ?mts, fj_sst_id = ?sid, fj_wals = ws\<rparr>), ?m1)"
    using some by (simp add: flush_prepare_def Let_def ws lws [symmetric])
  from flush_files_tables [OF d(1) ext ids(2) runs] obtain ts f1 where
    f1: "flush_files x sm ?sid ?mts f = Some (Inr (map t_meta ts), f1)" "fs_wf f1"
      "open_new_ssts x f1 (map t_meta ts) = Inr (map t_sst ts)" "map t_run ts = map (memtable_iter sm) ?mts"
      "map t_id ts = map (\<lambda>i. ?sid + of_nat i) [0..<?n]"
    and fr1: "fs_frame (sst_names ?sid ?n) f f1"
    and new: "\<forall>t \<in> set ts. table_ok x f1 t \<and> list_all entry_ok (t_run t)" by blast
  have len: "length ts = ?n" using arg_cong [OF f1(4), of length] by simp
  let ?T = "add_first ts T"
  have apart: "\<forall>t \<in> set (concat T). t_name t \<notin> sst_names ?sid ?n"
    by (rule tables_distinct_names [OF ids(1)]) (use ids(2) in simp)
  have ok1: "\<forall>t \<in> set (concat ?T). table_ok x f1 t"
    unfolding set_add_first using new ok apart table_ok_frame [OF _ fr1 d(1)] by blast
  have "map t_meta ts \<noteq> []" using some len by auto
  from flush_mutator_ok [of ws ?m1, OF _ this] obtain m2 where
    m2: "flush_mutator (map t_meta ts) ws ?m1 = Inr m2" "wals m2 = [wal_id (mutable_wal v)]"
      "level_files m2 = map (map t_meta) ?T" "version m2 = version m" "next_sstable_id m2 = ?sid + 1"
    using lf by (auto simp: ws level_files_def map_add_first)
  have "list_all file_meta_ok (map t_meta ts)" using new table_meta_ok by (auto simp: list_all_iff)
  then have mok: "manifest_ok m2"
    using manifest_room_flush [of m "map t_meta ts" m2 "length ws"] room m2(2,3) lf len by (simp add: ws map_add_first)
  have mut: "wal_mirrors x sm f1 (wal_id (mutable_wal v)) (wal_file (mutable_wal v)) es torn (mutable_memtable v)"
    by (rule wal_mirrors_frame [OF fr1 d(1) _ mut0]) (auto simp: sst_names_def)
  have sv2: "shows_version x sm m2 f1 (v' ?T) es torn"
  proof -
    have "list_all2 (list_all2 (\<lambda>meta s. sst_new x f1 (sst_name (unat (file_id meta))) = Inr s)) (map (map t_meta) ?T) (map (map t_sst) ?T)"
      using ok1 by (auto simp: list_all2_map1 list_all2_map2 table_ok_def intro!: list.rel_refl_strong)
    with mut show ?thesis by (simp add: shows_version_def v'_def m2(2,3))
  qed
  have up1: "versions_upto f1 (version ?m1)"
    using d(3) fs_frame_candidates [OF fr1] by (simp add: versions_upto_def sst_names_extension)
  have mf1: "mf_names_ok f1" by (rule fs_frame_mf_names [OF d(2) fr1]) (auto simp: sst_names_def)
  let ?mut = "\<lambda>m f. (flush_mutator (map t_meta ts) ws m, f)" and ?m3 = "m2\<lparr>version := version m + 1\<rparr>"
  obtain f2 where f2: "apply_atomic_update (x_crc x) ?mut alone (?m1, f1) = (Inr ?m3, ?m3, f2)" "durable x sm ?m3 f2 (v' ?T) es torn"
    and fr2: "fs_frame {mf_tmp_name (unat (version ?m3)), mf_name (unat (version ?m3))} f1 f2"
    using commit_durable [of f1 ?m1 ?mut m2 x sm "v' ?T" es torn] f1(2) mf1 up1 ver m2(1,4) mok sv2 by auto
  have "sst_names ?sid ?n \<inter> {mf_tmp_name (unat (version ?m3)), mf_name (unat (version ?m3))} = {}"
    by (auto simp: sst_names_def)
  from fs_frame_trans [OF fr1 fr2 this]
  have fr: "fs_frame (sst_names ?sid ?n \<union> {mf_tmp_name (unat (version ?m3)), mf_name (unat (version ?m3))}) f f2" .
  have "table_ok x f2 t" if "t \<in> set (concat ?T)" for t
    by (rule table_ok_frame [OF bspec [OF ok1 that] fr2 f1(2)]) simp
  moreover have "flush_commit x sm alone (m, f, v) = Some (Inr (Some (length ts, map t_sst ts)), ?m3, f2)"
    using f1(1,3) f2(1) by (simp add: flush_commit_def prep)
  moreover have "next_wal_id m2 = next_wal_id m"
    using m2(1) fold_push_l0_next_wal [of "map t_meta ts" ?m1] by (auto simp: flush_mutator_def Let_def split: if_splits)
  moreover have "level_files ?m3 = map (map t_meta) ?T" using m2(3) by (simp add: level_files_def)
  ultimately show ?thesis
    using f2(2) f1(4,5) m2(2,5) fr by (intro exI [of _ ?m3] exI [of _ f2] exI [of _ ts]) simp
qed

lemma flush_commits:
  assumes D: "flushable x sm m f v es torn" and ext: "ext_ok x" and T: "tables x f m v T"
    and some: "frozen_memtables v \<noteq> []" and ver: "unat (version m) + 1 < 2 ^ 32"
    and ids: "\<forall>t \<in> set (concat T). t_id t < next_sstable_id m"
      "unat (next_sstable_id m) + length (frozen_memtables v) \<le> 2 ^ 32"
    and room: "manifest_room m (length (frozen_memtables v))"
    and runs: "\<forall>mt \<in> set (frozen_memtables v). run_ok (memtable_iter sm mt)"
  defines "v' \<equiv> \<lambda>T'. v\<lparr>frozen_memtables := [], sstables := map (map t_sst) T'\<rparr>"
  shows "\<exists>m' f' ts. flush_memtables x sm alone (m, f, v) = Some (Inr (), m', f', v' (add_first ts T))
    \<and> tables x f' m' (v' (add_first ts T)) (add_first ts T) \<and> durable x sm m' f' (v' (add_first ts T)) es torn
    \<and> map t_run ts = map (memtable_iter sm) (frozen_memtables v)
    \<and> map t_id ts = map (\<lambda>i. next_sstable_id m + of_nat i) [0..<length (frozen_memtables v)]
    \<and> next_sstable_id m' = next_sstable_id m + 1 \<and> wals m' = [wal_id (mutable_wal v)] \<and> version m' = version m + 1"
proof -
  from flush_commit_ok [OF assms(1-9)] obtain m' f2 ts where
    c: "flush_commit x sm alone (m, f, v) = Some (Inr (Some (length ts, map t_sst ts)), m', f2)"
    and lf: "level_files m' = map (map t_meta) (add_first ts T)" and ok: "\<forall>t \<in> set (concat (add_first ts T)). table_ok x f2 t"
    and d: "durable x sm m' f2 (v' (add_first ts T)) es torn"
    and r: "map t_run ts = map (memtable_iter sm) (frozen_memtables v)"
      "map t_id ts = map (\<lambda>i. next_sstable_id m + of_nat i) [0..<length (frozen_memtables v)]"
      "next_sstable_id m' = next_sstable_id m + 1" "wals m' = [wal_id (mutable_wal v)]" "version m' = version m + 1"
    by (elim exE conjE) (simp add: v'_def)
  let ?f3 = "garbage_collect (x_crc x) (gc_snapshot m') f2"
  have len: "length ts = length (frozen_memtables v)" using arg_cong [OF r(1), of length] by simp
  have "table_ok x ?f3 t" if "t \<in> set (concat (add_first ts T))" for t
    by (rule table_ok_gc [OF bspec [OF ok that] lf that])
  then have "tables x ?f3 m' (v' (add_first ts T)) (add_first ts T)" using lf by (simp add: tables_def v'_def)
  moreover have "flush_install (length (map t_meta ts)) (map t_sst ts) v = v' (add_first ts T)"
    using flush_install_eq [of "map t_meta ts" v "map t_sst ts"] len T by (simp add: v'_def tables_def map_add_first)
  then have "flush_memtables x sm alone (m, f, v) = Some (Inr (), m', ?f3, v' (add_first ts T))"
    by (simp add: flush_memtables_commit c)
  ultimately show ?thesis
    using durable_gc [OF d] r by (intro exI [of _ m'] exI [of _ ?f3] exI [of _ ts]) simp
qed

lemmas flush_durable = flush_commits [OF durable_flushable]

subsection \<open>The background does not look at the mutable memtable and its WAL\<close>

definition with_front ::
  "'m memtable \<Rightarrow> wal \<Rightarrow> unit result \<times> manifest \<times> fs \<times> 'm db_version \<Rightarrow> unit result \<times> manifest \<times> fs \<times> 'm db_version" where
  "with_front mt w = (\<lambda>(r, m, f, v). (r, m, f, v\<lparr>mutable_memtable := mt, mutable_wal := w\<rparr>))"

lemma with_front_simp [simp]: "with_front mt w (r, m, f, v) = (r, m, f, v\<lparr>mutable_memtable := mt, mutable_wal := w\<rparr>)"
  by (simp add: with_front_def)

lemma flush_with_front:
  "flush_memtables x sm others (m, f, v\<lparr>mutable_memtable := mt, mutable_wal := w\<rparr>) = map_option (with_front mt w) (flush_memtables x sm others (m, f, v))"
proof -
  have "flush_prepare m (v\<lparr>mutable_memtable := mt, mutable_wal := w\<rparr>) = flush_prepare m v" by (simp add: flush_prepare_def Let_def)
  moreover have "flush_install n ss (v\<lparr>mutable_memtable := mt, mutable_wal := w\<rparr>) = (flush_install n ss v)\<lparr>mutable_memtable := mt, mutable_wal := w\<rparr>" for n ss
    by (simp add: flush_install_def Let_def)
  ultimately show ?thesis
    by (auto simp: flush_memtables_def map_option_bind o_def split: prod.splits sum.splits option.splits intro!: Option.bind_cong)
qed

lemma compact_with_front:
  "execute_compaction x others src fs rs rt target (m, f, v\<lparr>mutable_memtable := mt, mutable_wal := w\<rparr>)
     = map_option (with_front mt w) (execute_compaction x others src fs rs rt target (m, f, v))"
  "compact_l0 x others target (m, f, v\<lparr>mutable_memtable := mt, mutable_wal := w\<rparr>) = map_option (with_front mt w) (compact_l0 x others target (m, f, v))"
  "compact_ln x others lvl target (m, f, v\<lparr>mutable_memtable := mt, mutable_wal := w\<rparr>) = map_option (with_front mt w) (compact_ln x others lvl target (m, f, v))"
proof -
  have "compact_install src rs rt ss (v\<lparr>mutable_memtable := mt, mutable_wal := w\<rparr>) = (compact_install src rs rt ss v)\<lparr>mutable_memtable := mt, mutable_wal := w\<rparr>" for src rs rt ss
    by (simp add: compact_install_def Let_def)
  then show ex: "execute_compaction x others src fs rs rt target (m, f, v\<lparr>mutable_memtable := mt, mutable_wal := w\<rparr>)
      = map_option (with_front mt w) (execute_compaction x others src fs rs rt target (m, f, v))" for src fs rs rt
    by (auto simp: execute_compaction_def map_option_bind o_def split: prod.splits sum.splits intro!: Option.bind_cong)
  show "compact_l0 x others target (m, f, v\<lparr>mutable_memtable := mt, mutable_wal := w\<rparr>) = map_option (with_front mt w) (compact_l0 x others target (m, f, v))"
    "compact_ln x others lvl target (m, f, v\<lparr>mutable_memtable := mt, mutable_wal := w\<rparr>) = map_option (with_front mt w) (compact_ln x others lvl target (m, f, v))"
    by (simp_all add: compact_l0_def compact_ln_def Let_def ex)
qed

subsection \<open>Sorted levels\<close>

definition before :: "table \<Rightarrow> table \<Rightarrow> bool" where
  "before a b \<longleftrightarrow> t_max a < t_min b"

definition apart :: "table \<Rightarrow> table \<Rightarrow> bool" where
  "apart a b \<longleftrightarrow> before a b \<or> before b a"

definition level_sorted :: "table list \<Rightarrow> bool" where
  "level_sorted l \<longleftrightarrow> sorted_wrt before l"

definition span_ok :: "table \<Rightarrow> bool" where
  "span_ok t \<longleftrightarrow> t_run t \<noteq> [] \<and> run_sorted (t_run t) \<and> t_min t = fst (hd (t_run t)) \<and> t_max t = fst (last (t_run t))"

lemma table_ok_span: "table_ok x f t \<Longrightarrow> span_ok t"
  using table_ok_run [of x f t] by (simp add: table_ok_def span_ok_def)

lemma span_entry: "span_ok t \<Longrightarrow> e \<in> set (t_run t) \<Longrightarrow> t_min t \<le> fst e \<and> fst e \<le> t_max t"
proof -
  assume t: "span_ok t" and e: "e \<in> set (t_run t)"
  then have "fst (hd (t_run t)) \<le> fst e" by (cases "t_run t") (auto simp: span_ok_def)
  with t run_sorted_le_last [OF _ e] show ?thesis by (simp add: span_ok_def)
qed

lemma span_min_max: "span_ok t \<Longrightarrow> t_min t \<le> t_max t"
  using span_entry [of t "hd (t_run t)"] by (auto simp: span_ok_def)

text \<open>Sorting by the least key orders tables that do not overlap.\<close>

lemma level_sorted_insort:
  assumes "level_sorted l" "\<forall>b \<in> set l. apart a b" "span_ok a" "\<forall>b \<in> set l. span_ok b"
  shows "level_sorted (insort_key t_min a l)"
  using assms
proof (induction l)
  case (Cons b l)
  have ab: "apart a b" and sp: "t_min a \<le> t_max a" "t_min b \<le> t_max b" using Cons.prems span_min_max by auto
  show ?case
  proof (cases "t_min a \<le> t_min b")
    case True
    have "before a c" if c: "c \<in> set (b # l)" for c
    proof -
      have "t_min b \<le> t_min c" using Cons.prems(1) c sp(2) by (auto simp: level_sorted_def before_def)
      moreover have "t_min c \<le> t_max c" "apart a c" using Cons.prems(2,4) c span_min_max by blast+
      ultimately show ?thesis using True by (auto simp: apart_def before_def)
    qed
    with True Cons.prems(1) show ?thesis by (simp add: level_sorted_def)
  next
    case False
    with ab sp have "before b a" by (auto simp: apart_def before_def)
    with False Cons show ?thesis by (auto simp: level_sorted_def set_insort_key)
  qed
qed (simp add: level_sorted_def)

lemma level_sorted_sort:
  "sorted_wrt apart l \<Longrightarrow> \<forall>a \<in> set l. span_ok a \<Longrightarrow> level_sorted (sort_key t_min l)"
proof (induction l)
  case (Cons a l)
  then show ?case using level_sorted_insort [of "sort_key t_min l" a] by simp
qed (simp add: level_sorted_def)

lemma level_sorted_filter: "level_sorted l \<Longrightarrow> level_sorted (filter P l)"
  by (auto simp: level_sorted_def sorted_wrt_filter)

lemma level_sorted_apart: "level_sorted l \<Longrightarrow> sorted_wrt apart l"
  by (auto simp: level_sorted_def apart_def elim: sorted_wrt_mono_rel [rotated])

lemma apart_in_level: "sorted_wrt apart l \<Longrightarrow> a \<in> set l \<Longrightarrow> b \<in> set l \<Longrightarrow> a \<noteq> b \<Longrightarrow> apart a b"
  by (induction l) (auto simp: apart_def)

text \<open>The outputs of one sorted sequence do not overlap.\<close>

lemma outputs_level_sorted:
  "run_sorted (concat (map t_run ts)) \<Longrightarrow> \<forall>t \<in> set ts. span_ok t \<Longrightarrow> level_sorted ts"
proof (induction ts)
  case (Cons t ts)
  have "before t u" if u: "u \<in> set ts" for u
  proof -
    have "last (t_run t) \<in> set (t_run t)" "hd (t_run u) \<in> set (t_run u)"
      using Cons.prems(2) u by (auto simp: span_ok_def)
    with u Cons.prems show ?thesis by (auto simp: run_sorted_append before_def span_ok_def)
  qed
  with Cons show ?case by (simp add: level_sorted_def run_sorted_append)
qed (simp add: level_sorted_def)

text \<open>
  The tables of the next level that a compaction leaves out do not meet the span of the tables
  it moves; so they do not meet the outputs either, whose keys come from those tables and from
  tables of their own level.
\<close>

definition meets :: "key \<Rightarrow> key \<Rightarrow> table \<Rightarrow> bool" where
  "meets lo hi t \<longleftrightarrow> overlaps lo hi (t_meta t)"

lemma outputs_apart:
  assumes lvl: "level_sorted l" and spans: "\<forall>t \<in> set l. span_ok t" "\<forall>t \<in> set ss. span_ok t" "\<forall>t \<in> set ts. span_ok t"
    and within: "\<forall>t \<in> set ss. lo \<le> t_min t \<and> t_max t \<le> hi"
    and from_ins: "set (concat (map t_run ts)) \<subseteq> set (concat (map t_run (ss @ filter (meets lo hi) l)))"
    and a: "a \<in> set l" "\<not> meets lo hi a" and t: "t \<in> set ts"
  shows "apart a t"
proof -
  have sa: "t_min a \<le> t_max a" using a(1) spans(1) span_min_max by blast
  have ends: "hd (t_run t) \<in> set (t_run t)" "last (t_run t) \<in> set (t_run t)" "span_ok t"
    using t spans(3) by (auto simp: span_ok_def)
  have from_table: "\<exists>s. e \<in> set (t_run s) \<and> span_ok s \<and> (lo \<le> t_min s \<and> t_max s \<le> hi \<or> meets lo hi s \<and> apart a s)"
    if "e \<in> set (t_run t)" for e
  proof -
    from that t have "e \<in> set (concat (map t_run ts))" by auto
    with from_ins have "e \<in> set (concat (map t_run (ss @ filter (meets lo hi) l)))" by blast
    then obtain s where "s \<in> set (ss @ filter (meets lo hi) l)" "e \<in> set (t_run s)"
      unfolding set_concat set_map by blast
    then have s: "s \<in> set ss \<or> s \<in> set l \<and> meets lo hi s" "e \<in> set (t_run s)" by simp_all
    then show ?thesis
    proof (cases "s \<in> set ss")
      case False
      with s have "s \<in> set l" "meets lo hi s" "a \<noteq> s" using a(2) by auto
      with s(2) spans(1) apart_in_level [OF level_sorted_apart [OF lvl] a(1), of s] show ?thesis by blast
    qed (use s spans(2) within in blast)
  qed
  from a(2) consider "t_max a < lo" | "hi < t_min a" by (auto simp: meets_def overlaps_def)
  then show ?thesis
  proof cases
    case 1
    from from_table [OF ends(1)] obtain s where s: "hd (t_run t) \<in> set (t_run s)" "span_ok s"
      "lo \<le> t_min s \<and> t_max s \<le> hi \<or> meets lo hi s \<and> apart a s" by blast
    have "t_max a < t_min s" using s(3) 1 sa by (auto simp: meets_def overlaps_def apart_def before_def)
    then have "t_max a < t_min t" using span_entry [OF s(2,1)] ends(3) by (auto simp: span_ok_def intro: order.strict_trans2)
    then show ?thesis by (simp add: apart_def before_def)
  next
    case 2
    from from_table [OF ends(2)] obtain s where s: "last (t_run t) \<in> set (t_run s)" "span_ok s"
      "lo \<le> t_min s \<and> t_max s \<le> hi \<or> meets lo hi s \<and> apart a s" by blast
    have "t_max s < t_min a" using s(3) 2 sa by (auto simp: meets_def overlaps_def apart_def before_def)
    then have "t_max t < t_min a" using span_entry [OF s(2,1)] ends(3) by (auto simp: span_ok_def intro: order.strict_trans1)
    then show ?thesis by (simp add: apart_def before_def)
  qed
qed

lemma compacted_level_sorted:
  assumes "level_sorted l" "\<forall>t \<in> set l. span_ok t" "\<forall>t \<in> set ss. span_ok t" "\<forall>t \<in> set ts. span_ok t"
    and "\<forall>t \<in> set ss. lo \<le> t_min t \<and> t_max t \<le> hi" "run_sorted (concat (map t_run ts))"
    and "set (concat (map t_run ts)) \<subseteq> set (concat (map t_run (ss @ filter (meets lo hi) l)))"
  shows "level_sorted (sort_key t_min (filter (\<lambda>t. \<not> meets lo hi t) l @ ts))"
proof (rule level_sorted_sort)
  have "sorted_wrt apart (filter (\<lambda>t. \<not> meets lo hi t) l)" by (rule level_sorted_apart [OF level_sorted_filter [OF assms(1)]])
  moreover have "sorted_wrt apart ts" by (rule level_sorted_apart [OF outputs_level_sorted [OF assms(6,4)]])
  ultimately show "sorted_wrt apart (filter (\<lambda>t. \<not> meets lo hi t) l @ ts)"
    using outputs_apart [OF assms(1-5,7)] by (auto simp: sorted_wrt_append)
  show "\<forall>a \<in> set (filter (\<lambda>t. \<not> meets lo hi t) l @ ts). span_ok a" using assms(2,4) by auto
qed

subsection \<open>The tables after a compaction\<close>

definition next_tables :: "table list list \<Rightarrow> nat \<Rightarrow> table list" where
  "next_tables T src = (if src + 1 < length T then T ! (src + 1) else [])"

lemma pad_nth:
  assumes "src < length T"
  shows "pad_levels [] (src + 1) T ! src = T ! src" "pad_levels [] (src + 1) T ! (src + 1) = next_tables T src"
  using assms by (auto simp: pad_levels_def nth_append next_tables_def)

lemma not_in_ids: "not_in (map t_meta ts) i \<longleftrightarrow> i \<notin> t_id ` set ts"
  by (auto simp: not_in_def list_ex_iff)

lemma filter_not_in:
  assumes "inj_on t_id (set l)"
  shows "filter (\<lambda>t. not_in (map t_meta (filter Q l)) (t_id t)) l = filter (\<lambda>t. \<not> Q t) l"
proof (rule filter_cong)
  fix t
  assume t: "t \<in> set l"
  have "t_id t \<in> t_id ` set (filter Q l) \<longleftrightarrow> t \<in> set (filter Q l)"
    by (rule inj_on_image_mem_iff [OF assms t]) auto
  with t show "not_in (map t_meta (filter Q l)) (t_id t) = (\<not> Q t)" by (simp add: not_in_ids)
qed simp

lemma mset_concat_update:
  "i < length L \<Longrightarrow> mset (concat (L[i := x])) + mset (L ! i) = mset (concat L) + mset x"
proof (induction L arbitrary: i)
  case (Cons a L)
  then show ?case by (cases i) (auto simp: ac_simps)
qed simp

text \<open>The compaction of the tables that satisfy \<open>Q\<close> in one level and \<open>P\<close> in the next.\<close>

definition compacted ::
  "nat \<Rightarrow> (table \<Rightarrow> bool) \<Rightarrow> (table \<Rightarrow> bool) \<Rightarrow> table list \<Rightarrow> table list list \<Rightarrow> table list list" where
  "compacted src Q P ts T =
     (pad_levels [] (src + 1) T)[src := filter (\<lambda>t. \<not> Q t) (T ! src),
        src + 1 := sort_key t_min (filter (\<lambda>t. \<not> P t) (next_tables T src) @ ts)]"

lemma next_tables_subset: "src < length T \<Longrightarrow> set (next_tables T src) \<subseteq> set (concat T)"
  by (force simp: next_tables_def)

lemma compact_spec_compacted:
  assumes "src < length T" "inj_on t_id (set (concat T))"
  shows "compact_spec src (map t_meta (filter Q (T ! src))) (map t_meta (filter P (next_tables T src))) ts T = compacted src Q P ts T"
proof -
  have "inj_on t_id (set (T ! src))" by (rule inj_on_subset [OF assms(2)]) (use assms(1) in force)
  moreover have "inj_on t_id (set (next_tables T src))" by (rule inj_on_subset [OF assms(2) next_tables_subset [OF assms(1)]])
  ultimately show ?thesis
    using assms(1) unfolding compact_spec_def compacted_def Let_def by (simp add: pad_nth [simplified] filter_not_in)
qed

lemma mset_compacted:
  assumes "src < length T"
  shows "mset (concat (compacted src Q P ts T)) + mset (filter Q (T ! src) @ filter P (next_tables T src))
    = mset (concat T) + mset ts"
proof -
  let ?T = "pad_levels [] (src + 1) T" and ?S = "filter (\<lambda>t. \<not> Q t) (T ! src)"
  let ?N = "sort_key t_min (filter (\<lambda>t. \<not> P t) (next_tables T src) @ ts)"
  have part: "mset l = mset (filter R l) + mset (filter (\<lambda>t. \<not> R t) l)" for R and l :: "table list" by (induction l) auto
  let ?A = "mset (concat (?T[src := ?S]))" and ?C = "mset (concat (compacted src Q P ts T))"
  have "?A + mset (T ! src) = mset (concat T) + mset ?S"
    using mset_concat_update [of src ?T ?S] pad_nth [OF assms] by (simp add: pad_levels_def)
  then have A: "?A + mset (filter Q (T ! src)) = mset (concat T)"
    unfolding part [of "T ! src" Q] add.assoc [symmetric] by simp
  have "?C + mset (next_tables T src) = ?A + mset ?N"
    using mset_concat_update [of "src + 1" "?T[src := ?S]" ?N] pad_nth [OF assms] by (simp add: compacted_def)
  also have "mset ?N = mset ts + mset (filter (\<lambda>t. \<not> P t) (next_tables T src))" by simp
  finally have "?C + mset (filter P (next_tables T src)) = ?A + mset ts"
    unfolding part [of "next_tables T src" P] add.assoc [symmetric] by simp
  then have "?C + mset (filter P (next_tables T src)) + mset (filter Q (T ! src)) = ?A + mset (filter Q (T ! src)) + mset ts"
    by (simp add: ac_simps)
  then show ?thesis unfolding A by (simp add: ac_simps)
qed

lemma runs_mset_sum: "runs_mset ts = (\<Sum>t \<in># mset ts. mset (t_run t))"
  by (induction ts) auto

lemma runs_mset_compacted:
  assumes "src < length T" "runs_mset ts = runs_mset (filter Q (T ! src) @ filter P (next_tables T src))"
  shows "runs_mset (concat (compacted src Q P ts T)) = runs_mset (concat T)"
  using arg_cong [OF mset_compacted [OF assms(1), of Q P ts], of "\<lambda>M. \<Sum>t \<in># M. mset (t_run t)"] assms(2)
  unfolding runs_mset_sum by simp

lemma length_compacted [simp]: "length (compacted src Q P ts T) = max (length T) (src + 2)"
  by (simp add: compacted_def)

lemma compacted_nth:
  assumes "src < length T"
  shows "compacted src Q P ts T ! src = filter (\<lambda>t. \<not> Q t) (T ! src)"
    and "compacted src Q P ts T ! (src + 1) = sort_key t_min (filter (\<lambda>t. \<not> P t) (next_tables T src) @ ts)"
    and "i \<noteq> src \<Longrightarrow> i \<noteq> src + 1 \<Longrightarrow> i < length T \<Longrightarrow> compacted src Q P ts T ! i = T ! i"
  using assms by (simp_all add: compacted_def pad_levels_def nth_append)

subsection \<open>The invariant of the store\<close>

definition store_ok ::
  "ext \<Rightarrow> 'm skipmap \<Rightarrow> manifest \<Rightarrow> fs \<Rightarrow> 'm db_version \<Rightarrow> entry list \<Rightarrow> bytes \<Rightarrow> table list list \<Rightarrow> bool" where
  "store_ok x sm m f v es torn T \<longleftrightarrow>
     durable x sm m f v es torn \<and> tables x f m v T \<and> distinct (map t_id (concat T))
     \<and> (\<forall>t \<in> set (concat T). t_id t < next_sstable_id m) \<and> (\<forall>i < length T. 0 < i \<longrightarrow> level_sorted (T ! i))"

lemma unat_add_small: "unat (i :: u32) + n < 2 ^ 32 \<Longrightarrow> unat (i + of_nat n) = unat i + n"
  using unat_of_nat_32 [of n] by (simp add: unat_add_lem [THEN iffD1])

lemma new_ids:
  fixes i :: u32
  assumes "map t_id ts = map (\<lambda>n. i + of_nat n) [0..<length ts]" "unat i + length ts < 2 ^ 32"
  shows "distinct (map t_id ts)" "\<forall>t \<in> set ts. i \<le> t_id t \<and> t_id t < i + of_nat (length ts)"
proof -
  have u: "unat (i + of_nat n) = unat i + n" if "n \<le> length ts" for n
    using that assms(2) by (intro unat_add_small) simp
  have "inj_on (\<lambda>n. i + of_nat n) {0..<length ts}"
    by (rule inj_onI) (metis u add_left_cancel atLeastLessThan_iff less_imp_le)
  then show "distinct (map t_id ts)" unfolding assms(1) by (simp add: distinct_map)
  show "\<forall>t \<in> set ts. i \<le> t_id t \<and> t_id t < i + of_nat (length ts)"
  proof
    fix t
    assume "t \<in> set ts"
    then have "t_id t \<in> set (map t_id ts)" by simp
    then obtain n where "n < length ts" "t_id t = i + of_nat n" unfolding assms(1) by auto
    then show "i \<le> t_id t \<and> t_id t < i + of_nat (length ts)"
      by (simp add: word_le_nat_alt word_less_nat_alt u)
  qed
qed

lemma distinct_sub_mset:
  assumes "mset xs \<subseteq># mset ys" "distinct ys"
  shows "distinct xs"
proof -
  obtain zs where "mset zs = mset ys - mset xs" using ex_mset by blast
  with assms(1) have "mset (xs @ zs) = mset ys" by simp
  with assms(2) show ?thesis using mset_eq_imp_distinct_iff [of "xs @ zs" ys] by simp
qed

lemma level_subset: "src < length T \<Longrightarrow> set (T ! src) \<subseteq> set (concat T)"
  by force

lemma compaction_store_ok:
  assumes S: "store_ok x sm m f v es torn T" and ext: "ext_ok x" and src: "src < length T"
    and ss: "filter Q (T ! src) \<noteq> []" "\<forall>t \<in> set (filter Q (T ! src)). lo \<le> t_min t \<and> t_max t \<le> hi"
    and can: "can_compact m T (filter Q (T ! src) @ filter (meets lo hi) (next_tables T src)) target"
  defines "ss \<equiv> filter Q (T ! src)" and "tt \<equiv> filter (meets lo hi) (next_tables T src)"
  shows "\<exists>m' f' ts. let T' = compacted src Q (meets lo hi) ts T; v' = v\<lparr>sstables := map (map t_sst) T'\<rparr> in
    execute_compaction x alone src (map t_meta (ss @ tt)) (map t_meta ss) (map t_meta tt) target (m, f, v) = Some (Inr (), m', f', v')
    \<and> store_ok x sm m' f' v' es torn T' \<and> runs_mset (concat T') = runs_mset (concat T) \<and> wals m' = wals m
    \<and> version m' = version m + 1 \<and> unat (next_sstable_id m') \<le> unat (next_sstable_id m) + size (runs_mset (ss @ tt))"
proof -
  from S have D: "durable x sm m f v es torn" and T: "tables x f m v T" and dist: "distinct (map t_id (concat T))"
    and ids: "\<forall>t \<in> set (concat T). t_id t < next_sstable_id m" and lv: "\<forall>i < length T. 0 < i \<longrightarrow> level_sorted (T ! i)"
    by (simp_all add: store_ok_def)
  have inj: "inj_on t_id (set (concat T))" using dist by (simp add: distinct_map)
  have sub: "set (ss @ tt) \<subseteq> set (concat T)" 
    using level_subset [OF src] next_tables_subset [OF src] unfolding ss_def tt_def by auto
  obtain m' f' ts where
    ex: "execute_compaction x alone src (map t_meta (ss @ tt)) (map t_meta ss) (map t_meta tt) target (m, f, v)
      = Some (Inr (), m', f', v\<lparr>sstables := map (map t_sst) (compacted src Q (meets lo hi) ts T)\<rparr>)"
    and r: "tables x f' m' (v\<lparr>sstables := map (map t_sst) (compacted src Q (meets lo hi) ts T)\<rparr>) (compacted src Q (meets lo hi) ts T)"
      "durable x sm m' f' (v\<lparr>sstables := map (map t_sst) (compacted src Q (meets lo hi) ts T)\<rparr>) es torn"
      "runs_mset ts = runs_mset (ss @ tt)" "run_sorted (concat (map t_run ts))"
      "\<forall>t \<in> set ts. t_run t \<noteq> [] \<and> t_min t = fst (hd (t_run t)) \<and> t_max t = fst (last (t_run t))"
    and tid: "map t_id ts = map (\<lambda>n. next_sstable_id m + of_nat n) [0..<length ts]" "length ts \<le> size (runs_mset (ss @ tt))"
      "next_sstable_id m' = next_sstable_id m + of_nat (length ts)" and w: "wals m' = wals m" "version m' = version m + 1"
    using execute_compaction_ok [OF D ext T src sub _ can [folded ss_def tt_def], of "map t_meta ss" "map t_meta tt"] ss(1)
    unfolding ss_def tt_def compact_spec_compacted [OF src inj] by auto
  let ?T = "compacted src Q (meets lo hi) ts T"
  have small: "unat (next_sstable_id m) + length ts < 2 ^ 32"
    using can tid(2) by (simp add: can_compact_def ss_def tt_def)
  note new = new_ids [OF tid(1) small]
  have tms: "mset (concat ?T) + mset (ss @ tt) = mset (concat T) + mset ts"
    using mset_compacted [OF src] by (simp add: ss_def tt_def)
  have in_T: "t \<in> set (concat T) \<or> t \<in> set ts" if "t \<in> set (concat ?T)" for t
    using arg_cong [OF tms, of set_mset] that by auto
  have le: "next_sstable_id m \<le> next_sstable_id m'"
    by (simp add: tid(3) word_le_nat_alt unat_add_small [OF small])
  have "distinct (map t_id (concat T @ ts))"
    using dist new ids by (force simp: distinct_map inj_on_Un dest: leD)
  moreover have ms: "mset (map t_id (concat T @ ts)) = mset (map t_id (concat ?T)) + mset (map t_id (ss @ tt))"
    using arg_cong [OF tms [symmetric], of "image_mset t_id"] by (simp only: mset_map mset_append image_mset_union)
  have "mset (map t_id (concat ?T)) \<subseteq># mset (map t_id (concat T @ ts))"
    unfolding ms by (rule mset_subset_eq_add_left)
  ultimately have d': "distinct (map t_id (concat ?T))" by (rule distinct_sub_mset [rotated])
  have i': "\<forall>t \<in> set (concat ?T). t_id t < next_sstable_id m'"
  proof
    fix t
    assume "t \<in> set (concat ?T)"
    from in_T [OF this] show "t_id t < next_sstable_id m'"
    proof
      assume "t \<in> set (concat T)"
      from bspec [OF ids this] le show ?thesis by (rule order.strict_trans2)
    next
      assume "t \<in> set ts"
      from bspec [OF new(2) this] show ?thesis by (simp only: tid(3))
    qed
  qed
  have span: "\<forall>t \<in> set (concat T). span_ok t" using T by (auto simp: tables_def intro: table_ok_span)
  have rs: "run_sorted (t_run t)" if "t \<in> set ts" for t
    using r(4) that by (induction ts) (auto simp: run_sorted_append)
  have lvl: "level_sorted (?T ! (src + 1))"
    unfolding compacted_nth(2) [OF src]
  proof (rule compacted_level_sorted)
    show "level_sorted (next_tables T src)" using lv by (simp add: next_tables_def level_sorted_def)
    show "\<forall>t \<in> set (next_tables T src). span_ok t" using span next_tables_subset [OF src] by blast
    show "\<forall>t \<in> set ss. span_ok t" using span sub by auto
    show "\<forall>t \<in> set ts. span_ok t" using r(5) rs by (simp add: span_ok_def)
    show "\<forall>t \<in> set ss. lo \<le> t_min t \<and> t_max t \<le> hi" using ss(2) by (simp add: ss_def)
    show "set (concat (map t_run ts)) \<subseteq> set (concat (map t_run (ss @ filter (meets lo hi) (next_tables T src))))"
      using arg_cong [OF r(3), of set_mset] by (simp add: tt_def)
  qed (rule r(4))
  have "level_sorted (?T ! i)" if i: "i < length ?T" "0 < i" for i
  proof -
    consider "i = src" | "i = src + 1" | "i \<noteq> src" "i \<noteq> src + 1" "i < length T" using i(1) src by fastforce
    then show ?thesis
      using lvl lv src i(2) compacted_nth [OF src, where Q = Q and P = "meets lo hi" and ts = ts] level_sorted_filter by cases auto
  qed
  then have "store_ok x sm m' f' (v\<lparr>sstables := map (map t_sst) ?T\<rparr>) es torn ?T"
    using r(1,2) d' i' by (simp add: store_ok_def)
  moreover have "runs_mset (concat ?T) = runs_mset (concat T)"
    using r(3) unfolding ss_def tt_def by (rule runs_mset_compacted [OF src])
  moreover have "unat (next_sstable_id m') \<le> unat (next_sstable_id m) + size (runs_mset (ss @ tt))"
    using tid(2) unat_add_small [OF small] unfolding tid(3) by linarith
  ultimately show ?thesis using ex w unfolding Let_def by blast
qed

subsection \<open>The two compactions\<close>

lemma files_of_level:
  "level_files m = map (map t_meta) T \<Longrightarrow> i < length T \<Longrightarrow> files (levels m ! i) = map t_meta (T ! i)"
  unfolding level_files_def by (metis length_map nth_map)

lemma length_levels: "level_files m = map (map t_meta) T \<Longrightarrow> length (levels m) = length T"
  unfolding level_files_def by (metis length_map)

lemma next_overlaps_tables:
  assumes "level_files m = map (map t_meta) T"
  shows "next_overlaps m src lo hi = map t_meta (filter (meets lo hi) (next_tables T src))"
  using files_of_level [OF assms, of "src + 1"]
  by (simp add: next_overlaps_def next_tables_def length_levels [OF assms] filter_map o_def meets_def [abs_def])

text \<open>The span of a list of tables.\<close>

definition span_lo :: "table list \<Rightarrow> key" where "span_lo ts = Min (set (map t_min ts))"
definition span_hi :: "table list \<Rightarrow> key" where "span_hi ts = Max (set (map t_max ts))"

lemma in_span: "\<forall>t \<in> set ts. span_lo ts \<le> t_min t \<and> t_max t \<le> span_hi ts"
  by (simp add: span_lo_def span_hi_def)

text \<open>The tables a compaction of \<open>src\<close> merges when it moves the tables \<open>ss\<close>.\<close>

definition merged_tables :: "nat \<Rightarrow> table list \<Rightarrow> table list list \<Rightarrow> table list" where
  "merged_tables src ss T = ss @ filter (meets (span_lo ss) (span_hi ss)) (next_tables T src)"

lemma drop_compacted: "src < length T \<Longrightarrow> drop (src + 2) (compacted src Q P ts T) = drop (src + 2) T"
  by (auto simp: compacted_def pad_levels_def)

lemma take_compacted: "src < length T \<Longrightarrow> take src (compacted src Q P ts T) = take src T"
  by (auto simp: compacted_def pad_levels_def)

definition compaction_result ::
  "ext \<Rightarrow> 'm skipmap \<Rightarrow> manifest \<Rightarrow> 'm db_version \<Rightarrow> entry list \<Rightarrow> bytes \<Rightarrow> nat \<Rightarrow> table list \<Rightarrow> table list \<Rightarrow> table list list
    \<Rightarrow> (unit result \<times> manifest \<times> fs \<times> 'm db_version) option \<Rightarrow> bool" where
  "compaction_result x sm m v es torn src left ins T r \<longleftrightarrow>
     (\<exists>m' f' T'. r = Some (Inr (), m', f', v\<lparr>sstables := map (map t_sst) T'\<rparr>)
        \<and> store_ok x sm m' f' (v\<lparr>sstables := map (map t_sst) T'\<rparr>) es torn T'
        \<and> length T' = max (length T) (src + 2) \<and> T' ! src = left \<and> runs_mset (concat T') = runs_mset (concat T)
        \<and> take src T' = take src T \<and> drop (src + 2) T' = drop (src + 2) T
        \<and> wals m' = wals m \<and> version m' = version m + 1
        \<and> unat (next_sstable_id m') \<le> unat (next_sstable_id m) + size (runs_mset ins))"

lemma compaction_result_ok:
  assumes S: "store_ok x sm m f v es torn T" "ext_ok x" and src: "src < length T" and ss: "filter Q (T ! src) = ss" "ss \<noteq> []"
    and can: "can_compact m T (merged_tables src ss T) target"
  shows "compaction_result x sm m v es torn src (filter (\<lambda>t. \<not> Q t) (T ! src)) (merged_tables src ss T) T
    (execute_compaction x alone src (map t_meta (merged_tables src ss T)) (map t_meta ss)
       (next_overlaps m src (span_lo ss) (span_hi ss)) target (m, f, v))"
proof -
  from S(1) have lf: "level_files m = map (map t_meta) T" by (simp add: store_ok_def tables_def)
  have "\<exists>m' f' ts. let T' = compacted src Q (meets (span_lo ss) (span_hi ss)) ts T; v' = v\<lparr>sstables := map (map t_sst) T'\<rparr> in
    execute_compaction x alone src (map t_meta (merged_tables src ss T)) (map t_meta ss)
       (next_overlaps m src (span_lo ss) (span_hi ss)) target (m, f, v) = Some (Inr (), m', f', v')
    \<and> store_ok x sm m' f' v' es torn T' \<and> runs_mset (concat T') = runs_mset (concat T) \<and> wals m' = wals m
    \<and> version m' = version m + 1 \<and> unat (next_sstable_id m') \<le> unat (next_sstable_id m) + size (runs_mset (merged_tables src ss T))"
    unfolding next_overlaps_tables [OF lf] merged_tables_def
    using compaction_store_ok [OF S src, of Q "span_lo ss" "span_hi ss" target] ss in_span [of ss] can
    unfolding merged_tables_def by (simp only: ss(1) simp_thms)
  then show ?thesis
    unfolding compaction_result_def Let_def using compacted_nth(1) [OF src] drop_compacted [OF src] take_compacted [OF src] length_compacted by blast
qed

lemma compact_l0_ok:
  assumes S: "store_ok x sm m f v es torn T" "ext_ok x" and ne: "T \<noteq> []" "T ! 0 \<noteq> []"
    and can: "can_compact m T (merged_tables 0 (T ! 0) T) target"
  shows "compaction_result x sm m v es torn 0 [] (merged_tables 0 (T ! 0) T) T (compact_l0 x alone target (m, f, v))"
proof -
  from S(1) have lf: "level_files m = map (map t_meta) T" by (simp add: store_ok_def tables_def)
  have "levels m \<noteq> []" using length_levels [OF lf] ne(1) by auto
  moreover have "files (levels m ! 0) = map t_meta (T ! 0)" by (rule files_of_level [OF lf]) (use ne(1) in simp)
  ultimately have "compact_l0 x alone target (m, f, v) = execute_compaction x alone 0 (map t_meta (merged_tables 0 (T ! 0) T))
     (map t_meta (T ! 0)) (next_overlaps m 0 (span_lo (T ! 0)) (span_hi (T ! 0))) target (m, f, v)"
    using ne(2) by (simp add: compact_l0_def Let_def merged_tables_def next_overlaps_tables [OF lf] span_lo_def span_hi_def image_image)
  then show ?thesis using compaction_result_ok [OF S, of 0 "\<lambda>_. True"] ne can by simp
qed

lemma distinct_of_map_ids: "distinct (map t_id ts) \<Longrightarrow> distinct ts"
  by (simp add: distinct_map)

lemma compact_ln_ok:
  assumes S: "store_ok x sm m f v es torn T" "ext_ok x" and src: "src < length T" "T ! src = t # rest"
    and can: "can_compact m T (merged_tables src [t] T) target"
  shows "compaction_result x sm m v es torn src rest (merged_tables src [t] T) T (compact_ln x alone src target (m, f, v))"
proof -
  from S(1) have lf: "level_files m = map (map t_meta) T" by (simp add: store_ok_def tables_def)
  have lvl: "files (levels m ! src) = map t_meta (T ! src)" by (rule files_of_level [OF lf src(1)])
  have span: "span_lo [t] = t_min t" "span_hi [t] = t_max t" by (simp_all add: span_lo_def span_hi_def)
  have "compact_ln x alone src target (m, f, v) = execute_compaction x alone src (map t_meta (merged_tables src [t] T))
     (map t_meta [t]) (next_overlaps m src (span_lo [t]) (span_hi [t])) target (m, f, v)"
    using src by (simp add: compact_ln_def Let_def lvl length_levels [OF lf] merged_tables_def next_overlaps_tables [OF lf] span)
  moreover have "distinct (t # rest)"
  proof -
    from S(1) have "distinct (concat (map (map t_id) T))" by (simp add: store_ok_def map_concat)
    then have "distinct (map t_id (T ! src))" using src(1) by (auto simp: distinct_concat_iff)
    then show ?thesis unfolding src(2) by (rule distinct_of_map_ids)
  qed
  then have "filter (\<lambda>u. u = t) (T ! src) = [t]" "filter (\<lambda>u. u \<noteq> t) (T ! src) = rest"
    unfolding src(2) by (auto simp: filter_empty_conv filter_id_conv)
  ultimately show ?thesis using compaction_result_ok [OF S src(1), of "\<lambda>u. u = t" "[t]"] can by simp
qed

text \<open>C5: A compaction of level 0 merges all its tables and the tables of level 1 that meet their span into new
  tables of level 1. No entry is lost or duplicated, the level stays sorted and free of overlap,
  the other levels are not touched, and a restart from the directory it leaves gives the new version.\<close>

theorem l0_compaction:
  assumes "store_ok x sm m f v es torn T" "ext_ok x" "T \<noteq> []" "T ! 0 \<noteq> []"
    and "can_compact m T (merged_tables 0 (T ! 0) T) target"
  shows "\<exists>m' f' v' T'. compact_l0 x alone target (m, f, v) = Some (Inr (), m', f', v')
    \<and> store_ok x sm m' f' v' es torn T' \<and> runs_mset (concat T') = runs_mset (concat T)
    \<and> T' ! 0 = [] \<and> drop 2 T' = drop 2 T \<and> wals m' = wals m \<and> version m' = version m + 1
    \<and> v' = v\<lparr>sstables := map (map t_sst) T'\<rparr>"
  using compact_l0_ok [OF assms] unfolding compaction_result_def add_0 by blast

text \<open>C7: A compaction of a level from 1 on moves its first table down, merging it with the tables of the next level
  it meets: no entry is lost or duplicated, the invariant of the store is kept, and only the two
  levels change.\<close>

theorem ln_compaction:
  assumes "store_ok x sm m f v es torn T" "ext_ok x" "src < length T" "T ! src = t # rest"
    and "can_compact m T (merged_tables src [t] T) target"
  shows "\<exists>m' f' v' T'. compact_ln x alone src target (m, f, v) = Some (Inr (), m', f', v')
    \<and> store_ok x sm m' f' v' es torn T' \<and> runs_mset (concat T') = runs_mset (concat T)
    \<and> T' ! src = rest \<and> take src T' = take src T \<and> drop (src + 2) T' = drop (src + 2) T
    \<and> wals m' = wals m \<and> version m' = version m + 1 \<and> v' = v\<lparr>sstables := map (map t_sst) T'\<rparr>"
  using compact_ln_ok [OF assms] unfolding compaction_result_def by blast

subsection \<open>Reads from a compacted store\<close>

text \<open>In a sorted level the newest version of a key comes first, also if its versions are in several tables.\<close>

lemma sorted_level_newest_first:
  assumes "level_sorted l" "\<forall>t \<in> set l. span_ok t"
  shows "newest_first key (map t_run l)"
proof -
  have "lsn (fst e') < lsn (fst e)"
    if ab: "before a b" "a \<in> set l" "b \<in> set l" and e: "e \<in> set (t_run a)" "e' \<in> set (t_run b)" "kbytes (fst e) = key" "kbytes (fst e') = key"
    for a b e e'
  proof -
    have "fst e \<le> t_max a" "t_min b \<le> fst e'" using span_entry assms(2) ab e by blast+
    then have "fst e < fst e'" using ab(1) unfolding before_def by (meson order.strict_trans1 order.strict_trans2)
    then show ?thesis using e(3,4) by (simp add: key_less_iff)
  qed
  then show ?thesis
    using assms(1) unfolding newest_first_def sorted_wrt_map level_sorted_def
    by (auto elim!: sorted_wrt_mono_rel [rotated])
qed

definition silent :: "'m skipmap \<Rightarrow> 'm db_version \<Rightarrow> bytes \<Rightarrow> bool" where
  "silent sm v key \<longleftrightarrow> (\<forall>mt \<in> set (mutable_memtable v # frozen_memtables v).
     memtable_ok sm mt \<and> (\<forall>e \<in> set (memtable_iter sm mt). kbytes (fst e) \<noteq> key))"

lemma tables_hold:
  assumes "tables x f m v T" "\<forall>mt \<in> set (mutable_memtable v # frozen_memtables v). memtable_ok sm mt"
  shows "version_holds x sm f v (map (map t_run) T)"
proof -
  have "list_all2 (list_all2 (sst_holds x f)) (map (map t_sst) T) (map (map t_run) T)"
    using assms(1) by (auto simp: tables_def list_all2_map1 list_all2_map2 table_ok_def intro!: list.rel_refl_strong)
  with assms show ?thesis by (auto simp: version_holds_def tables_def table_ok_def)
qed

lemma one_level_get:
  assumes T: "tables x f m v T" and sm: "skipmap_ok sm" and quiet: "silent sm v key"
    and one: "concat T = l" "level_sorted l"
  shows "(is_newest key (map t_run l) (k, val) \<longrightarrow> db_get x sm f v key = Some (Inr (Some val)))
    \<and> ((\<forall>e \<in> set (concat (map t_run l)). kbytes (fst e) \<noteq> key) \<longrightarrow> db_get x sm f v key = Some (Inr None))"
proof -
  have holds: "version_holds x sm f v (map (map t_run) T)"
    by (rule tables_hold [OF T]) (use quiet in \<open>auto simp: silent_def\<close>)
  have none: "latest (memtable_iter sm mt) key = None" if "mt \<in> set (mutable_memtable v # rev (frozen_memtables v))" for mt
    using quiet that by (auto simp: silent_def latest_None_iff)
  have skip: "\<forall>a \<in> set (map (\<lambda>m. visible (latest (memtable_iter sm m) key)) (mutable_memtable v # rev (frozen_memtables v))). a = None"
    using none by auto
  have get: "db_get x sm f v key = Some (Inr (first_some (map (\<lambda>r. map_option snd (latest r key)) (map t_run l))))"
    unfolding db_get_first [OF sm holds] first_some_skip [OF skip] by (simp add: one(1) [symmetric] map_concat)
  have spans: "\<forall>t \<in> set l. span_ok t" using T one(1) by (auto simp: tables_def intro: table_ok_span)
  show ?thesis
  proof (intro conjI impI)
    assume new: "is_newest key (map t_run l) (k, val)"
    have "\<forall>r \<in> set (map t_run l). run_sorted r" using spans by (auto simp: span_ok_def)
    from newest_is_first [OF sorted_level_newest_first [OF one(2) spans] new this] obtain us r vs where
      u: "map t_run l = us @ r # vs" "\<forall>u \<in> set us. latest u key = None" "latest r key = Some (k, val)" by blast
    have "\<forall>a \<in> set (map (\<lambda>r. map_option snd (latest r key)) us). a = None" using u(2) by auto
    from first_some_skip [OF this] show "db_get x sm f v key = Some (Inr (Some val))"
      unfolding get u(1) by (simp add: u(3))
  next
    assume "\<forall>e \<in> set (concat (map t_run l)). kbytes (fst e) \<noteq> key"
    then have "\<forall>a \<in> set (map (\<lambda>r. map_option snd (latest r key)) (map t_run l)). a = None"
      by (auto simp: latest_None_iff)
    from first_some_skip [OF this, of "[]"] show "db_get x sm f v key = Some (Inr None)" unfolding get by simp
  qed
qed

text \<open>C6: A compaction of level 0 of a store with no levels below level 1 makes lookups right, whatever order the tables of
  level 0 were in: a key no memtable knows is looked up to its newest version in the whole store as it was before,
  to the value \<open>Tombstone\<close> if that is a deletion, and to nothing if there is no version.\<close>

theorem reads_after_compaction:
  assumes "store_ok x sm m f v es torn T" "ext_ok x" "T \<noteq> []" "T ! 0 \<noteq> []" "length T \<le> 2"
    and "can_compact m T (merged_tables 0 (T ! 0) T) target" "skipmap_ok sm" "silent sm v key"
  shows "\<exists>m' f' v'. compact_l0 x alone target (m, f, v) = Some (Inr (), m', f', v')
    \<and> (\<forall>k val. is_newest key (map t_run (concat T)) (k, val) \<longrightarrow> db_get x sm f' v' key = Some (Inr (Some val)))
    \<and> ((\<forall>e \<in># runs_mset (concat T). kbytes (fst e) \<noteq> key) \<longrightarrow> db_get x sm f' v' key = Some (Inr None))"
proof -
  from compact_l0_ok [OF assms(1-4,6)] obtain m' f' T' where
    r: "compact_l0 x alone target (m, f, v) = Some (Inr (), m', f', v\<lparr>sstables := map (map t_sst) T'\<rparr>)"
      "store_ok x sm m' f' (v\<lparr>sstables := map (map t_sst) T'\<rparr>) es torn T'" "length T' = 2" "T' ! 0 = []"
      "runs_mset (concat T') = runs_mset (concat T)"
    using assms(5) unfolding compaction_result_def by (auto simp: max_def split: if_splits)
  let ?v = "v\<lparr>sstables := map (map t_sst) T'\<rparr>"
  have "T' = [T' ! 0, T' ! 1]" using r(3) by (intro nth_equalityI) (auto simp: less_Suc_eq numeral_2_eq_2)
  with r(4) obtain l where T': "T' = [[], l]" by metis
  have "level_sorted l" using r(2) by (auto simp: store_ok_def T' dest: spec [of _ 1])
  moreover have "silent sm ?v key" using assms(8) by (simp add: silent_def)
  moreover have "tables x f' m' ?v T'" "concat T' = l" using r(2) by (simp_all add: store_ok_def T')
  ultimately have get: "(is_newest key (map t_run l) (k, val) \<longrightarrow> db_get x sm f' ?v key = Some (Inr (Some val)))
      \<and> ((\<forall>e \<in> set (concat (map t_run l)). kbytes (fst e) \<noteq> key) \<longrightarrow> db_get x sm f' ?v key = Some (Inr None))" for k val
    using one_level_get [OF _ assms(7)] by blast
  have same: "set (concat (map t_run l)) = set (concat (map t_run (concat T)))"
    using arg_cong [OF r(5), of set_mset] by (simp add: T')
  then have "is_newest key (map t_run l) e = is_newest key (map t_run (concat T)) e" for e
    unfolding is_newest_def by simp
  moreover have "(\<forall>e \<in> set (concat (map t_run l)). kbytes (fst e) \<noteq> key) = (\<forall>e \<in># runs_mset (concat T). kbytes (fst e) \<noteq> key)"
    unfolding same set_mset_mset ..
  ultimately show ?thesis using get r(1) by (intro exI [of _ m'] exI [of _ f'] exI [of _ ?v]) metis
qed

subsection \<open>Identifiers after a flush\<close>

lemma list_all2_add_first_new:
  assumes "list_all2 (list_all2 R) (add_first xs L) (add_first ys K)" "length L = length K" "length xs = length ys"
  shows "list_all2 R xs ys"
proof (cases L)
  case (Cons l L')
  then obtain k K' where K: "K = k # K'" using assms(2) by (cases K) auto
  with Cons assms(1) have "list_all2 R (l @ xs) (k @ ys)" by (simp add: add_first_def)
  moreover from this have "length l = length k" using assms(3) by (auto dest: list_all2_lengthD)
  ultimately show ?thesis by (simp add: list_all2_append)
qed (use assms(1,2) in \<open>simp add: add_first_def\<close>)

lemma flush_next_id_in_use:
  assumes "flush_ready sm m f v" "ext_ok x" "version_holds x sm f v lvls" "frozen_memtables v = mt # mt2 # mts"
  shows "\<exists>m' f' v' s. flush_memtables x sm alone (m, f, v) = Some (Inr (), m', f', v')
    \<and> s \<in> set (concat (sstables v')) \<and> sst_holds x f' s (memtable_iter sm mt2) \<and> sst_id s = next_sstable_id m'
    \<and> fs_lookup f' (sst_name (unat (sst_id s))) = Some (sst_file s)"
proof -
  from flush_memtables_ok [OF assms(1-3)] obtain m' f' v' objs metas where
    r: "flush_memtables x sm alone (m, f, v) = Some (Inr (), m', f', v')"
      "v' = v\<lparr>frozen_memtables := [], sstables := add_first objs (sstables v)\<rparr>"
      "version_holds x sm f' v' (flushed_runs sm v lvls)" "next_sstable_id m' = next_sstable_id m + 1"
      "level_files m' = add_first metas (level_files m)" "map sst_id objs = map file_id metas"
      "map file_id metas = map (\<lambda>i. next_sstable_id m + of_nat i) [0..<length (frozen_memtables v)]"
    and lk: "\<forall>s \<in> set objs. fs_lookup f' (sst_name (unat (sst_id s))) = Some (sst_file s)" by blast
  have eq: "map sst_id objs = map (\<lambda>i. next_sstable_id m + of_nat i) [0..<length (frozen_memtables v)]"
    by (simp only: r(6,7))
  have len: "length objs = length (frozen_memtables v)" using arg_cong [OF eq, of length] by simp
  have "length (sstables v) = length lvls" using assms(3) by (auto simp: version_holds_def dest: list_all2_lengthD)
  then have "list_all2 (list_all2 (sst_holds x f')) (add_first objs (sstables v)) (add_first (map (memtable_iter sm) (frozen_memtables v)) lvls)"
    using r(2,3) by (simp add: version_holds_def flushed_runs_def)
  then have "list_all2 (sst_holds x f') objs (map (memtable_iter sm) (frozen_memtables v))"
    by (rule list_all2_add_first_new) (use len \<open>length (sstables v) = length lvls\<close> in simp_all)
  from list_all2_nthD [OF this, of 1] len have "sst_holds x f' (objs ! 1) (memtable_iter sm mt2)" by (simp add: assms(4))
  moreover have "sst_id (objs ! 1) = next_sstable_id m + 1"
  proof -
    have "1 < length objs" using len by (simp add: assms(4))
    then show ?thesis using arg_cong [OF eq, of "\<lambda>l. l ! 1"] len by (simp del: upt_Suc)
  qed
  moreover have "objs ! 1 \<in> set objs" using len by (simp add: assms(4))
  moreover have "objs ! 1 \<in> set (concat (sstables v'))"
    using calculation(3) by (auto simp: r(2) add_first_def split: list.split)
  moreover have "fs_lookup f' (sst_name (unat (sst_id (objs ! 1)))) = Some (sst_file (objs ! 1))"
    using lk calculation(3) by (rule bspec)
  ultimately show ?thesis using r(1,4) by (intro exI [of _ m'] exI [of _ f'] exI [of _ v'] exI [of _ "objs ! 1"]) simp
qed

lemma truncated_holds_nothing:
  assumes "data f (sst_file s) = []"
  shows "\<not> sst_holds x f s es"
proof
  assume "sst_holds x f s es"
  then obtain bs where bs: "concat bs = es" "es \<noteq> []"
    "\<forall>i < length bs. read_block_with_crc_at x (data f (sst_file s)) (snd (snd (layout x 0 bs ! i))) = Inr (enc_all (bs ! i))"
    unfolding sst_holds_def by blast
  then have "0 < length bs" by auto
  with bs(3) assms show False by (auto simp: read_block_with_crc_at_def read_exact_at_def)
qed

text \<open>C11: A flush of two or more memtables reserves one SSTable number only: the second table it writes has the
  number the next SSTable will take, and creating that one truncates the file of the live table.\<close>

theorem flush_leaves_id_in_use:
  assumes "flush_ready sm m f v" "ext_ok x" "version_holds x sm f v lvls" "frozen_memtables v = mt # mt2 # mts"
  shows "\<exists>m' f' v' s w f2. flush_memtables x sm alone (m, f, v) = Some (Inr (), m', f', v')
    \<and> s \<in> set (concat (sstables v')) \<and> sst_holds x f' s (memtable_iter sm mt2)
    \<and> writer_new f' (sst_name (unat (next_sstable_id m'))) = (w, f2) \<and> wr_file w = sst_file s
    \<and> (\<forall>es. \<not> sst_holds x f2 s es)"
proof -
  from flush_next_id_in_use [OF assms] obtain m' f' v' s where
    r: "flush_memtables x sm alone (m, f, v) = Some (Inr (), m', f', v')" "s \<in> set (concat (sstables v'))"
      "sst_holds x f' s (memtable_iter sm mt2)" "sst_id s = next_sstable_id m'"
      "fs_lookup f' (sst_name (unat (sst_id s))) = Some (sst_file s)" by blast
  then show ?thesis
    by (intro exI [of _ m'] exI [of _ f'] exI [of _ v'] exI [of _ s] exI)
      (auto simp: writer_new_def fs_create_def intro!: truncated_holds_nothing)
qed

theorem flush_leaves_id_in_use_witness:
  "\<exists>m' f' v' s w f2. flush_memtables sample_ext alist_skipmap alone (sample_manifest2, pristine_fs, sample_version2) = Some (Inr (), m', f', v')
    \<and> s \<in> set (concat (sstables v')) \<and> sst_holds sample_ext f' s [(Key 2 [1], Bytes [6])]
    \<and> writer_new f' (sst_name (unat (next_sstable_id m'))) = (w, f2) \<and> wr_file w = sst_file s
    \<and> (\<forall>es. \<not> sst_holds sample_ext f2 s es)"
proof -
  have "frozen_memtables sample_version2 = [sample_mem [(Key 1 [1], Bytes [5])], sample_mem [(Key 2 [1], Bytes [6])]]"
    by (simp add: sample_version2_def sample_version_def)
  from flush_leaves_id_in_use [OF sample_flush_ready sample_ext_ok sample_version2_holds this]
  show ?thesis by (simp add: sample_mem_iter)
qed

subsection \<open>A sample store\<close>

text \<open>The database with two writes, rotated and flushed: one table in level 0.\<close>

lemma sample_log_run: "memtable_iter alist_skipmap (memtable_put_batch alist_skipmap sample_log (memtable_new alist_skipmap)) = sample_log"
  by (simp add: memtable_iter_put_batch memtable_iter_new sample_log_def key_less_iff)

lemma sample_log_run_ok: "run_ok sample_log"
  by (simp add: run_ok_def run_fits_def sample_log_def key_ok_def length_entry_encode val_payload_def key_less_iff)

definition sample_rotated :: manifest where
  "sample_rotated = (manifest_new 0)\<lparr>wals := [0, 1], version := 1\<rparr>"

lemma sample_rotated_durable:
  "\<exists>f v. durable sample_ext alist_skipmap sample_rotated f v [] [] \<and> sstables v = [] \<and> map (memtable_iter alist_skipmap) (frozen_memtables v) = [sample_log]"
proof -
  obtain f where d: "durable sample_ext alist_skipmap (manifest_new 0) f (write_memtable alist_skipmap sample_log (fresh_version alist_skipmap 0)) sample_log []"
    "fs_lookup f (wal_name (unat (next_wal_id (manifest_new 0)))) = None"
    using sample_durable by blast
  have "(manifest_new 0)\<lparr>wals := wals (manifest_new 0) @ [next_wal_id (manifest_new 0)], version := version (manifest_new 0) + 1\<rparr> = sample_rotated"
    by (simp add: sample_rotated_def manifest_new_def)
  with rotate_fresh [OF d sample_rotation_bounds] obtain f' w where
    "durable sample_ext alist_skipmap sample_rotated f' (rotate_install alist_skipmap w (write_memtable alist_skipmap sample_log (fresh_version alist_skipmap 0))) [] []"
    by auto
  then show ?thesis
    by (intro exI [of _ f'] exI [of _ "rotate_install alist_skipmap w (write_memtable alist_skipmap sample_log (fresh_version alist_skipmap 0))"])
      (simp add: rotate_install_def write_memtable_def fresh_version_def memtable_freeze_def memtable_iter_def [symmetric] sample_log_run)
qed

lemma sample_store:
  "\<exists>m f v t. store_ok sample_ext alist_skipmap m f v [] [] [[t]] \<and> t_run t = sample_log \<and> t_id t = 0
    \<and> wals m = [1] \<and> version m = 2 \<and> next_sstable_id m = 1"
proof -
  obtain f v where d: "durable sample_ext alist_skipmap sample_rotated f v [] []" "sstables v = []"
    and fr: "map (memtable_iter alist_skipmap) (frozen_memtables v) = [sample_log]"
    using sample_rotated_durable by (elim exE conjE)
  from fr obtain mt where mt: "frozen_memtables v = [mt]" "memtable_iter alist_skipmap mt = sample_log" by auto
  have t0: "tables sample_ext f sample_rotated v []" using d(2) by (simp add: tables_def level_files_def sample_rotated_def manifest_new_def)
  have room: "manifest_room sample_rotated (length (frozen_memtables v))"
    by (simp add: manifest_room_def manifest_ok_def sample_rotated_def manifest_new_def manifest_body_def vec_encode_def mt)
  from flush_durable [OF d(1) sample_ext_ok t0 _ _ _ _ room] obtain m' f' ts where
    r: "tables sample_ext f' m' (v\<lparr>frozen_memtables := [], sstables := map (map t_sst) (add_first ts [])\<rparr>) (add_first ts [])"
      "durable sample_ext alist_skipmap m' f' (v\<lparr>frozen_memtables := [], sstables := map (map t_sst) (add_first ts [])\<rparr>) [] []"
      "map t_run ts = [sample_log]" "map t_id ts = [0]" "next_sstable_id m' = 1" "wals m' = [wal_id (mutable_wal v)]" "version m' = 2"
    using sample_log_run_ok by (auto simp: mt sample_rotated_def manifest_new_def)
  from r(3) obtain t where t: "ts = [t]" by auto
  have "wal_id (mutable_wal v) = 1" using d(1) by (auto simp: durable_def sample_rotated_def)
  with r show ?thesis
    by (intro exI [of _ m'] exI [of _ f'] exI [of _ "v\<lparr>frozen_memtables := [], sstables := map (map t_sst) (add_first ts [])\<rparr>"] exI [of _ t])
      (auto simp: t add_first_def store_ok_def)
qed

lemma manifest_body_bound:
  assumes "level_files m = map (map t_meta) T" "\<forall>t \<in> set (concat T). file_meta_ok (t_meta t)"
  shows "length (manifest_body m) \<le> 8 + 4 * length (wals m) + 4 * length T + 131098 * length (concat T)"
proof -
  have "sum_list (map (length \<circ> file_meta_encode) (map t_meta l)) \<le> 131098 * length l"
    if "\<forall>t \<in> set l. file_meta_ok (t_meta t)" for l
    using that by (induction l) (auto dest: length_file_meta_encode)
  then have "sum_list (map (\<lambda>fs. 4 + sum_list (map (length \<circ> file_meta_encode) fs)) (map (map t_meta) T))
      \<le> 4 * length T + 131098 * length (concat T)"
    using assms(2)
  proof (induction T)
    case (Cons l T)
    from Cons.prems(1) [of l] Cons.prems(2) have "sum_list (map (length \<circ> file_meta_encode) (map t_meta l)) \<le> 131098 * length l" by (simp add: o_def)
    moreover from Cons.IH [OF Cons.prems(1)] Cons.prems(2) have
      "sum_list (map (\<lambda>fs. 4 + sum_list (map (length \<circ> file_meta_encode) fs)) (map (map t_meta) T)) \<le> 4 * length T + 131098 * length (concat T)" by (simp add: o_def)
    ultimately show ?case by (simp add: o_def)
  qed simp
  then show ?thesis by (simp add: length_manifest_body assms(1))
qed

lemma length_le_runs: "\<forall>t \<in> set ts. t_run t \<noteq> [] \<Longrightarrow> length ts \<le> size (runs_mset ts)"
proof (induction ts)
  case (Cons t ts)
  then have "Suc 0 \<le> length (t_run t)" by (cases "t_run t") auto
  with Cons show ?case by simp
qed simp

lemma keys_distinct_mono:
  assumes "A \<subseteq># B" "keys_distinct B"
  shows "keys_distinct A"
  unfolding keys_distinct_def
proof (intro ballI)
  fix e e'
  assume e: "e \<in># A" "e' \<in># A - {#e#}"
  then obtain A' where A: "A = add_mset e A'" by (blast dest: multi_member_split)
  from assms(1) obtain R where B: "B = A + R" by (auto simp: mset_subset_eq_exists_conv)
  have "e \<in># B" "e' \<in># B - {#e#}" using e by (auto simp: A B)
  with assms(2) show "fst e \<noteq> fst e'" by (auto simp: keys_distinct_def)
qed

lemma length_in_concat: "ts \<in> set T \<Longrightarrow> length ts \<le> length (concat T)"
  by (induction T) auto

lemma tables_manifest_ok:
  assumes lf: "level_files m = map (map t_meta) T" and meta: "\<forall>t \<in> set (concat T). file_meta_ok (t_meta t)"
    and small: "8 + 4 * length (wals m) + 4 * length T + 131098 * length (concat T) < 2 ^ 32"
  shows "manifest_ok m"
proof -
  have "length (levels m) = length T" by (rule length_levels [OF lf])
  moreover have "Manifest.level_ok l" if "l \<in> set (levels m)" for l
  proof -
    have "files l \<in> set (level_files m)" using that by (simp add: level_files_def)
    then obtain ts where ts: "ts \<in> set T" "files l = map t_meta ts" unfolding lf by auto
    then have "length ts \<le> length (concat T)" by (intro length_in_concat)
    moreover have "\<forall>t \<in> set ts. file_meta_ok (t_meta t)" using ts(1) meta by auto
    ultimately show ?thesis using ts(2) small by (simp add: Manifest.level_ok_def list_all_iff)
  qed
  ultimately show ?thesis
    using small manifest_body_bound [OF lf meta] by (auto simp: manifest_ok_def list_all_iff)
qed

lemma sample_can_compact:
  assumes S: "store_ok sample_ext alist_skipmap m f v [] [] T" and T: "length T \<le> 2" "runs_mset (concat T) = mset sample_log"
    and ins: "mset (concat (map t_run ins)) = mset sample_log \<or> ins = [t] \<and> t \<in> set (concat T)"
    and m: "wals m = [1]" "unat (version m) + 1 < 2 ^ 32" "unat (next_sstable_id m) + 2 < 2 ^ 32"
  shows "can_compact m T ins (2 ^ 20)"
proof -
  from S have ids: "\<forall>t \<in> set (concat T). t_id t < next_sstable_id m" and tb: "tables sample_ext f m v T" by (simp_all add: store_ok_def)
  then have lf: "level_files m = map (map t_meta) T" and ok: "\<forall>t \<in> set (concat T). table_ok sample_ext f t" by (simp_all add: tables_def)
  have two: "size (mset sample_log) = 2" by (simp add: sample_log_def)
  have "\<forall>t \<in> set (concat T). t_run t \<noteq> []" using ok table_ok_run by blast
  from length_le_runs [OF this] have n: "length (concat T) \<le> 2" unfolding T(2) two .
  have entries: "list_all entry_ok (t_run t)" if "t \<in> set (concat T)" for t
  proof -
    have "set (t_run t) \<subseteq> set_mset (runs_mset (concat T))" using that by auto
    then show ?thesis using sample_log_ok by (auto simp: T(2) list_all_iff)
  qed
  then have meta: "\<forall>t \<in> set (concat T). file_meta_ok (t_meta t)" using ok table_meta_ok by blast
  have body: "length (manifest_body m) \<le> 300000" using manifest_body_bound [OF lf meta] T(1) n by (simp add: m(1))
  have "manifest_ok m" by (rule tables_manifest_ok [OF lf meta]) (use T(1) n in \<open>simp add: m(1)\<close>)
  then have room: "manifest_room m 1" using body by (simp add: manifest_room_def)
  have sub: "mset (concat (map t_run ins)) \<subseteq># mset sample_log"
    using ins
  proof
    assume i: "ins = [t] \<and> t \<in> set (concat T)"
    then obtain xs ys where "concat T = xs @ t # ys" by (auto simp only: in_set_conv_decomp)
    then have "mset sample_log = mset (t_run t) + runs_mset (xs @ ys)" unfolding T(2) [symmetric] by simp
    with i show ?thesis by simp
  qed simp
  have "length (enc_all (concat (map t_run ins))) \<le> length (enc_all sample_log)"
  proof -
    have len: "length (enc_all es) = (\<Sum>e \<in># mset es. length (entry_encode e))" for es by (induction es) auto
    from sub obtain R where "mset sample_log = mset (concat (map t_run ins)) + R" by (auto simp: mset_subset_eq_exists_conv)
    then show ?thesis unfolding len by simp
  qed
  also have "\<dots> < 2 ^ 10" by (simp add: sample_log_def length_entry_encode val_payload_def)
  finally have enc: "length (enc_all (concat (map t_run ins))) < 2 ^ 10" .
  have "entries_fit (2 ^ 28) (mset sample_log)"
    by (auto simp: entries_fit_def sample_log_def key_ok_def length_entry_encode val_payload_def)
  then have "entries_fit (2 ^ 28) (runs_mset ins)" using mset_subset_eqD [OF sub] unfolding entries_fit_def by blast
  moreover have "keys_distinct (mset sample_log)" by (auto simp: keys_distinct_def sample_log_def)
  from keys_distinct_mono [OF sub this] have "keys_distinct (runs_mset ins)" .
  moreover have "size (runs_mset ins) \<le> 2" using size_mset_mono [OF sub] two by simp
  ultimately show ?thesis using ids m room enc by (simp add: can_compact_def)
qed

theorem l0_compaction_witness:
  "\<exists>m f v T m' f' v' T'. runs_mset (concat T) = mset sample_log
    \<and> compact_l0 sample_ext alone (2 ^ 20) (m, f, v) = Some (Inr (), m', f', v')
    \<and> store_ok sample_ext alist_skipmap m' f' v' [] [] T' \<and> runs_mset (concat T') = mset sample_log \<and> T' ! 0 = []"
proof -
  from sample_store obtain m f v t where s: "store_ok sample_ext alist_skipmap m f v [] [] [[t]]" "t_run t = sample_log"
    "wals m = [1]" "version m = 2" "next_sstable_id m = 1" by blast
  have "can_compact m [[t]] [t] (2 ^ 20)" by (rule sample_can_compact [OF s(1)]) (simp_all add: s(2-5))
  then have "can_compact m [[t]] (merged_tables 0 ([[t]] ! 0) [[t]]) (2 ^ 20)" by (simp add: merged_tables_def next_tables_def)
  from l0_compaction [OF s(1) sample_ext_ok _ _ this] obtain m' f' v' T' where
    "compact_l0 sample_ext alone (2 ^ 20) (m, f, v) = Some (Inr (), m', f', v')"
    "store_ok sample_ext alist_skipmap m' f' v' [] [] T'" "runs_mset (concat T') = runs_mset (concat [[t]])" "T' ! 0 = []" by auto
  moreover have "runs_mset (concat [[t]]) = mset sample_log" by (simp add: s(2))
  ultimately show ?thesis by metis
qed

theorem reads_after_compaction_witness:
  "\<exists>m f v m' f' v'. compact_l0 sample_ext alone (2 ^ 20) (m, f, v) = Some (Inr (), m', f', v')
    \<and> db_get sample_ext alist_skipmap f' v' [1] = Some (Inr (Some (Bytes [5])))
    \<and> db_get sample_ext alist_skipmap f' v' [2] = Some (Inr (Some Tombstone))"
proof -
  from sample_store obtain m f v t where s: "store_ok sample_ext alist_skipmap m f v [] [] [[t]]" "t_run t = sample_log"
    "wals m = [1]" "version m = 2" "next_sstable_id m = 1" by blast
  have "can_compact m [[t]] [t] (2 ^ 20)" by (rule sample_can_compact [OF s(1)]) (simp_all add: s(2-5))
  then have can: "can_compact m [[t]] (merged_tables 0 ([[t]] ! 0) [[t]]) (2 ^ 20)" by (simp add: merged_tables_def next_tables_def)
  have "mutable_memtable v = memtable_new alist_skipmap" "frozen_memtables v = []"
    using s(1,3) by (auto simp: store_ok_def durable_def wal_mirrors_def memtable_put_batch_def)
  then have quiet: "silent alist_skipmap v key" for key by (simp add: silent_def memtable_iter_new)
  have new: "is_newest [1] (map t_run (concat [[t]])) (Key 1 [1], Bytes [5])" "is_newest [2] (map t_run (concat [[t]])) (Key 2 [2], Tombstone)"
    by (simp_all add: is_newest_def s(2) sample_log_def)
  have ne: "[[t]] \<noteq> []" "[[t]] ! 0 \<noteq> []" "length [[t]] \<le> 2" by simp_all
  note reads = reads_after_compaction [OF s(1) sample_ext_ok ne can alist_skipmap_ok quiet]
  from reads [of "[1]"] new(1) obtain m1 f1 v1 where
    1: "compact_l0 sample_ext alone (2 ^ 20) (m, f, v) = Some (Inr (), m1, f1, v1)"
      "db_get sample_ext alist_skipmap f1 v1 [1] = Some (Inr (Some (Bytes [5])))" by blast
  from reads [of "[2]"] new(2) obtain m2 f2 v2 where
    2: "compact_l0 sample_ext alone (2 ^ 20) (m, f, v) = Some (Inr (), m2, f2, v2)"
      "db_get sample_ext alist_skipmap f2 v2 [2] = Some (Inr (Some Tombstone))" by blast
  from 1(1) 2(1) have "f2 = f1" "v2 = v1" by simp_all
  with 1 2(2) show ?thesis by blast
qed

lemma sample_store1:
  "\<exists>m f v t rest. store_ok sample_ext alist_skipmap m f v [] [] [[], t # rest] \<and> runs_mset (concat [[], t # rest]) = mset sample_log
    \<and> can_compact m [[], t # rest] [t] (2 ^ 20)"
proof -
  from sample_store obtain m f v t where s: "store_ok sample_ext alist_skipmap m f v [] [] [[t]]" "t_run t = sample_log"
    "wals m = [1]" "version m = 2" "next_sstable_id m = 1" by blast
  have runs: "runs_mset (concat [[t]]) = mset sample_log" by (simp add: s(2))
  have "can_compact m [[t]] [t] (2 ^ 20)" by (rule sample_can_compact [OF s(1)]) (simp_all add: s(2-5))
  then have "can_compact m [[t]] (merged_tables 0 ([[t]] ! 0) [[t]]) (2 ^ 20)" by (simp add: merged_tables_def next_tables_def)
  from compact_l0_ok [OF s(1) sample_ext_ok _ _ this] obtain m' f' v' T' where
    r: "store_ok sample_ext alist_skipmap m' f' v' [] [] T'" "runs_mset (concat T') = mset sample_log" "T' ! 0 = []" "length T' = 2"
      "wals m' = [1]" "version m' = 3" "unat (next_sstable_id m') \<le> 3"
    unfolding compaction_result_def runs by (auto simp: s(2-5) merged_tables_def next_tables_def sample_log_def)
  have "T' = [T' ! 0, T' ! 1]" using r(4) by (intro nth_equalityI) (auto simp: less_Suc_eq numeral_2_eq_2)
  then obtain l where T': "T' = [[], l]" using r(3) by metis
  have "l \<noteq> []" using r(2) by (auto simp: T' sample_log_def)
  then obtain u rest where l: "l = u # rest" by (cases l) auto
  have "can_compact m' T' [u] (2 ^ 20)"
    by (rule sample_can_compact [OF r(1) _ r(2), where t = u]) (use r(5-7) in \<open>simp_all add: T' l word_le_nat_alt\<close>)
  then show ?thesis using r(1,2) unfolding T' l by blast
qed

theorem ln_compaction_witness:
  "\<exists>m f v t rest m' f' v' T'. runs_mset (concat [[], t # rest]) = mset sample_log
    \<and> compact_ln sample_ext alone 1 (2 ^ 20) (m, f, v) = Some (Inr (), m', f', v')
    \<and> store_ok sample_ext alist_skipmap m' f' v' [] [] T' \<and> runs_mset (concat T') = mset sample_log \<and> T' ! 1 = rest"
proof -
  from sample_store1 obtain m f v t rest where s: "store_ok sample_ext alist_skipmap m f v [] [] [[], t # rest]"
    "runs_mset (concat [[], t # rest]) = mset sample_log" "can_compact m [[], t # rest] [t] (2 ^ 20)" by blast
  from s(3) have "can_compact m [[], t # rest] (merged_tables 1 [t] [[], t # rest]) (2 ^ 20)" by (simp add: merged_tables_def next_tables_def)
  from ln_compaction [OF s(1) sample_ext_ok _ _ this, of rest] obtain m' f' v' T' where
    "compact_ln sample_ext alone 1 (2 ^ 20) (m, f, v) = Some (Inr (), m', f', v')"
    "store_ok sample_ext alist_skipmap m' f' v' [] [] T'" "runs_mset (concat T') = runs_mset (concat [[], t # rest])" "T' ! 1 = rest" by auto
  with s(2) show ?thesis by metis
qed

end
