(* ===== verification/Stranded.thy ===== *)
theory Stranded
  imports Durability Levels
begin

text \<open>
  The write pipeline across a rotation. A group that is in the log while an earlier group still
  is in the memtable stage is applied after that group's rotation: its entries are in the old
  WAL and in the new memtable. The flush of the frozen memtable takes the old WAL out of the
  manifest, and with it the only copy on disk of a write that was acknowledged.
\<close>

subsection \<open>Two writers and a rotation\<close>

text \<open>
  Two writes to a database just opened; the first one fills the memtable (the size the code
  takes from a constant is a field of the database, as in the code).
\<close>

definition big_entry :: entry where "big_entry = (Key 1 [0, 0, 0], Bytes [7])"
definition small_entry :: entry where "small_entry = (Key 2 [1], Bytes [8])"

definition big_size :: nat where
  "big_size = memtable_size (memtable_put_batch alist_skipmap [big_entry] (memtable_new alist_skipmap))"

lemma memtable_sizes:
  "memtable_size (memtable_new alist_skipmap) < big_size"
  "memtable_size (memtable_put_batch alist_skipmap [small_entry] (memtable_new alist_skipmap)) < big_size"
  by (simp_all add: big_size_def memtable_put_batch_def memtable_recover_def memtable_size_def memtable_new_def big_entry_def
      small_entry_def KEY_HEADER_SIZE_def VALUE_HEADER_SIZE_def Let_def)

lemma empty_not_full: "\<not> big_size \<le> active_memtable_size (fresh_version alist_skipmap i)"
  using memtable_sizes(1) by (simp add: active_memtable_size_def fresh_version_def)

lemma lookup_write_wal [simp]: "fs_lookup (write_wal v bs f) nm = fs_lookup f nm"
  by (simp add: write_wal_def wal_write_def fs_append_def)

definition two_writes :: "fs \<Rightarrow> entry list sys" where
  "two_writes f = \<lparr>sys_db = \<lparr>db_current = fresh_version alist_skipmap 0, db_sync = write_syncs_new 1,
       db_manifest = manifest_new 0,
       max_memtable_size = big_size\<rparr>,
     sys_fs = f, sys_reqs = \<lambda>w. fst (if w = 0 then db_put [0, 0, 0] (Bytes [7]) else db_put [1] (Bytes [8])),
     sys_phase = \<lambda>_. WaitingToBeQueued\<rparr>"

lemma idle_two_writes: "idle (two_writes f)" "sync_of (two_writes f) = write_syncs_new 1"
  by (auto simp: idle_def two_writes_def sync_of_def db_put_def writer_new_req_def)

abbreviation group0 :: "u64 option \<Rightarrow> group" where "group0 l \<equiv> \<lparr>g_reqs = [0], committed_lsn = l\<rparr>"
abbreviation group1 :: "u64 option \<Rightarrow> group" where "group1 l \<equiv> \<lparr>g_reqs = [1], committed_lsn = l\<rparr>"

text \<open>Both log, the first one applies and is about to rotate.\<close>

lemma before_rotation:
  "\<exists>tr s. steady_schedule crc alist_skipmap (replicate 8 0 @ replicate 8 1 @ [0, 0]) (two_writes f) = Some (tr, s)
     \<and> sys_phase s 0 = LeaderApplied (group0 (Some 1)) 0
     \<and> sys_phase s 1 = LeaderWaitingToWriteMemtable (group1 (Some 2)) 1 \<and> ticket_to_mem (sync_of s) = 0
     \<and> logged_entries tr = [big_entry, small_entry] \<and> group_entries s (group1 (Some 2)) = [small_entry]
     \<and> db_current (sys_db s) = write_memtable alist_skipmap [big_entry] (fresh_version alist_skipmap 0)
     \<and> db_manifest (sys_db s) = manifest_new 0 \<and> max_memtable_size (sys_db s) = big_size
     \<and> (\<forall>nm. fs_lookup (sys_fs s) nm = fs_lookup f nm)"
  by (simp add: numeral_eq_Suc)
    (simp add: two_writes_def full_def step_simps write_syncs_new_def db_put_def writer_new_req_def
      group_entries_def request_entry_def key_update_lsn_def key_new_def logged_entries_def empty_not_full
      big_entry_def [symmetric] small_entry_def [symmetric])

text \<open>The rotation does not look at the memtables.\<close>

lemma rotate_any_version:
  assumes "rotate_memtable crc sm others (m, f, v) = (Inr (), m', f', rotate_install sm w v)"
  shows "rotate_memtable crc sm others (m, f, u) = (Inr (), m', f', rotate_install sm w u)"
  using assms by (auto simp: rotate_memtable_def rotate_install_def split: prod.splits sum.splits)
    (metis db_version.ext_inject db_version.surjective db_version.update_convs)

text \<open>The second group is applied after the rotation, to the new memtable.\<close>

lemma late_application:
  fixes s :: "entry list sys"
  assumes "sys_phase s 0 = LeaderReleasingTicket g 0" "sys_phase s 1 = LeaderWaitingToWriteMemtable (group1 (Some 2)) 1"
    and "ticket_to_mem (sync_of s) = 0" "group_entries s (group1 (Some 2)) = [small_entry]"
    and "mutable_memtable (db_current (sys_db s)) = memtable_new alist_skipmap" "max_memtable_size (sys_db s) = big_size"
  shows "\<exists>tr s'. schedule crc alist_skipmap ((calm, 0) # replicate 8 (calm, 1)) s = Some (tr, s') \<and> sys_phase s' 1 = Returned (Inr 2)
    \<and> db_current (sys_db s') = write_memtable alist_skipmap [small_entry] (db_current (sys_db s))
    \<and> db_manifest (sys_db s') = db_manifest (sys_db s) \<and> sys_fs s' = sys_fs s"
proof -
  have small: "active_memtable_size (write_memtable alist_skipmap [small_entry] (db_current (sys_db s))) < big_size"
    using memtable_sizes(2) by (simp add: active_memtable_size_def write_memtable_def assms(5))
  have y: "ticket_to_mem (db_sync (sys_db s)) = 0" using assms(3) by (simp add: sync_of_def)
  have e: "request_entry (sys_reqs s 1) = small_entry" using assms(4) by (simp add: group_entries_def)
  show ?thesis using assms(1,2,6) small y e
    by (simp add: numeral_eq_Suc) (simp add: step_simps group_entries_def not_le)
qed

lemma flushable_mutable:
  "flushable x sm m f v es torn \<Longrightarrow> mutable_wal u = mutable_wal v \<Longrightarrow> mutable_memtable u = mutable_memtable v \<Longrightarrow>
   length (frozen_memtables u) = length (frozen_memtables v) \<Longrightarrow> flushable x sm m f u es torn"
  by (simp add: flushable_def)

lemma big_iter: "memtable_iter alist_skipmap (memtable_put_batch alist_skipmap [big_entry] (memtable_new alist_skipmap)) = [big_entry]"
  by (simp add: memtable_iter_put_batch [OF alist_skipmap_ok] memtable_iter_new [OF alist_skipmap_ok] big_entry_def)

lemma big_run_ok: "run_ok [big_entry]"
  by (simp add: run_ok_def run_fits_def big_entry_def key_ok_def length_entry_encode val_payload_def)

text \<open>The two logged entries, on the disk of the state before the rotation.\<close>

lemma both_logged:
  "\<exists>f tr s. run False (x_crc sample_ext) alist_skipmap (two_writes f) tr s \<and> idle (two_writes f)
     \<and> sys_phase s 0 = LeaderApplied (group0 (Some 1)) 0
     \<and> sys_phase s 1 = LeaderWaitingToWriteMemtable (group1 (Some 2)) 1 \<and> ticket_to_mem (sync_of s) = 0
     \<and> group_entries s (group1 (Some 2)) = [small_entry] \<and> max_memtable_size (sys_db s) = big_size
     \<and> db_current (sys_db s) = write_memtable alist_skipmap [big_entry] (fresh_version alist_skipmap 0)
     \<and> db_manifest (sys_db s) = manifest_new 0 \<and> fs_lookup (sys_fs s) (wal_name 1) = None
     \<and> durable sample_ext alist_skipmap (manifest_new 0) (sys_fs s)
         (write_memtable alist_skipmap [big_entry, small_entry] (fresh_version alist_skipmap 0)) [big_entry, small_entry] []"
proof -
  obtain f where d: "durable sample_ext alist_skipmap (manifest_new 0) f (fresh_version alist_skipmap 0) [] []"
    and none: "fs_lookup f (wal_name 1) = None"
    using db_new_fresh [OF fs_empty_fresh, of sample_ext alist_skipmap] by (auto simp: fs_empty_def fs_lookup_def)
  obtain tr s where sch: "steady_schedule (x_crc sample_ext) alist_skipmap (replicate 8 0 @ replicate 8 1 @ [0, 0]) (two_writes f) = Some (tr, s)"
    and p: "sys_phase s 0 = LeaderApplied (group0 (Some 1)) 0"
      "sys_phase s 1 = LeaderWaitingToWriteMemtable (group1 (Some 2)) 1" "ticket_to_mem (sync_of s) = 0"
      "logged_entries tr = [big_entry, small_entry]" "group_entries s (group1 (Some 2)) = [small_entry]"
      "db_current (sys_db s) = write_memtable alist_skipmap [big_entry] (fresh_version alist_skipmap 0)"
      "db_manifest (sys_db s) = manifest_new 0" "max_memtable_size (sys_db s) = big_size" "\<forall>nm. fs_lookup (sys_fs s) nm = fs_lookup f nm"
    using before_rotation by blast
  from steady_schedule_steady [OF sch steady.start] have st: "steady (x_crc sample_ext) alist_skipmap (two_writes f) tr s" by simp
  have "disk_logged sample_ext alist_skipmap [] [] (two_writes f)"
    by (rule durable_disk_logged)
      (use d in \<open>simp_all add: two_writes_def manifest_new_def entry_of_def request_entry_def db_put_def writer_new_req_def key_new_def key_ok_def\<close>)
  from steady_disk_logged [OF st this] have "durable sample_ext alist_skipmap (manifest_new 0) (sys_fs s)
      (logged_version alist_skipmap [big_entry, small_entry] s) [big_entry, small_entry] []"
    by (simp add: disk_logged_def p(4,7))
  moreover have "logged_version alist_skipmap [big_entry, small_entry] s
      = write_memtable alist_skipmap [big_entry, small_entry] (fresh_version alist_skipmap 0)"
    by (simp add: logged_version_def p(6) write_memtable_def fresh_version_def)
  ultimately show ?thesis using steady_run [OF st] idle_two_writes(1) p none
    by (intro exI [of _ f] exI [of _ tr] exI [of _ s] conjI) (simp_all only:)
qed

text \<open>The second write is acknowledged after the rotation has taken its log away.\<close>

lemma acknowledged_after_rotation:
  "\<exists>f tr s w. run False (x_crc sample_ext) alist_skipmap (two_writes f) tr s \<and> idle (two_writes f)
     \<and> sys_phase s 1 = Returned (Inr 2) \<and> db_manifest (sys_db s) = sample_rotated
     \<and> db_current (sys_db s) = write_memtable alist_skipmap [small_entry]
         (rotate_install alist_skipmap w (write_memtable alist_skipmap [big_entry] (fresh_version alist_skipmap 0)))
     \<and> flushable sample_ext alist_skipmap sample_rotated (sys_fs s)
         (rotate_install alist_skipmap w (write_memtable alist_skipmap [big_entry] (fresh_version alist_skipmap 0))) [] []"
proof -
  let ?V = "write_memtable alist_skipmap [big_entry, small_entry] (fresh_version alist_skipmap 0)"
  let ?v = "write_memtable alist_skipmap [big_entry] (fresh_version alist_skipmap 0)"
  obtain f tr s where r: "run False (x_crc sample_ext) alist_skipmap (two_writes f) tr s" "idle (two_writes f)"
    and p: "sys_phase s 0 = LeaderApplied (group0 (Some 1)) 0"
      "sys_phase s 1 = LeaderWaitingToWriteMemtable (group1 (Some 2)) 1" "ticket_to_mem (sync_of s) = 0"
      "group_entries s (group1 (Some 2)) = [small_entry]" "max_memtable_size (sys_db s) = big_size"
      "db_current (sys_db s) = ?v" "db_manifest (sys_db s) = manifest_new 0"
    and none: "fs_lookup (sys_fs s) (wal_name 1) = None"
    and d: "durable sample_ext alist_skipmap (manifest_new 0) (sys_fs s) ?V [big_entry, small_entry] []"
    using both_logged by (elim exE conjE)
  have "fs_lookup (sys_fs s) (wal_name (unat (next_wal_id (manifest_new 0)))) = None" using none by (simp add: manifest_new_def)
  from rotate_fresh [OF d this sample_rotation_bounds] obtain m f1 w where
    rot: "rotate_memtable (x_crc sample_ext) alist_skipmap alone (manifest_new 0, sys_fs s, ?V) = (Inr (), m, f1, rotate_install alist_skipmap w ?V)"
    and m: "m = sample_rotated" and d1: "durable sample_ext alist_skipmap m f1 (rotate_install alist_skipmap w ?V) [] []"
    by (auto simp: sample_rotated_def manifest_new_def)
  have fl: "flushable sample_ext alist_skipmap m f1 (rotate_install alist_skipmap w ?v) [] []"
    by (rule flushable_mutable [OF durable_flushable [OF d1]]) (simp_all add: rotate_install_def write_memtable_def)
  let ?s1 = "goto 0 (LeaderReleasingTicket (group0 (Some 1)) 0)
    (s\<lparr>sys_db := (sys_db s)\<lparr>db_manifest := m, db_current := rotate_install alist_skipmap w ?v\<rparr>, sys_fs := f1\<rparr>)"
  have "max_memtable_size (sys_db s) \<le> active_memtable_size (db_current (sys_db s))"
    by (simp add: p(5,6) active_memtable_size_def write_memtable_def fresh_version_def big_size_def)
  then have st: "writer_step (x_crc sample_ext) alist_skipmap calm 0 s = Some ?s1"
    by (simp add: writer_step_def p(1,6,7) step_rotate_def Let_def calm_def rotate_any_version [OF rot, of ?v])
  have r1: "run False (x_crc sample_ext) alist_skipmap (two_writes f) (tr @ step_events 0 s ?s1) ?s1"
    by (rule run.writer [OF r(1) st]) simp
  have "sys_phase ?s1 0 = LeaderReleasingTicket (group0 (Some 1)) 0" "sys_phase ?s1 1 = LeaderWaitingToWriteMemtable (group1 (Some 2)) 1"
    "ticket_to_mem (sync_of ?s1) = 0" "group_entries ?s1 (group1 (Some 2)) = [small_entry]"
    "mutable_memtable (db_current (sys_db ?s1)) = memtable_new alist_skipmap" "max_memtable_size (sys_db ?s1) = big_size"
    using p by (simp_all add: sync_of_def group_entries_def rotate_install_def)
  from late_application [OF this, of "x_crc sample_ext"] obtain tr2 s2 where
    sch: "schedule (x_crc sample_ext) alist_skipmap ((calm, 0) # replicate 8 (calm, 1)) ?s1 = Some (tr2, s2)" "sys_phase s2 1 = Returned (Inr 2)"
      "db_current (sys_db s2) = write_memtable alist_skipmap [small_entry] (rotate_install alist_skipmap w ?v)"
      "db_manifest (sys_db s2) = m" "sys_fs s2 = f1"
    by auto
  have "run False (x_crc sample_ext) alist_skipmap (two_writes f) ((tr @ step_events 0 s ?s1) @ tr2) s2"
    by (rule schedule_run [OF sch(1) r1]) auto
  then show ?thesis using r(2) sch(2-5) fl unfolding m by blast
qed

subsection \<open>The property\<close>

text \<open>A version with one run on disk and nothing else.\<close>

lemma single_run_get:
  assumes "tables x f m v (add_first ts [])" "map t_run ts = [es]" "skipmap_ok sm"
    and "mutable_memtable v = memtable_new sm" "frozen_memtables v = []" "\<forall>e \<in> set es. kbytes (fst e) \<noteq> key"
  shows "db_get x sm f v key = Some (Inr None)"
proof -
  from assms(2) obtain t where t: "ts = [t]" "t_run t = es" by auto
  have "silent sm v key" using assms(3-5) by (simp add: silent_def memtable_iter_new)
  moreover have "concat (add_first ts []) = [t]" by (simp add: add_first_def t)
  moreover have "level_sorted [t]" by (simp add: level_sorted_def)
  ultimately show ?thesis using one_level_get [OF assms(1,3)] assms(6) by (auto simp: t(2))
qed

lemma recent_get:
  assumes "memtable_get sm (mutable_memtable v) key = Some w"
  shows "db_get x sm f v key = Some (Inr (Some w))"
  using assms by (simp add: db_get_def)


end
