(* ===== verification/Worker.thy ===== *)
theory Worker
  imports Levels
begin

text \<open>
  The loop of the background worker (\<open>run\<close> in \<open>src/compact.rs\<close>): what it decides to do from the
  manifest it holds the lock of, and one turn of the loop. A turn that fails prints its error and
  goes on, after a pause; waiting for the condition variable ends a turn that found no work.
\<close>

subsection \<open>Triggers\<close>

definition L0_SIZE_TRIGGER :: u64 where "L0_SIZE_TRIGGER = 128 * 1024 * 1024"
definition TARGET_FILE_SIZE :: u64 where "TARGET_FILE_SIZE = 64 * 1024 * 1024"
definition MAX_LEVELS :: nat where "MAX_LEVELS = 4"

definition level_size :: "level \<Rightarrow> u64" where
  "level_size l = sum_list (map (\<lambda>a. ucast (file_size a)) (files l))"

definition l0_size :: "manifest \<Rightarrow> u64" where
  "l0_size m = (case levels m of [] \<Rightarrow> 0 | l0 # _ \<Rightarrow> level_size l0)"

text \<open>The loop over the levels stops at the first one that is missing or too large.\<close>

fun triggered_level :: "manifest \<Rightarrow> nat list \<Rightarrow> nat option" where
  "triggered_level m [] = None"
| "triggered_level m (lvl # lvls) =
     (if length (levels m) \<le> lvl then None
      else if L0_SIZE_TRIGGER * 10 ^ lvl \<le> level_size (levels m ! lvl) then Some lvl
      else triggered_level m lvls)"

datatype worker_action = Shutdown | Flush | CompactL0 | CompactLn nat | Wait

definition worker_decide :: "bool \<Rightarrow> manifest \<Rightarrow> worker_action" where
  "worker_decide shutdown m =
     (if shutdown then Shutdown
      else if 1 < length (wals m) \<and> 4 < length (wals m) then Flush
      else if L0_SIZE_TRIGGER \<le> l0_size m then CompactL0
      else (case triggered_level m [1..<MAX_LEVELS] of Some lvl \<Rightarrow> CompactLn lvl | None \<Rightarrow> Wait))"

subsection \<open>A turn of the loop\<close>

definition worker_turn ::
  "ext \<Rightarrow> 'm skipmap \<Rightarrow> (nat \<Rightarrow> manifest \<times> fs \<Rightarrow> manifest \<times> fs) \<Rightarrow> bool \<Rightarrow>
   manifest \<times> fs \<times> 'm db_version \<Rightarrow> (worker_action \<times> manifest \<times> fs \<times> 'm db_version) option" where
  "worker_turn x sm others shutdown st =
     (let a = worker_decide shutdown (fst st);
          act = (case a of
             Flush \<Rightarrow> map_option snd (flush_memtables x sm others st)
           | CompactL0 \<Rightarrow> map_option snd (compact_l0 x others TARGET_FILE_SIZE st)
           | CompactLn lvl \<Rightarrow> map_option snd (compact_ln x others lvl TARGET_FILE_SIZE st)
           | _ \<Rightarrow> Some st)
      in map_option (\<lambda>st'. (a, st')) act)"

text \<open>
  The loop: one element of the list for each time it looks at the flag. It ends with its thread
  when the flag is set.
\<close>

fun worker_run ::
  "ext \<Rightarrow> 'm skipmap \<Rightarrow> (nat \<Rightarrow> manifest \<times> fs \<Rightarrow> manifest \<times> fs) \<Rightarrow> bool list \<Rightarrow>
   manifest \<times> fs \<times> 'm db_version \<Rightarrow> (manifest \<times> fs \<times> 'm db_version) option" where
  "worker_run x sm others [] st = Some st"
| "worker_run x sm others (shutdown # rest) st =
     Option.bind (worker_turn x sm others shutdown st)
       (\<lambda>(a, st'). if a = Shutdown then Some st' else worker_run x sm others rest st')"

subsection \<open>The thread of the worker\<close>

text \<open>
  The handle a database keeps of its worker (\<open>compaction_thread\<close>, \<open>shutdown\<close> of \<open>Db\<close>). A thread that
  has finished without being told to is replaced at the next rotation; \<open>spawn\<close> is what starting one returns.
\<close>

datatype thread = Running | Finished

record thread_handle =
  shutdown_flag :: bool
  compaction_thread :: "thread option"

definition ensure_compaction_thread :: "unit result \<Rightarrow> thread_handle \<Rightarrow> unit result \<times> thread_handle" where
  "ensure_compaction_thread spawn h =
     (if shutdown_flag h then (Inr (), h)
      else
        let need_restart = (case compaction_thread h of Some t \<Rightarrow> t = Finished | None \<Rightarrow> True) in
        if need_restart then
          (case spawn of
             Inl e \<Rightarrow> (Inl e, h\<lparr>compaction_thread := None\<rparr>)
           | Inr _ \<Rightarrow> (Inr (), h\<lparr>compaction_thread := Some Running\<rparr>))
        else (Inr (), h))"

text \<open>
  Shutting down: the thread that drops the database sets the flag, notifies the condition variable
  and joins the worker. It does not take the lock of the manifest, which the worker holds from
  its look at the flag until it waits.
\<close>

datatype worker_pc = Looking | Deciding | Waiting | Exited
datatype drop_pc = StoringFlag | Notifying | Joining | Dropped

record shutdown_state =
  sh_flag :: bool
  sh_manifest :: manifest
  sh_worker :: worker_pc
  sh_drop :: drop_pc

inductive shutdown_step :: "shutdown_state \<Rightarrow> shutdown_state \<Rightarrow> bool" where
  look: "sh_worker s = Looking \<Longrightarrow> shutdown_step s (s\<lparr>sh_worker := if sh_flag s then Exited else Deciding\<rparr>)"
| wait: "sh_worker s = Deciding \<Longrightarrow> worker_decide False (sh_manifest s) = Wait \<Longrightarrow> shutdown_step s (s\<lparr>sh_worker := Waiting\<rparr>)"
| act: "sh_worker s = Deciding \<Longrightarrow> worker_decide False (sh_manifest s) \<noteq> Wait \<Longrightarrow>
    shutdown_step s (s\<lparr>sh_worker := Looking, sh_manifest := m\<rparr>)"
| store: "sh_drop s = StoringFlag \<Longrightarrow> shutdown_step s (s\<lparr>sh_flag := True, sh_drop := Notifying\<rparr>)"
| notify: "sh_drop s = Notifying \<Longrightarrow>
    shutdown_step s (s\<lparr>sh_drop := Joining, sh_worker := if sh_worker s = Waiting then Looking else sh_worker s\<rparr>)"
| join: "sh_drop s = Joining \<Longrightarrow> sh_worker s = Exited \<Longrightarrow> shutdown_step s (s\<lparr>sh_drop := Dropped\<rparr>)"

definition shutdown_start :: "manifest \<Rightarrow> shutdown_state" where
  "shutdown_start m = \<lparr>sh_flag = False, sh_manifest = m, sh_worker = Looking, sh_drop = StoringFlag\<rparr>"

inductive_cases shutdown_stepE: "shutdown_step s s'"

definition stuck :: "shutdown_state \<Rightarrow> bool" where
  "stuck s \<longleftrightarrow> (\<forall>s'. \<not> shutdown_step s s')"

lemma stuck_iff:
  "stuck s \<longleftrightarrow> sh_drop s = Dropped \<and> sh_worker s \<in> {Waiting, Exited} \<or> sh_drop s = Joining \<and> sh_worker s = Waiting"
proof
  assume s: "stuck s"
  then have "sh_worker s \<noteq> Looking" "sh_drop s \<noteq> StoringFlag" "sh_drop s \<noteq> Notifying"
    "\<not> (sh_drop s = Joining \<and> sh_worker s = Exited)"
    unfolding stuck_def using look store notify join by blast+
  moreover have "sh_worker s \<noteq> Deciding" using s unfolding stuck_def using wait act by blast
  ultimately show "sh_drop s = Dropped \<and> sh_worker s \<in> {Waiting, Exited} \<or> sh_drop s = Joining \<and> sh_worker s = Waiting"
    by (cases "sh_worker s"; cases "sh_drop s") auto
qed (auto simp: stuck_def elim: shutdown_stepE)

text \<open>The flag is set before anybody is notified, and the worker exits before it is joined.\<close>

lemma shutdown_reachable:
  "shutdown_step\<^sup>*\<^sup>* (shutdown_start m) s \<Longrightarrow>
     (sh_flag s \<longleftrightarrow> sh_drop s \<noteq> StoringFlag) \<and> (sh_worker s = Exited \<longrightarrow> sh_flag s) \<and> (sh_drop s = Dropped \<longrightarrow> sh_worker s = Exited)"
proof (induction rule: rtranclp_induct)
  case (step s s')
  from step.hyps(2) step.IH show ?case by (cases rule: shutdown_step.cases) (auto split: if_splits)
qed (simp add: shutdown_start_def)

lemma shutdown_lost_wakeup:
  assumes "worker_decide False m = Wait"
  shows "shutdown_step\<^sup>*\<^sup>* (shutdown_start m) \<lparr>sh_flag = True, sh_manifest = m, sh_worker = Waiting, sh_drop = Joining\<rparr>"
proof -
  let ?s1 = "(shutdown_start m)\<lparr>sh_worker := Deciding\<rparr>"
  let ?s2 = "?s1\<lparr>sh_flag := True, sh_drop := Notifying\<rparr>"
  let ?s3 = "?s2\<lparr>sh_drop := Joining\<rparr>"
  have 1: "shutdown_step (shutdown_start m) ?s1" using look [of "shutdown_start m"] by (simp add: shutdown_start_def)
  have 2: "shutdown_step ?s1 ?s2" using store [of ?s1] by (simp add: shutdown_start_def)
  have 3: "shutdown_step ?s2 ?s3" using notify [of ?s2] by (simp add: shutdown_start_def)
  have 4: "shutdown_step ?s3 (?s3\<lparr>sh_worker := Waiting\<rparr>)" by (rule wait) (simp_all add: shutdown_start_def assms)
  have "shutdown_step\<^sup>*\<^sup>* (shutdown_start m) (?s3\<lparr>sh_worker := Waiting\<rparr>)"
    by (rule converse_rtranclp_into_rtranclp [OF 1 converse_rtranclp_into_rtranclp [OF 2
          converse_rtranclp_into_rtranclp [OF 3 r_into_rtranclp [of shutdown_step, OF 4]]]])
  then show ?thesis by (simp add: shutdown_start_def)
qed

subsection \<open>What a decision says about the tables\<close>

lemma triggered_level_Some:
  "triggered_level m lvls = Some lvl \<Longrightarrow>
     lvl \<in> set lvls \<and> lvl < length (levels m) \<and> L0_SIZE_TRIGGER * 10 ^ lvl \<le> level_size (levels m ! lvl)"
  by (induction m lvls rule: triggered_level.induct) (auto split: if_splits)

lemma level_size_empty: "files l = [] \<Longrightarrow> level_size l = 0"
  by (simp add: level_size_def)

lemma decide_flush: "worker_decide False m = Flush \<Longrightarrow> 4 < length (wals m)"
  by (auto simp: worker_decide_def split: if_splits option.splits)

lemma decide_l0: "worker_decide False m = CompactL0 \<Longrightarrow> levels m \<noteq> [] \<and> files (levels m ! 0) \<noteq> []"
  by (cases "levels m") (auto simp: worker_decide_def l0_size_def L0_SIZE_TRIGGER_def level_size_def split: if_splits option.splits)

lemma decide_ln:
  assumes "worker_decide False m = CompactLn lvl"
  shows "0 < lvl \<and> lvl < 4 \<and> lvl < length (levels m) \<and> files (levels m ! lvl) \<noteq> []"
proof -
  from assms have "triggered_level m [1..<MAX_LEVELS] = Some lvl"
    by (auto simp: worker_decide_def split: if_splits option.splits)
  from triggered_level_Some [OF this] have l: "lvl \<in> {1, 2, 3}" "lvl < length (levels m)"
    "L0_SIZE_TRIGGER * 10 ^ lvl \<le> level_size (levels m ! lvl)" by (auto simp: MAX_LEVELS_def)
  have "0 < L0_SIZE_TRIGGER * 10 ^ lvl" using l(1) by (auto simp: L0_SIZE_TRIGGER_def)
  then have "files (levels m ! lvl) \<noteq> []" using l(3) level_size_empty by fastforce
  with l(1,2) show ?thesis by auto
qed

subsection \<open>The work that is left\<close>

text \<open>
  The frozen memtables, then the tables of each level the loop looks at. Each turn that does
  something makes this list smaller in the lexicographic order: it takes work from one place
  and moves it further down.
\<close>

definition backlog :: "'m db_version \<Rightarrow> nat list" where
  "backlog v = length (frozen_memtables v)
     # map (\<lambda>i. if i < length (sstables v) then length (sstables v ! i) else 0) [0..<MAX_LEVELS]"

definition smaller_backlog :: "(nat list \<times> nat list) set" where
  "smaller_backlog = lexn less_than (Suc MAX_LEVELS)"

lemma wf_smaller_backlog: "wf smaller_backlog"
  unfolding smaller_backlog_def by (rule wf_lexn) simp

lemma lexn_at:
  assumes "length xs = n" "length ys = n" "i < n" "take i xs = take i ys" "xs ! i < ys ! i"
  shows "(xs, ys) \<in> lexn less_than n"
  unfolding lexn_conv
  using assms id_take_nth_drop [of i xs] id_take_nth_drop [of i ys]
  by (intro CollectI case_prodI2 conjI exI [of _ "take i xs"]) (auto intro!: exI)

lemma length_backlog [simp]: "length (backlog v) = Suc MAX_LEVELS"
  by (simp add: backlog_def)

lemma backlog_flushed:
  "frozen_memtables v \<noteq> [] \<Longrightarrow> frozen_memtables v' = [] \<Longrightarrow> (backlog v', backlog v) \<in> smaller_backlog"
  unfolding smaller_backlog_def by (rule lexn_at [of _ _ _ 0]) (simp_all add: backlog_def)

lemma backlog_compacted:
  assumes "src < MAX_LEVELS" "src < length T" "src < length T'" "take src T' = take src T" "length (T' ! src) < length (T ! src)"
    and "sstables v = map (map t_sst) T" "sstables v' = map (map t_sst) T'" "frozen_memtables v' = frozen_memtables v"
  shows "(backlog v', backlog v) \<in> smaller_backlog"
  unfolding smaller_backlog_def
proof (rule lexn_at [of _ _ _ "Suc src"])
  have same: "T' ! i = T ! i" if "i < src" for i using arg_cong [OF assms(4), of "\<lambda>l. l ! i"] that by simp
  show "take (Suc src) (backlog v') = take (Suc src) (backlog v)"
    using assms(1-3,6-8) same by (auto simp: backlog_def take_map min_def)
  show "backlog v' ! Suc src < backlog v ! Suc src"
    using assms(1-3,5-7) by (simp add: backlog_def)
qed (use assms(1) in simp_all)

subsection \<open>Turns keep the store\<close>

text \<open>All entries of a store: those of its tables and those of its frozen memtables.\<close>

definition stored_entries :: "'m skipmap \<Rightarrow> 'm db_version \<Rightarrow> table list list \<Rightarrow> entry multiset" where
  "stored_entries sm v T = runs_mset (concat T) + mset (concat (map (memtable_iter sm) (frozen_memtables v)))"

text \<open>
  The two parts of the invariant of the store: what the directory shows, which every turn keeps, and that the
  SSTable number handed out next is not in use, which a flush of several memtables does not keep.
\<close>

definition shows_store ::
  "ext \<Rightarrow> 'm skipmap \<Rightarrow> manifest \<Rightarrow> fs \<Rightarrow> 'm db_version \<Rightarrow> entry list \<Rightarrow> bytes \<Rightarrow> table list list \<Rightarrow> bool" where
  "shows_store x sm m f v es torn T \<longleftrightarrow>
     durable x sm m f v es torn \<and> tables x f m v T \<and> (\<forall>i < length T. 0 < i \<longrightarrow> level_sorted (T ! i))"

definition ids_free :: "manifest \<Rightarrow> table list list \<Rightarrow> bool" where
  "ids_free m T \<longleftrightarrow> distinct (map t_id (concat T)) \<and> (\<forall>t \<in> set (concat T). t_id t < next_sstable_id m)"

lemma store_ok_iff: "store_ok x sm m f v es torn T \<longleftrightarrow> shows_store x sm m f v es torn T \<and> ids_free m T"
  by (auto simp: store_ok_def shows_store_def ids_free_def)

text \<open>What a turn leaves: the store shown, the entries it had, and the WAL in use still the last one.\<close>

definition turn_result ::
  "ext \<Rightarrow> 'm skipmap \<Rightarrow> worker_action \<Rightarrow> manifest \<times> fs \<times> 'm db_version \<Rightarrow> entry list \<Rightarrow> bytes \<Rightarrow> table list list \<Rightarrow>
   manifest \<Rightarrow> fs \<Rightarrow> 'm db_version \<Rightarrow> table list list \<Rightarrow> bool" where
  "turn_result x sm a st es torn T m' f' v' T' \<longleftrightarrow>
     (case st of (m, f, v) \<Rightarrow>
        worker_turn x sm alone False (m, f, v) = Some (a, m', f', v')
        \<and> shows_store x sm m' f' v' es torn T' \<and> stored_entries sm v' T' = stored_entries sm v T
        \<and> (backlog v', backlog v) \<in> smaller_backlog
        \<and> set (butlast (wals m')) \<subseteq> set (butlast (wals m)) \<and> mutable_wal v' = mutable_wal v
        \<and> (a \<noteq> Flush \<longrightarrow> ids_free m' T'))"

text \<open>The bounds under which the action a turn takes fits in the file formats.\<close>

definition worker_ready :: "'m skipmap \<Rightarrow> manifest \<Rightarrow> 'm db_version \<Rightarrow> table list list \<Rightarrow> bool" where
  "worker_ready sm m v T \<longleftrightarrow>
     (case worker_decide False m of
        Flush \<Rightarrow> unat (version m) + 1 < 2 ^ 32 \<and> unat (next_sstable_id m) + length (frozen_memtables v) \<le> 2 ^ 32
          \<and> manifest_room m (length (frozen_memtables v)) \<and> (\<forall>mt \<in> set (frozen_memtables v). run_ok (memtable_iter sm mt))
      | CompactL0 \<Rightarrow> can_compact m T (merged_tables 0 (T ! 0) T) TARGET_FILE_SIZE
      | CompactLn lvl \<Rightarrow> can_compact m T (merged_tables lvl [hd (T ! lvl)] T) TARGET_FILE_SIZE
      | _ \<Rightarrow> True)"

lemma stored_entries_flushed:
  "map t_run ts = map (memtable_iter sm) (frozen_memtables v) \<Longrightarrow> frozen_memtables v' = [] \<Longrightarrow>
     stored_entries sm v' (add_first ts T) = stored_entries sm v T"
  by (cases T) (simp_all add: stored_entries_def add_first_def)

lemma level_sorted_add_first:
  "\<forall>i < length T. 0 < i \<longrightarrow> level_sorted (T ! i) \<Longrightarrow> \<forall>i < length (add_first ts T). 0 < i \<longrightarrow> level_sorted (add_first ts T ! i)"
  by (auto simp: add_first_def nth_Cons' split: list.splits)

lemma worker_flush:
  assumes S: "store_ok x sm m f v es torn T" "ext_ok x" and ready: "worker_ready sm m v T" and a: "worker_decide False m = Flush"
  shows "\<exists>m' f' v' T'. turn_result x sm Flush (m, f, v) es torn T m' f' v' T'"
proof -
  from S(1) have D: "durable x sm m f v es torn" and T: "tables x f m v T" and ids: "\<forall>t \<in> set (concat T). t_id t < next_sstable_id m"
    and sorted: "\<forall>i < length T. 0 < i \<longrightarrow> level_sorted (T ! i)" by (simp_all add: store_ok_def)
  have ne: "frozen_memtables v \<noteq> []"
    using D decide_flush [OF a] by (auto simp: durable_def dest: list_all2_lengthD)
  from ready have "unat (version m) + 1 < 2 ^ 32" "unat (next_sstable_id m) + length (frozen_memtables v) \<le> 2 ^ 32"
    "manifest_room m (length (frozen_memtables v))" "\<forall>mt \<in> set (frozen_memtables v). run_ok (memtable_iter sm mt)"
    by (simp_all add: worker_ready_def a)
  with ne obtain m' f' ts where
    r: "flush_memtables x sm alone (m, f, v) = Some (Inr (), m', f', v\<lparr>frozen_memtables := [], sstables := map (map t_sst) (add_first ts T)\<rparr>)"
      "tables x f' m' (v\<lparr>frozen_memtables := [], sstables := map (map t_sst) (add_first ts T)\<rparr>) (add_first ts T)"
      "durable x sm m' f' (v\<lparr>frozen_memtables := [], sstables := map (map t_sst) (add_first ts T)\<rparr>) es torn"
      "map t_run ts = map (memtable_iter sm) (frozen_memtables v)" "wals m' = [wal_id (mutable_wal v)]"
    using flush_durable [OF D S(2) T _ _ ids] by blast
  let ?v = "v\<lparr>frozen_memtables := [], sstables := map (map t_sst) (add_first ts T)\<rparr>"
  have "worker_turn x sm alone False (m, f, v) = Some (Flush, m', f', ?v)" by (simp add: worker_turn_def a r(1))
  moreover have "(backlog ?v, backlog v) \<in> smaller_backlog" by (rule backlog_flushed) (simp_all add: ne)
  moreover have "stored_entries sm ?v (add_first ts T) = stored_entries sm v T" by (rule stored_entries_flushed [OF r(4)]) simp
  ultimately have "turn_result x sm Flush (m, f, v) es torn T m' f' ?v (add_first ts T)"
    using r(2,3,5) level_sorted_add_first [OF sorted] by (simp add: turn_result_def shows_store_def)
  then show ?thesis by blast
qed

lemma worker_compact:
  assumes S: "store_ok x sm m f v es torn T" and src: "src < MAX_LEVELS" "src < length T" "length left < length (T ! src)"
    and c: "compaction_result x sm m v es torn src left ins T r"
    and turn: "worker_turn x sm alone False (m, f, v) = map_option (\<lambda>st. (a, snd st)) r"
  shows "\<exists>m' f' v' T'. turn_result x sm a (m, f, v) es torn T m' f' v' T'"
proof -
  from c obtain m' f' T' where
    r: "r = Some (Inr (), m', f', v\<lparr>sstables := map (map t_sst) T'\<rparr>)"
      "store_ok x sm m' f' (v\<lparr>sstables := map (map t_sst) T'\<rparr>) es torn T'" "length T' = max (length T) (src + 2)"
      "T' ! src = left" "runs_mset (concat T') = runs_mset (concat T)" "take src T' = take src T" "wals m' = wals m"
    unfolding compaction_result_def by blast
  let ?v = "v\<lparr>sstables := map (map t_sst) T'\<rparr>"
  have "(backlog ?v, backlog v) \<in> smaller_backlog"
    by (rule backlog_compacted [OF src(1,2) _ r(6)]) (use S r(3,4) src in \<open>simp_all add: store_ok_def tables_def\<close>)
  then have "turn_result x sm a (m, f, v) es torn T m' f' ?v T'"
    using r(2) by (simp add: turn_result_def turn r(1,5,7) stored_entries_def store_ok_iff)
  then show ?thesis by blast
qed

lemma worker_compact_l0:
  assumes S: "store_ok x sm m f v es torn T" "ext_ok x" and ready: "worker_ready sm m v T" and a: "worker_decide False m = CompactL0"
  shows "\<exists>m' f' v' T'. turn_result x sm (CompactL0) (m, f, v) es torn T m' f' v' T'"
proof -
  from S(1) have lf: "level_files m = map (map t_meta) T" by (simp add: store_ok_def tables_def)
  from decide_l0 [OF a] have "0 < length T" using length_levels [OF lf] by auto
  with decide_l0 [OF a] have ne: "T \<noteq> []" "T ! 0 \<noteq> []" using files_of_level [OF lf, of 0] by auto
  have can: "can_compact m T (merged_tables 0 (T ! 0) T) TARGET_FILE_SIZE" using ready by (simp add: worker_ready_def a)
  have "worker_turn x sm alone False (m, f, v) = map_option (\<lambda>st. (CompactL0, snd st)) (compact_l0 x alone TARGET_FILE_SIZE (m, f, v))"
    by (simp add: worker_turn_def a option.map_comp o_def)
  from worker_compact [OF S(1) _ _ _ compact_l0_ok [OF S ne can] this] show ?thesis using ne by (simp add: MAX_LEVELS_def)
qed

lemma worker_compact_ln:
  assumes S: "store_ok x sm m f v es torn T" "ext_ok x" and ready: "worker_ready sm m v T" and a: "worker_decide False m = CompactLn lvl"
  shows "\<exists>m' f' v' T'. turn_result x sm (CompactLn lvl) (m, f, v) es torn T m' f' v' T'"
proof -
  from S(1) have lf: "level_files m = map (map t_meta) T" by (simp add: store_ok_def tables_def)
  from decide_ln [OF a] have l: "lvl < MAX_LEVELS" "lvl < length T" "T ! lvl \<noteq> []"
    using length_levels [OF lf] files_of_level [OF lf, of lvl] by (auto simp: MAX_LEVELS_def)
  then obtain t rest where t: "T ! lvl = t # rest" by (cases "T ! lvl") auto
  have can: "can_compact m T (merged_tables lvl [t] T) TARGET_FILE_SIZE" using ready by (simp add: worker_ready_def a t)
  have "worker_turn x sm alone False (m, f, v) = map_option (\<lambda>st. (CompactLn lvl, snd st)) (compact_ln x alone lvl TARGET_FILE_SIZE (m, f, v))"
    by (simp add: worker_turn_def a option.map_comp o_def)
  from worker_compact [OF S(1) l(1,2) _ compact_ln_ok [OF S l(2) t can] this] show ?thesis by (simp add: t)
qed

lemma worker_busy_turn:
  assumes S: "store_ok x sm m f v es torn T" "ext_ok x" and ready: "worker_ready sm m v T"
    and busy: "worker_decide False m \<noteq> Wait"
  shows "\<exists>m' f' v' T'. turn_result x sm (worker_decide False m) (m, f, v) es torn T m' f' v' T'"
proof (cases "worker_decide False m")
  case Shutdown
  then show ?thesis by (auto simp: worker_decide_def split: if_splits option.splits)
next
  case Flush
  from worker_flush [OF S ready this] show ?thesis unfolding Flush .
next
  case CompactL0
  from worker_compact_l0 [OF S ready this] show ?thesis unfolding CompactL0 .
next
  case (CompactLn lvl)
  from worker_compact_ln [OF S ready this] show ?thesis unfolding CompactLn .
qed (use busy in simp)

text \<open>The busy turns of the worker that nobody disturbs, from a store that is in step, with room in the
  formats and fresh table numbers, as a relation of the state after the turn to the state before it.\<close>

definition busy_turns :: "ext \<Rightarrow> 'm skipmap \<Rightarrow> ((manifest \<times> fs \<times> 'm db_version) \<times> (manifest \<times> fs \<times> 'm db_version)) set" where
  "busy_turns x sm = {(st', (m, f, v)). worker_decide False m \<noteq> Wait
     \<and> (\<exists>es torn T. store_ok x sm m f v es torn T \<and> worker_ready sm m v T)
     \<and> worker_turn x sm alone False (m, f, v) = Some (worker_decide False m, st')}"

lemma busy_turn_smaller:
  assumes "(st', st) \<in> busy_turns x sm" "ext_ok x"
  shows "(backlog (snd (snd st')), backlog (snd (snd st))) \<in> smaller_backlog"
proof -
  obtain m f v where st: "st = (m, f, v)" by (cases st)
  with assms(1) obtain es torn T where t: "store_ok x sm m f v es torn T" "worker_ready sm m v T" "worker_decide False m \<noteq> Wait"
    "worker_turn x sm alone False (m, f, v) = Some (worker_decide False m, st')" unfolding busy_turns_def by blast
  from worker_busy_turn [OF t(1) assms(2) t(2,3)] t(4) show ?thesis unfolding st turn_result_def by auto
qed

lemma wf_busy_turns: "ext_ok x \<Longrightarrow> wf (busy_turns x sm)"
  by (rule wf_subset [OF wf_inv_image [OF wf_smaller_backlog, of "\<lambda>st. backlog (snd (snd st))"]])
    (auto simp: inv_image_def dest: busy_turn_smaller)

text \<open>A turn does not look at the mutable memtable and its WAL, and leaves them alone.\<close>

lemma worker_turn_front:
  "worker_turn x sm others shutdown (m, f, v\<lparr>mutable_memtable := mt, mutable_wal := w\<rparr>)
     = map_option (\<lambda>(a, m', f', v'). (a, m', f', v'\<lparr>mutable_memtable := mt, mutable_wal := w\<rparr>)) (worker_turn x sm others shutdown (m, f, v))"
  by (simp add: worker_turn_def Let_def flush_with_front compact_with_front option.map_comp o_def with_front_def
      case_prod_unfold split: worker_action.split)

lemma version_front: "v\<lparr>mutable_memtable := mutable_memtable v, mutable_wal := mutable_wal v\<rparr> = v"
  by simp

lemma worker_turn_keeps_front:
  assumes "worker_turn x sm others shutdown (m, f, v) = Some (a, m', f', v')"
  shows "mutable_memtable v' = mutable_memtable v \<and> mutable_wal v' = mutable_wal v"
proof -
  have "v'\<lparr>mutable_memtable := mutable_memtable v, mutable_wal := mutable_wal v\<rparr> = v'"
    using worker_turn_front [of x sm others shutdown m f "mutable_wal v" "mutable_memtable v" v] assms by (simp add: version_front)
  then have "mutable_memtable (v'\<lparr>mutable_memtable := mutable_memtable v, mutable_wal := mutable_wal v\<rparr>) = mutable_memtable v'"
    "mutable_wal (v'\<lparr>mutable_memtable := mutable_memtable v, mutable_wal := mutable_wal v\<rparr>) = mutable_wal v'" by (simp_all only:)
  then show ?thesis by simp
qed

text \<open>C8: Suppose the worker has work and nobody disturbs its turn, the store is in step and no table number is in
  use twice or at or above the next one, and what the turn writes fits in the file formats. Then the turn does the
  work and makes the backlog smaller in a well-founded order: it loses no entry, the manifest and the version go on
  showing the same tables, and a restart from the directory finds them. After a turn that compacts, the table numbers
  are fresh again; a turn that flushes several memtables ends that, since it takes one number for all of them. There
  is no infinite sequence of turns that each start under these conditions.\<close>

theorem worker_turn_progress:
  assumes "store_ok x sm m f v es torn T" "ext_ok x" "worker_ready sm m v T" "worker_decide False m \<noteq> Wait"
  shows "wf smaller_backlog \<and> wf (busy_turns x sm)
    \<and> (\<exists>m' f' v' T'. worker_turn x sm alone False (m, f, v) = Some (worker_decide False m, m', f', v')
      \<and> ((m', f', v'), (m, f, v)) \<in> busy_turns x sm
      \<and> durable x sm m' f' v' es torn \<and> tables x f' m' v' T' \<and> stored_entries sm v' T' = stored_entries sm v T
      \<and> (backlog v', backlog v) \<in> smaller_backlog
      \<and> (worker_decide False m \<noteq> Flush \<longrightarrow> store_ok x sm m' f' v' es torn T'))"
proof -
  from worker_busy_turn [OF assms] obtain m' f' v' T' where
    r: "turn_result x sm (worker_decide False m) (m, f, v) es torn T m' f' v' T'" by blast
  then have "((m', f', v'), (m, f, v)) \<in> busy_turns x sm"
    using assms by (auto simp: turn_result_def busy_turns_def)
  with r show ?thesis using wf_smaller_backlog wf_busy_turns [OF assms(2)]
    unfolding turn_result_def store_ok_iff by (auto simp: shows_store_def)
qed

text \<open>C34: Shutting down can hang: if the worker has looked at the flag and not yet begun to wait when the flag is
  set and the condition variable notified, the notification is lost, the worker waits for ever
  (unless it is woken spuriously), and so does the thread that joins it. This is the only way shutting down can get stuck: in every
  other state that is reached, either the database is dropped and its worker gone or somebody can
  take a step.\<close>

theorem shutdown_can_hang:
  assumes "worker_decide False m = Wait"
  shows "(\<exists>s. shutdown_step\<^sup>*\<^sup>* (shutdown_start m) s \<and> stuck s \<and> sh_drop s = Joining \<and> sh_worker s = Waiting)
    \<and> (\<forall>s. shutdown_step\<^sup>*\<^sup>* (shutdown_start m) s \<longrightarrow> stuck s \<longrightarrow>
         sh_drop s = Dropped \<and> sh_worker s = Exited \<or> sh_drop s = Joining \<and> sh_worker s = Waiting)"
proof
  show "\<exists>s. shutdown_step\<^sup>*\<^sup>* (shutdown_start m) s \<and> stuck s \<and> sh_drop s = Joining \<and> sh_worker s = Waiting"
    using shutdown_lost_wakeup [OF assms] by (intro exI conjI) (assumption | simp add: stuck_iff)+
  show "\<forall>s. shutdown_step\<^sup>*\<^sup>* (shutdown_start m) s \<longrightarrow> stuck s \<longrightarrow>
         sh_drop s = Dropped \<and> sh_worker s = Exited \<or> sh_drop s = Joining \<and> sh_worker s = Waiting"
    using shutdown_reachable unfolding stuck_iff by blast
qed

theorem shutdown_can_hang_witness:
  "worker_decide False (manifest_new 0) = Wait
   \<and> (\<exists>s. shutdown_step\<^sup>*\<^sup>* (shutdown_start (manifest_new 0)) s \<and> stuck s \<and> sh_drop s = Joining \<and> sh_worker s = Waiting)"
proof -
  have w: "worker_decide False (manifest_new 0) = Wait"
    by (simp add: worker_decide_def manifest_new_def l0_size_def L0_SIZE_TRIGGER_def MAX_LEVELS_def upt_rec)
  from shutdown_can_hang [OF w] w show ?thesis by blast
qed

subsection \<open>A store with four frozen memtables\<close>

fun sample_logs :: "nat \<Rightarrow> fs" where
  "sample_logs 0 = fs_empty"
| "sample_logs (Suc n) = fs_put (sample_logs n) (wal_name n) (wal_bytes (x_crc sample_ext) sample_log [])"

abbreviation sample_full :: "entry list memtable" where
  "sample_full \<equiv> memtable_put_batch alist_skipmap sample_log (memtable_new alist_skipmap)"

lemma sample_logs_frame: "fs_frame (wal_name ` {..<n}) fs_empty (sample_logs n)"
proof (induction n)
  case (Suc n)
  have "wal_name ` {..<n} \<inter> {wal_name n} = {}" by auto
  from fs_frame_trans [OF Suc fs_frame_put this] show ?case by (simp add: lessThan_Suc)
qed simp

lemma sample_logs_wf: "fs_wf (sample_logs n)"
  by (induction n) (simp_all add: fs_put_wf fs_wf_empty)

lemma sample_logs_mirror:
  "k < n \<Longrightarrow> n \<le> 2 ^ 32 \<Longrightarrow> \<exists>i. wal_mirrors sample_ext alist_skipmap (sample_logs n) (of_nat k) i sample_log [] sample_full"
proof (induction n)
  case (Suc n)
  show ?case
  proof (cases "k = n")
    case True
    have "unat (of_nat n :: u32) = n" using Suc.prems(2) by (intro unat_of_nat_32) simp
    moreover obtain i where "fs_lookup (sample_logs (Suc n)) (wal_name n) = Some i"
      using fs_put_lookup_same [of "sample_logs n" "wal_name n"] by (metis sample_logs.simps(2))
    moreover have "fs_read (sample_logs (Suc n)) (wal_name n) = Some (wal_bytes (x_crc sample_ext) sample_log [])"
      by (simp add: fs_put_read [OF sample_logs_wf])
    ultimately show ?thesis using True sample_log_ok by (intro exI [of _ i]) (simp add: wal_mirrors_def fs_read_def)
  next
    case False
    then have k: "k < n" using Suc.prems(1) by simp
    have "unat (of_nat k :: u32) = k" using k Suc.prems(2) by (intro unat_of_nat_32) simp
    with k have "wal_name (unat (of_nat k :: u32)) \<notin> {wal_name n}" by simp
    from wal_mirrors_frame [OF fs_frame_put sample_logs_wf this] Suc.IH [OF k] Suc.prems(2)
    show ?thesis by (metis Suc_leD sample_logs.simps(2))
  qed
qed simp

definition sample_backlog :: manifest where
  "sample_backlog = (manifest_new 0)\<lparr>wals := [0, 1, 2, 3, 4], next_wal_id := 5\<rparr>"

lemma sample_backlog_wals: "wals sample_backlog = map of_nat [0..<4] @ [4]"
  by (simp add: sample_backlog_def upt_rec)

lemma sample_backlog_store:
  "\<exists>f v. store_ok sample_ext alist_skipmap (sample_backlog\<lparr>version := 1\<rparr>) f v sample_log [] []
    \<and> frozen_memtables v = replicate 4 sample_full \<and> fs_lookup f (wal_name 5) = None"
proof -
  let ?f = "sample_logs 5"
  have mirror: "\<exists>i. wal_mirrors sample_ext alist_skipmap ?f (of_nat k) i sample_log [] sample_full" if "k < 5" for k
    by (rule sample_logs_mirror [OF that]) simp
  from mirror [of 4] obtain i where i: "wal_mirrors sample_ext alist_skipmap ?f 4 i sample_log [] sample_full" by auto
  let ?v = "\<lparr>v_next_lsn = 3, mutable_memtable = sample_full, frozen_memtables = replicate 4 sample_full,
      mutable_wal = \<lparr>wal_id = 4, wal_file = i\<rparr>, sstables = []\<rparr>"
  have "list_all2 (\<lambda>w mt. \<exists>i es torn. wal_mirrors sample_ext alist_skipmap ?f w i es torn mt) (map of_nat [0..<4]) (replicate 4 sample_full)"
  proof (rule list_all2_all_nthI)
    fix k :: nat
    assume "k < length (map (of_nat :: nat \<Rightarrow> u32) [0..<4])"
    then have k: "k < 4" by simp
    then show "\<exists>i es torn. wal_mirrors sample_ext alist_skipmap ?f (map of_nat [0..<4] ! k) i es torn (replicate 4 sample_full ! k)"
      using mirror [of k] by (auto simp del: upt_rec_numeral)
  qed simp
  then have sv: "shows_version sample_ext alist_skipmap sample_backlog ?f ?v sample_log []"
    using i unfolding shows_version_def sample_backlog_wals by (simp add: sample_backlog_def manifest_new_def level_files_def)
  have fr: "fs_frame (wal_name ` {..<5}) fs_empty ?f" by (rule sample_logs_frame)
  have "set (manifest_candidates ?f) = set (manifest_candidates fs_empty)"
    by (rule fs_frame_candidates [OF fr]) auto
  then have "versions_upto ?f (version sample_backlog)" by (simp add: versions_upto_def fs_empty_fresh(3))
  moreover have "mf_names_ok ?f" by (rule fs_frame_mf_names [OF fs_empty_fresh(2) fr]) auto
  moreover have "manifest_ok sample_backlog"
    by (simp add: manifest_ok_def sample_backlog_def manifest_new_def manifest_body_def vec_encode_def)
  ultimately obtain f2 where
    "durable sample_ext alist_skipmap (sample_backlog\<lparr>version := version sample_backlog + 1\<rparr>) f2 ?v sample_log []"
    and fr2: "fs_frame {mf_tmp_name 1, mf_name 1} ?f f2"
    using commit_durable [OF sample_logs_wf _ _ _ _ refl _ sv, of "\<lambda>m f. (Inr m, f)"]
    by (auto simp: sample_backlog_def manifest_new_def)
  moreover have "fs_lookup f2 (wal_name 5) = None"
  proof -
    have "wal_name 5 \<notin> wal_name ` {..<5}" "wal_name 5 \<notin> {mf_tmp_name 1, mf_name 1}" by auto
    then show ?thesis using fr2 fr fs_empty_fresh(4) unfolding fs_frame_def by metis
  qed
  ultimately show ?thesis
    by (intro exI [of _ f2] exI [of _ ?v]) (simp add: store_ok_def tables_def level_files_def sample_backlog_def manifest_new_def)
qed

theorem worker_turn_progress_witness:
  "\<exists>f v m' f' v' T'. worker_turn sample_ext alist_skipmap alone False (sample_backlog\<lparr>version := 1\<rparr>, f, v) = Some (Flush, m', f', v')
    \<and> durable sample_ext alist_skipmap m' f' v' sample_log [] \<and> stored_entries alist_skipmap v' T' = repeat_mset 4 (mset sample_log)
    \<and> backlog v = [4, 0, 0, 0, 0] \<and> (backlog v', backlog v) \<in> smaller_backlog"
proof -
  from sample_backlog_store obtain f v where s: "store_ok sample_ext alist_skipmap (sample_backlog\<lparr>version := 1\<rparr>) f v sample_log [] []"
    "frozen_memtables v = replicate 4 sample_full" by blast
  let ?m = "sample_backlog\<lparr>version := 1\<rparr>"
  have a: "worker_decide False ?m = Flush" by (simp add: worker_decide_def sample_backlog_def)
  have "worker_ready alist_skipmap ?m v []"
    unfolding worker_ready_def a
    by (simp add: s(2) sample_log_run sample_log_run_ok manifest_room_def manifest_ok_def sample_backlog_def
        manifest_new_def manifest_body_def vec_encode_def)
  from worker_turn_progress [OF s(1) sample_ext_ok this] obtain m' f' v' T' where
    "worker_turn sample_ext alist_skipmap alone False (?m, f, v) = Some (Flush, m', f', v')"
    "durable sample_ext alist_skipmap m' f' v' sample_log []" "stored_entries alist_skipmap v' T' = stored_entries alist_skipmap v []"
    "(backlog v', backlog v) \<in> smaller_backlog" unfolding a by blast
  moreover have "stored_entries alist_skipmap v [] = repeat_mset 4 (mset sample_log)"
    by (simp add: stored_entries_def s(2) sample_log_run numeral_eq_Suc)
  moreover have "backlog v = [4, 0, 0, 0, 0]"
    using s by (simp add: backlog_def store_ok_def tables_def MAX_LEVELS_def numeral_eq_Suc)
  ultimately show ?thesis by metis
qed

end
