(* ===== verification/Endurance.thy ===== *)
theory Endurance
  imports Stranded Worker
begin

text \<open>
  The whole database: writers, rotations, the background worker and a crash. In a run in which
  no log write fails, a rotation finds no group between the log and the memtable, takes a WAL
  number that is not in use, and the worker never hands out an SSTable number in use (the
  three conditions the code does not see to), the directory has at every moment exactly the
  entries there were at the start and those that were logged since: in the memtables a restart
  rebuilds from the WALs, or in the SSTables. Nothing that was acknowledged is lost, and nothing
  comes twice.
\<close>

subsection \<open>Entries of a batch\<close>

lemma mset_ins_entry: "run_sorted es \<Longrightarrow> k \<notin> fst ` set es \<Longrightarrow> mset (ins_entry k v es) = add_mset (k, v) (mset es)"
  by (induction k v es rule: ins_entry.induct) auto

lemma mset_batch:
  "run_sorted acc \<Longrightarrow> distinct (map fst es) \<Longrightarrow> fst ` set es \<inter> fst ` set acc = {} \<Longrightarrow>
     mset (fold (\<lambda>(k, v). ins_entry k v) es acc) = mset acc + mset es"
proof (induction es arbitrary: acc)
  case (Cons e es)
  obtain k v where e: "e = (k, v)" by (cases e)
  have new: "k \<notin> fst ` set acc" using Cons.prems(3) by (auto simp: e)
  have "set (ins_entry k v acc) \<subseteq> insert (k, v) (set acc)" by (rule set_ins_entry)
  then have "fst ` set (ins_entry k v acc) \<subseteq> insert k (fst ` set acc)" by (force simp: image_subset_iff)
  moreover have "fst ` set es \<inter> insert k (fst ` set acc) = {}" "distinct (map fst es)" using Cons.prems(2,3) by (simp_all add: e)
  ultimately have "mset (fold (\<lambda>(k, v). ins_entry k v) es (ins_entry k v acc)) = mset (ins_entry k v acc) + mset es"
    by (intro Cons.IH run_sorted_ins_entry Cons.prems(1)) blast+
  then show ?case by (simp add: e mset_ins_entry [OF Cons.prems(1) new])
qed simp

lemma batch_entries:
  assumes "skipmap_ok sm" "distinct (map fst es)"
  shows "mset (memtable_iter sm (memtable_put_batch sm es (memtable_new sm))) = mset es"
  using mset_batch [of "[]" es] assms by (simp add: memtable_iter_put_batch memtable_iter_new)

subsection \<open>Runs with rotations and a worker\<close>

text \<open>
  A turn of the worker that has something to do, undisturbed and within the bounds of the file
  formats, while the SSTable number to be handed out next is not in use.
\<close>

definition background :: "ext \<Rightarrow> 'm skipmap \<Rightarrow> 'm sys \<Rightarrow> 'm sys \<Rightarrow> bool" where
  "background x sm s s' \<longleftrightarrow>
     (let d = sys_db s; m = db_manifest d; f = sys_fs s; v = db_current d in
      worker_decide False m \<noteq> Wait
      \<and> (\<forall>T. tables x f m v T \<longrightarrow> ids_free m T \<and> worker_ready sm m v T)
      \<and> (\<exists>a m' f' v'. worker_turn x sm alone False (m, f, v) = Some (a, m', f', v')
           \<and> s' = s\<lparr>sys_db := d\<lparr>db_manifest := m', db_current := v'\<rparr>, sys_fs := f'\<rparr>))"

text \<open>What a rotation needs: a WAL number that is not in use, and room in the manifest.\<close>

definition rotation_fits :: "'m sys \<Rightarrow> bool" where
  "rotation_fits s \<longleftrightarrow>
     (let m = db_manifest (sys_db s) in
      fs_lookup (sys_fs s) (wal_name (unat (next_wal_id m))) = None
      \<and> unat (version m) + 1 < 2 ^ 32 \<and> manifest_ok (m\<lparr>wals := wals m @ [next_wal_id m]\<rparr>))"

inductive enduring :: "ext \<Rightarrow> 'm skipmap \<Rightarrow> 'm sys \<Rightarrow> event list \<Rightarrow> 'm sys \<Rightarrow> bool"
  for x sm s0 where
  start: "enduring x sm s0 [] s0"
| writer: "enduring x sm s0 tr s \<Longrightarrow> writer_step (x_crc x) sm env w s = Some s' \<Longrightarrow> wal_fault env = None \<Longrightarrow> \<not> rotates w s \<Longrightarrow>
    enduring x sm s0 (tr @ step_events w s s') s'"
| rotation: "enduring x sm s0 tr s \<Longrightarrow> writer_step (x_crc x) sm env w s = Some s' \<Longrightarrow> wal_fault env = None \<Longrightarrow> rotates w s \<Longrightarrow>
    interference env = alone \<Longrightarrow> rotation_fits s \<Longrightarrow> apps tr = logs tr \<Longrightarrow> enduring x sm s0 (tr @ step_events w s s') s'"
| worker: "enduring x sm s0 tr s \<Longrightarrow> background x sm s s' \<Longrightarrow> enduring x sm s0 tr s'"

text \<open>The entries of a version: those of its mutable memtable, its frozen ones, and its tables.\<close>

definition held_entries :: "'m skipmap \<Rightarrow> 'm db_version \<Rightarrow> table list list \<Rightarrow> entry multiset" where
  "held_entries sm v T = stored_entries sm v T + mset (memtable_iter sm (mutable_memtable v))"

definition applied_entries :: "event list \<Rightarrow> entry list" where
  "applied_entries tr = concat (map snd (apps tr))"

lemma applied_entries_simps [simp]:
  "applied_entries [] = []" "applied_entries (tr @ tr') = applied_entries tr @ applied_entries tr'"
  by (simp_all add: applied_entries_def)

text \<open>
  The invariant. What was logged splits in what an earlier memtable took with it when it was
  frozen, \<open>old\<close>, and the entries \<open>es\<close> of the WAL in use; of these \<open>ap\<close> have been applied.
\<close>

definition endures :: "ext \<Rightarrow> 'm skipmap \<Rightarrow> entry list \<Rightarrow> entry multiset \<Rightarrow> event list \<Rightarrow> 'm sys \<Rightarrow> bool" where
  "endures x sm es0 E tr s \<longleftrightarrow>
     (\<exists>old es ap T. es0 @ logged_entries tr = old @ es \<and> es0 @ applied_entries tr = old @ ap
        \<and> shows_store x sm (db_manifest (sys_db s)) (sys_fs s) (logged_version sm es s) es [] T
        \<and> mutable_memtable (db_current (sys_db s)) = memtable_put_batch sm ap (memtable_new sm)
        \<and> stored_entries sm (db_current (sys_db s)) T = E + mset old)
     \<and> wal_id (mutable_wal (db_current (sys_db s))) \<notin> set (butlast (wals (db_manifest (sys_db s))))
     \<and> (\<forall>r. entry_ok (entry_of s r))"

lemma logged_version_rest [simp]:
  "mutable_wal (logged_version sm es s) = mutable_wal (db_current (sys_db s))"
  "frozen_memtables (logged_version sm es s) = frozen_memtables (db_current (sys_db s))"
  "sstables (logged_version sm es s) = sstables (db_current (sys_db s))"
  by (simp_all add: logged_version_def)

lemma tables_version: "sstables u = sstables v \<Longrightarrow> tables x f m u T \<longleftrightarrow> tables x f m v T"
  by (simp add: tables_def)

lemma stored_entries_version: "frozen_memtables u = frozen_memtables v \<Longrightarrow> stored_entries sm u T = stored_entries sm v T"
  by (simp add: stored_entries_def)

lemma tables_frame:
  assumes "tables x f m v T" "fs_frame A f f'" "fs_wf f" "\<forall>n. sst_name n \<notin> A"
  shows "tables x f' m v T"
  using assms(1,4) table_ok_frame [OF _ assms(2,3)] by (auto simp: tables_def)

subsection \<open>Every step keeps the invariant\<close>

lemma writer_step_memtable:
  assumes "writer_step crc sm env w s = Some s'" "wal_fault env = None" "\<not> rotates w s"
  shows "mutable_memtable (db_current (sys_db s'))
    = memtable_put_batch sm (applied_entries (step_events w s s')) (mutable_memtable (db_current (sys_db s)))"
proof (cases "sys_phase s w")
  case (LeaderLogging g t l)
  then show ?thesis
    using assms by (auto simp: writer_step_def step_log_def Let_def step_events_def applied_entries_def memtable_put_batch_def)
next
  case (LeaderWritingMemtable g t)
  then show ?thesis
    using assms by (auto simp: writer_step_def step_apply_def step_events_def applied_entries_def write_memtable_def)
next
  case (LeaderApplied g t)
  then show ?thesis
    using assms by (auto simp: writer_step_def step_rotate_def Let_def step_events_def rotates_def full_def memtable_put_batch_def)
next
  case (Dropping gs res)
  then show ?thesis
    using assms by (cases "(w, gs, res, s)" rule: step_drop.cases)
      (auto simp: writer_step_def drop_wal_guard_def drop_ticket_guard_def step_events_def memtable_put_batch_def)
next
  case (LeaderAnnouncing g rs)
  then show ?thesis using assms by (cases rs) (auto simp: writer_step_def step_events_def memtable_put_batch_def)
qed (use assms in \<open>auto simp: writer_step_def step_queue_def step_seek_def step_follow_def step_wait_wal_def step_ticket_def
      step_wait_memtable_def step_finish_def drop_wal_guard_def drop_ticket_guard_def form_write_group_def Let_def
      step_events_def memtable_put_batch_def
      split: if_splits option.splits sum.splits completion.splits list.splits\<close>)

lemma put_batch_append: "memtable_put_batch sm es' (memtable_put_batch sm es m) = memtable_put_batch sm (es @ es') m"
  by (simp add: memtable_put_batch_def)

lemma endures_writer:
  assumes I: "endures x sm es0 E tr s"
    and st: "writer_step (x_crc x) sm env w s = Some s'" "wal_fault env = None" "\<not> rotates w s"
  shows "endures x sm es0 E (tr @ step_events w s s') s'"
proof -
  let ?m = "db_manifest (sys_db s)" and ?v = "db_current (sys_db s)" and ?f = "sys_fs s"
  from I obtain old es ap T where split: "es0 @ logged_entries tr = old @ es" "es0 @ applied_entries tr = old @ ap"
    and S: "shows_store x sm ?m ?f (logged_version sm es s) es [] T"
    and mt: "mutable_memtable ?v = memtable_put_batch sm ap (memtable_new sm)" and stored: "stored_entries sm ?v T = E + mset old"
    and n: "wal_id (mutable_wal ?v) \<notin> set (butlast (wals ?m))" and ok: "\<forall>r. entry_ok (entry_of s r)"
    unfolding endures_def by blast
  from S have d: "durable x sm ?m ?f (logged_version sm es s) es []" and t: "tables x ?f ?m (logged_version sm es s) T"
    and sorted: "\<forall>i < length T. 0 < i \<longrightarrow> level_sorted (T ! i)" by (simp_all add: shows_store_def)
  note disk = writer_step_disk [OF st]
  then have keep: "db_manifest (sys_db s') = ?m" "mutable_wal (db_current (sys_db s')) = mutable_wal ?v"
    "logged_version sm es s' = logged_version sm es s" for es by blast+
  have rest: "frozen_memtables (db_current (sys_db s')) = frozen_memtables ?v" "sstables (db_current (sys_db s')) = sstables ?v"
    using arg_cong [OF keep(3) [of "[]"], of frozen_memtables] arg_cong [OF keep(3) [of "[]"], of sstables] by simp_all
  have "fs_lookup ?f (wal_name (unat (wal_id (mutable_wal ?v)))) = Some (wal_file (mutable_wal ?v))"
    using durable_file [OF d] by simp
  from disk fs_append_frame(1) [OF this] have "fs_frame {wal_name (unat (wal_id (mutable_wal ?v)))} ?f (sys_fs s')"
    by (auto simp: write_wal_def wal_write_def)
  from tables_frame [OF t this] d have "tables x (sys_fs s') ?m (logged_version sm es s) T" by (simp add: durable_def)
  then have "tables x (sys_fs s') (db_manifest (sys_db s')) (logged_version sm (es @ logged_entries (step_events w s s')) s') T"
    unfolding keep(1) by (subst tables_version [of _ "logged_version sm es s"]) (simp_all add: rest)
  with durable_writer_step [OF d n ok st] sorted have
    "shows_store x sm (db_manifest (sys_db s')) (sys_fs s') (logged_version sm (es @ logged_entries (step_events w s s')) s')
      (es @ logged_entries (step_events w s s')) [] T" by (simp add: shows_store_def)
  moreover have "mutable_memtable (db_current (sys_db s'))
      = memtable_put_batch sm (ap @ applied_entries (step_events w s s')) (memtable_new sm)"
    unfolding writer_step_memtable [OF st] mt put_batch_append ..
  moreover have "stored_entries sm (db_current (sys_db s')) T = E + mset old"
    using stored stored_entries_version [OF rest(1)] by simp
  moreover have "entry_ok (entry_of s' r)" for r by (rule writer_step_entry_ok [OF st(1) spec [OF ok]])
  ultimately show ?thesis
    using n split unfolding endures_def keep(1,2)
    by (intro conjI exI [of _ old] exI [of _ "es @ logged_entries (step_events w s s')"]
        exI [of _ "ap @ applied_entries (step_events w s s')"] exI [of _ T]) simp_all
qed

lemma rotation_step:
  assumes "writer_step crc sm env w s = Some s'" "rotates w s" "interference env = alone"
    and "rotate_memtable crc sm alone (db_manifest (sys_db s), sys_fs s, db_current (sys_db s)) = (Inr (), m', f', v')"
  shows "db_manifest (sys_db s') = m' \<and> db_current (sys_db s') = v' \<and> sys_fs s' = f' \<and> sys_reqs s' = sys_reqs s
    \<and> step_events w s s' = []"
  using assms by (auto simp: writer_step_def rotates_def full_def step_rotate_def Let_def step_events_def)

text \<open>When everything that was logged is applied, the directory shows the version itself.\<close>

lemma endures_settled:
  assumes "endures x sm es0 E tr s" "apps tr = logs tr"
  shows "\<exists>old es T. es0 @ logged_entries tr = old @ es \<and> es0 @ applied_entries tr = old @ es
    \<and> shows_store x sm (db_manifest (sys_db s)) (sys_fs s) (db_current (sys_db s)) es [] T
    \<and> stored_entries sm (db_current (sys_db s)) T = E + mset old
    \<and> mutable_memtable (db_current (sys_db s)) = memtable_put_batch sm es (memtable_new sm)"
proof -
  from assms(1) obtain old es ap T where split: "es0 @ logged_entries tr = old @ es" "es0 @ applied_entries tr = old @ ap"
    and S: "shows_store x sm (db_manifest (sys_db s)) (sys_fs s) (logged_version sm es s) es [] T"
    and mt: "mutable_memtable (db_current (sys_db s)) = memtable_put_batch sm ap (memtable_new sm)"
    and stored: "stored_entries sm (db_current (sys_db s)) T = E + mset old"
    unfolding endures_def by blast
  have "ap = es" using split assms(2) by (simp add: applied_entries_def logged_entries_def)
  moreover from this have "logged_version sm es s = db_current (sys_db s)" using mt by (simp add: logged_version_def)
  ultimately show ?thesis using split S mt stored by metis
qed

lemma rotation_result:
  assumes "endures x sm es0 E tr s" "apps tr = logs tr" "rotation_fits s"
  defines "m \<equiv> db_manifest (sys_db s)"
  defines "m' \<equiv> m\<lparr>wals := wals m @ [next_wal_id m], version := version m + 1\<rparr>"
  shows "\<exists>f' w. rotate_memtable (x_crc x) sm alone (m, sys_fs s, db_current (sys_db s))
        = (Inr (), m', f', rotate_install sm w (db_current (sys_db s)))
    \<and> durable x sm m' f' (rotate_install sm w (db_current (sys_db s))) [] []
    \<and> fs_frame {wal_name (unat (next_wal_id m)), mf_tmp_name (unat (version m')), mf_name (unat (version m'))} (sys_fs s) f'
    \<and> next_wal_id m \<notin> set (wals m)"
proof -
  from endures_settled [OF assms(1,2)] obtain es where d: "durable x sm m (sys_fs s) (db_current (sys_db s)) es []"
    by (auto simp: shows_store_def m_def)
  from assms(3) have fits: "fs_lookup (sys_fs s) (wal_name (unat (next_wal_id m))) = None" "unat (version m) + 1 < 2 ^ 32"
    "manifest_ok (m\<lparr>wals := wals m @ [next_wal_id m]\<rparr>)" by (simp_all add: rotation_fits_def Let_def m_def)
  have "next_wal_id m \<notin> set (wals m)" using durable_wal_exists [OF d] fits(1) by blast
  with rotate_fresh [OF d fits] show ?thesis unfolding m'_def by metis
qed

lemma endures_rotation:
  assumes I: "endures x sm es0 E tr s" and sm: "skipmap_ok sm" and dist: "distinct (map fst (es0 @ logged_entries tr))"
    and st: "writer_step (x_crc x) sm env w s = Some s'" "rotates w s" "interference env = alone" "rotation_fits s"
    and calm: "apps tr = logs tr"
  shows "endures x sm es0 E (tr @ step_events w s s') s'"
proof -
  let ?m = "db_manifest (sys_db s)" and ?v = "db_current (sys_db s)" and ?f = "sys_fs s"
  from endures_settled [OF I calm] obtain old es T where split: "es0 @ logged_entries tr = old @ es" "es0 @ applied_entries tr = old @ es"
    and d: "durable x sm ?m ?f ?v es []" and t: "tables x ?f ?m ?v T" and sorted: "\<forall>i < length T. 0 < i \<longrightarrow> level_sorted (T ! i)"
    and mt: "mutable_memtable ?v = memtable_put_batch sm es (memtable_new sm)" and stored: "stored_entries sm ?v T = E + mset old"
    unfolding shows_store_def by blast
  have ok: "\<forall>r. entry_ok (entry_of s r)" using I by (simp add: endures_def)
  let ?m' = "?m\<lparr>wals := wals ?m @ [next_wal_id ?m], version := version ?m + 1\<rparr>"
  from rotation_result [OF I calm st(4)] obtain f' wl where
    r: "rotate_memtable (x_crc x) sm alone (?m, ?f, ?v) = (Inr (), ?m', f', rotate_install sm wl ?v)"
      "durable x sm ?m' f' (rotate_install sm wl ?v) [] []" "next_wal_id ?m \<notin> set (wals ?m)"
    and fr: "fs_frame {wal_name (unat (next_wal_id ?m)), mf_tmp_name (unat (version ?m')), mf_name (unat (version ?m'))} ?f f'" by blast
  note s' = rotation_step [OF st(1-3) r(1)]
  have v': "logged_version sm [] s' = rotate_install sm wl ?v" using s' by (simp add: logged_version_def rotate_install_def memtable_put_batch_def)
  have "fs_wf ?f" using d by (simp add: durable_def)
  from tables_frame [OF t fr this] have "tables x f' ?m ?v T" by simp
  then have "tables x f' ?m' (rotate_install sm wl ?v) T" by (simp add: tables_def rotate_install_def level_files_def)
  with r(2) sorted have "shows_store x sm (db_manifest (sys_db s')) (sys_fs s') (logged_version sm [] s') [] [] T"
    unfolding v' using s' by (simp add: shows_store_def)
  moreover have "mutable_memtable (db_current (sys_db s')) = memtable_put_batch sm [] (memtable_new sm)"
    using s' by (simp add: rotate_install_def memtable_put_batch_def)
  moreover have "stored_entries sm (db_current (sys_db s')) T = E + mset (old @ es)"
  proof -
    have "distinct (map fst es)" using dist unfolding split(1) by simp
    from batch_entries [OF sm this] have "mset (memtable_iter sm (mutable_memtable ?v)) = mset es" unfolding mt .
    with s' stored show ?thesis by (simp add: stored_entries_def rotate_install_def)
  qed
  moreover have "wal_id (mutable_wal (db_current (sys_db s'))) \<notin> set (butlast (wals (db_manifest (sys_db s'))))"
  proof -
    have "wal_id wl = next_wal_id ?m" using r(2) by (auto simp: durable_def rotate_install_def)
    then show ?thesis using r(3) s' by (simp add: rotate_install_def)
  qed
  moreover have "entry_of s' = entry_of s" using s' by (simp add: entry_of_def fun_eq_iff)
  ultimately show ?thesis
    using ok split s' unfolding endures_def
    by (intro conjI exI [of _ "old @ es"] exI [of _ "[]"] exI [of _ T]) simp_all
qed

lemma endures_background:
  assumes I: "endures x sm es0 E tr s" and ext: "ext_ok x" and bg: "background x sm s s'"
  shows "endures x sm es0 E tr s'"
proof -
  let ?m = "db_manifest (sys_db s)" and ?v = "db_current (sys_db s)" and ?f = "sys_fs s"
  from I obtain old es ap T where split: "es0 @ logged_entries tr = old @ es" "es0 @ applied_entries tr = old @ ap"
    and S: "shows_store x sm ?m ?f (logged_version sm es s) es [] T"
    and mt: "mutable_memtable ?v = memtable_put_batch sm ap (memtable_new sm)" and stored: "stored_entries sm ?v T = E + mset old"
    and n: "wal_id (mutable_wal ?v) \<notin> set (butlast (wals ?m))" and ok: "\<forall>r. entry_ok (entry_of s r)"
    unfolding endures_def by blast
  let ?L = "memtable_put_batch sm es (memtable_new sm)"
  have V: "logged_version sm es s = ?v\<lparr>mutable_memtable := ?L, mutable_wal := mutable_wal ?v\<rparr>" by (simp add: logged_version_def)
  from S have "tables x ?f ?m ?v T" by (simp add: shows_store_def tables_def)
  with bg have busy: "worker_decide False ?m \<noteq> Wait" and free: "ids_free ?m T" and ready: "worker_ready sm ?m ?v T"
    by (simp_all add: background_def Let_def)
  from bg obtain a m' f' v' where turn: "worker_turn x sm alone False (?m, ?f, ?v) = Some (a, m', f', v')"
    and s': "s' = s\<lparr>sys_db := (sys_db s)\<lparr>db_manifest := m', db_current := v'\<rparr>, sys_fs := f'\<rparr>"
    unfolding background_def Let_def by blast
  have "store_ok x sm ?m ?f (logged_version sm es s) es [] T" using S free by (simp add: store_ok_iff)
  moreover have "worker_ready sm ?m (logged_version sm es s) T" using ready unfolding worker_ready_def logged_version_rest .
  ultimately obtain m1 f1 v1 T' where "turn_result x sm (worker_decide False ?m) (?m, ?f, logged_version sm es s) es [] T m1 f1 v1 T'"
    using worker_busy_turn [OF _ ext _ busy] by blast
  then have t1: "worker_turn x sm alone False (?m, ?f, logged_version sm es s) = Some (worker_decide False ?m, m1, f1, v1)"
    and r: "shows_store x sm m1 f1 v1 es [] T'" "stored_entries sm v1 T' = stored_entries sm (logged_version sm es s) T"
      "set (butlast (wals m1)) \<subseteq> set (butlast (wals ?m))" "mutable_wal v1 = mutable_wal (logged_version sm es s)"
    by (simp_all add: turn_result_def)
  from t1 have eq: "m1 = m'" "f1 = f'" "v1 = v'\<lparr>mutable_memtable := ?L, mutable_wal := mutable_wal ?v\<rparr>"
    unfolding V worker_turn_front turn by simp_all
  note front = worker_turn_keeps_front [OF turn]
  have v1: "logged_version sm es s' = v1" unfolding eq(3) using front by (simp add: s' logged_version_def)
  have "stored_entries sm v' T' = stored_entries sm v1 T'" by (rule stored_entries_version) (simp add: eq)
  also have "\<dots> = stored_entries sm ?v T" unfolding r(2) by (rule stored_entries_version) simp
  finally have "stored_entries sm (db_current (sys_db s')) T' = E + mset old" using stored by (simp add: s')
  moreover have "mutable_memtable (db_current (sys_db s')) = memtable_put_batch sm ap (memtable_new sm)"
    using front mt by (simp add: s')
  moreover have "shows_store x sm (db_manifest (sys_db s')) (sys_fs s') (logged_version sm es s') es [] T'"
    using r(1) unfolding v1 by (simp add: s' eq)
  moreover have "entry_of s' = entry_of s" by (simp add: s' entry_of_def fun_eq_iff)
  ultimately show ?thesis
    using n ok split r(3) front unfolding endures_def
    by (intro conjI exI [of _ old] exI [of _ es] exI [of _ ap] exI [of _ T']) (auto simp: s' eq)
qed

lemma background_possible:
  assumes I: "endures x sm es0 E tr s" and ext: "ext_ok x" and busy: "worker_decide False (db_manifest (sys_db s)) \<noteq> Wait"
    and fits: "\<forall>T. tables x (sys_fs s) (db_manifest (sys_db s)) (db_current (sys_db s)) T \<longrightarrow>
      ids_free (db_manifest (sys_db s)) T \<and> worker_ready sm (db_manifest (sys_db s)) (db_current (sys_db s)) T"
  shows "\<exists>s'. background x sm s s'"
proof -
  let ?m = "db_manifest (sys_db s)" and ?v = "db_current (sys_db s)" and ?f = "sys_fs s"
  from I obtain es T where S: "shows_store x sm ?m ?f (logged_version sm es s) es [] T" unfolding endures_def by blast
  then have "tables x ?f ?m ?v T" by (simp add: shows_store_def tables_def)
  with fits have "ids_free ?m T" "worker_ready sm ?m (logged_version sm es s) T"
    unfolding worker_ready_def logged_version_rest by simp_all
  with S have "\<exists>m' f' v' T'. turn_result x sm (worker_decide False ?m) (?m, ?f, logged_version sm es s) es [] T m' f' v' T'"
    by (intro worker_busy_turn [OF _ ext _ busy]) (simp_all add: store_ok_iff)
  then obtain st where turn: "worker_turn x sm alone False (?m, ?f, logged_version sm es s) = Some st"
    by (auto simp: turn_result_def)
  have "logged_version sm es s = ?v\<lparr>mutable_memtable := memtable_put_batch sm es (memtable_new sm), mutable_wal := mutable_wal ?v\<rparr>"
    by (simp add: logged_version_def)
  from turn [unfolded this worker_turn_front] obtain a m' f' v' where
    "worker_turn x sm alone False (?m, ?f, ?v) = Some (a, m', f', v')" by auto
  with busy fits show ?thesis unfolding background_def Let_def by blast
qed

lemma enduring_endures:
  assumes "enduring x sm s0 tr s" "endures x sm es0 E [] s0" "skipmap_ok sm" "ext_ok x" "distinct (map fst (es0 @ logged_entries tr))"
  shows "endures x sm es0 E tr s"
  using assms
proof (induction rule: enduring.induct)
  case (writer tr s env w s')
  have "distinct (map fst (es0 @ logged_entries tr))" using writer.prems(4) by (simp add: Int_Un_distrib)
  from endures_writer [OF writer.IH [OF writer.prems(1-3) this] writer.hyps(2-4)] show ?case .
next
  case (rotation tr s env w s')
  have d: "distinct (map fst (es0 @ logged_entries tr))" using rotation.prems(4) by (simp add: Int_Un_distrib)
  from endures_rotation [OF rotation.IH [OF rotation.prems(1-3) d] rotation.prems(2) d rotation.hyps(2,4-7)] show ?case .
next
  case (worker tr s s')
  then show ?case using endures_background by blast
qed simp

lemma background_change: "background x sm s s' \<Longrightarrow> worker_change s s'"
  unfolding background_def worker_change_def Let_def using worker_turn_keeps_front by blast

lemma enduring_run:
  assumes "enduring x sm s0 tr s"
  shows "run False (x_crc x) sm s0 tr s"
  using assms
proof (induction rule: enduring.induct)
  case (worker tr s s')
  then show ?case using background_change run.worker by blast
qed (auto intro: run.intros simp: fault_ok_def)

subsection \<open>A restart\<close>

lemma restart_endures:
  assumes I: "endures x sm es0 E tr s" and sm: "skipmap_ok sm" and dist: "distinct (map fst (es0 @ logged_entries tr))"
    and torn: "wal_next (x_crc x) torn = None"
  defines "f' \<equiv> write_wal (db_current (sys_db s)) torn (sys_fs s)"
  shows "\<exists>db T. db_new x sm True f' = (Inr db, f') \<and> tables x f' (db_manifest db) (db_current db) T
    \<and> held_entries sm (db_current db) T = E + mset (es0 @ logged_entries tr)"
proof -
  let ?m = "db_manifest (sys_db s)" and ?v = "db_current (sys_db s)" and ?f = "sys_fs s"
  from I obtain old es T where split: "es0 @ logged_entries tr = old @ es"
    and S: "shows_store x sm ?m ?f (logged_version sm es s) es [] T" and stored: "stored_entries sm ?v T = E + mset old"
    and n: "wal_id (mutable_wal (logged_version sm es s)) \<notin> set (butlast (wals ?m))"
    unfolding endures_def by auto
  let ?V = "logged_version sm es s"
  from S have d: "durable x sm ?m ?f ?V es []" and t: "tables x ?f ?m ?V T" by (simp_all add: shows_store_def)
  have f': "f' = fs_append ?f (wal_file (mutable_wal ?V)) torn" by (simp add: f'_def write_wal_def wal_write_def)
  have "durable x sm ?m f' ?V es torn"
    using durable_append [OF d n _ torn, of "[]"]
    by (simp add: f' write_wal_def wal_write_def write_memtable_def memtable_put_batch_def)
  note reopened = db_new_durable [OF this]
  have "fs_wf ?f" using d by (simp add: durable_def)
  from tables_frame [OF t fs_append_frame(1) [OF durable_file [OF d]] this] have "tables x f' ?m ?V T" by (simp add: f')
  then have "tables x f' (manifest_reopened ?m (version ?m)) (?V\<lparr>v_next_lsn := recovered_lsn es\<rparr>) T"
    by (simp add: tables_def manifest_reopened_def level_files_def)
  moreover have "held_entries sm (?V\<lparr>v_next_lsn := recovered_lsn es\<rparr>) T = E + mset (es0 @ logged_entries tr)"
  proof -
    have "distinct (map fst es)" using dist unfolding split by simp
    from batch_entries [OF sm this] stored show ?thesis
      unfolding split held_entries_def by (simp add: stored_entries_def logged_version_def)
  qed
  ultimately show ?thesis using reopened by auto
qed

lemma endures_start:
  assumes "shows_store x sm (db_manifest (sys_db s0)) (sys_fs s0) (db_current (sys_db s0)) es0 [] T"
    and "wal_id (mutable_wal (db_current (sys_db s0))) \<notin> set (butlast (wals (db_manifest (sys_db s0))))" "\<forall>r. entry_ok (entry_of s0 r)"
  shows "endures x sm es0 (stored_entries sm (db_current (sys_db s0)) T) [] s0"
proof -
  have mt: "mutable_memtable (db_current (sys_db s0)) = memtable_put_batch sm es0 (memtable_new sm)"
    using assms(1) by (simp add: shows_store_def durable_def wal_mirrors_def)
  then have "logged_version sm es0 s0 = db_current (sys_db s0)" by (simp add: logged_version_def)
  with assms mt show ?thesis unfolding endures_def
    by (intro conjI exI [of _ "[]"] exI [of _ es0] exI [of _ T]) simp_all
qed

subsection \<open>The property\<close>

text \<open>C1: Nothing is lost in a run of the whole database, begun idle and in step with its directory, with LSNs above those of the
  entries in the WAL and no wrap-around - any number of writers in any order, rotations, and flushes and
  compactions one turn of the worker at a time - under these conditions: no log write fails; when a writer rotates,
  every group that was logged has been applied, so that no other group is between log and memtable; a rotation
  takes a WAL number that is not in use, and a turn of the worker begins with SSTable numbers that are fresh; rotations and turns are undisturbed, fit the file
  formats, and are one step each, so that the process does not die inside one. If it dies after any step, leaving any
  incomplete entry at the end of the log, then reopening the directory succeeds and the memtables and tables of the reopened database
  hold exactly the entries there were at the start and those logged since, each once. Every write that had returned success
  is among them, under the LSN it was given and with its value.\<close>

theorem acknowledged_endures:
  assumes "enduring x sm s0 tr s" "idle s0" "sync_of s0 = write_syncs_new l0" "skipmap_ok sm" "ext_ok x"
    and "shows_store x sm (db_manifest (sys_db s0)) (sys_fs s0) (db_current (sys_db s0)) es0 [] T0"
    and "wal_id (mutable_wal (db_current (sys_db s0))) \<notin> set (butlast (wals (db_manifest (sys_db s0))))"
    and "\<forall>r. entry_ok (request_entry (sys_reqs s0 r))"
    and "distinct (map fst es0)" "\<forall>e \<in> set es0. lsn (fst e) < l0" "unat l0 + length (logged_entries tr) \<le> 2 ^ 64"
    and "wal_next (x_crc x) torn = None"
  shows "\<exists>db T. db_new x sm True (write_wal (db_current (sys_db s)) torn (sys_fs s))
        = (Inr db, write_wal (db_current (sys_db s)) torn (sys_fs s))
    \<and> tables x (write_wal (db_current (sys_db s)) torn (sys_fs s)) (db_manifest db) (db_current db) T
    \<and> held_entries sm (db_current db) T = held_entries sm (db_current (sys_db s0)) T0 + mset (logged_entries tr)
    \<and> (\<forall>w l. sys_phase s w = Returned (Inr l) \<longrightarrow> request_entry (sys_reqs s w) \<in># held_entries sm (db_current db) T)"
proof -
  note r = enduring_run [OF assms(1)]
  note dist = run_distinct [OF r assms(2,3,9-11)]
  have "\<forall>r. entry_ok (entry_of s0 r)" using assms(8) by (simp add: entry_of_def)
  from enduring_endures [OF assms(1) endures_start [OF assms(6,7) this] assms(4,5) dist]
  have I: "endures x sm es0 (stored_entries sm (db_current (sys_db s0)) T0) tr s" .
  have "mutable_memtable (db_current (sys_db s0)) = memtable_put_batch sm es0 (memtable_new sm)"
    using assms(6) by (simp add: shows_store_def durable_def wal_mirrors_def)
  then have "held_entries sm (db_current (sys_db s0)) T0 = stored_entries sm (db_current (sys_db s0)) T0 + mset es0"
    using batch_entries [OF assms(4,9)] by (simp add: held_entries_def)
  with restart_endures [OF I assms(4) dist assms(12)] acknowledged_logged [OF r assms(2)] show ?thesis by force
qed

subsection \<open>A sample\<close>

text \<open>
  A database with four frozen memtables and a mutable one that one more write fills: the writer
  logs, applies, rotates and returns, and then the worker flushes all five memtables.
\<close>

definition late_entry :: entry where "late_entry = (Key 3 [3], Bytes [9])"

definition nearly_full :: "manifest \<Rightarrow> fs \<Rightarrow> entry list db_version \<Rightarrow> entry list sys" where
  "nearly_full m f v = \<lparr>sys_db = \<lparr>db_current = v, db_sync = write_syncs_new 3, db_manifest = m,
       max_memtable_size = Suc (memtable_size sample_full)\<rparr>,
     sys_fs = f, sys_reqs = \<lambda>w. fst (db_put [3] (Bytes [9])), sys_phase = \<lambda>_. WaitingToBeQueued\<rparr>"

lemma idle_nearly_full: "idle (nearly_full m f v)" "sync_of (nearly_full m f v) = write_syncs_new 3"
  by (auto simp: idle_def nearly_full_def sync_of_def db_put_def writer_new_req_def)

lemma nearly_full_sizes:
  "\<not> Suc (memtable_size sample_full) \<le> memtable_size sample_full"
  "Suc (memtable_size sample_full) \<le> memtable_size (memtable_put_batch alist_skipmap [late_entry] sample_full)"
  "\<not> Suc (memtable_size sample_full) \<le> memtable_size (memtable_new alist_skipmap)"
  by (simp_all add: memtable_size_put_batch length_entry_encode late_entry_def)

lemma write_until_full:
  assumes "mutable_memtable v = sample_full"
  shows "\<exists>tr s. steady_schedule crc alist_skipmap (replicate 10 0) (nearly_full m f v) = Some (tr, s)
     \<and> sys_phase s 0 = LeaderApplied (group0 (Some 3)) 0 \<and> apps tr = logs tr \<and> logged_entries tr = [late_entry] \<and> full s
     \<and> db_current (sys_db s) = write_memtable alist_skipmap [late_entry] v \<and> db_manifest (sys_db s) = m
     \<and> max_memtable_size (sys_db s) = Suc (memtable_size sample_full) \<and> (\<forall>nm. fs_lookup (sys_fs s) nm = fs_lookup f nm)
     \<and> request_entry (sys_reqs s 0) = late_entry"
  using nearly_full_sizes(1,2)
  by (simp add: numeral_eq_Suc)
    (simp add: nearly_full_def full_def step_simps write_syncs_new_def db_put_def writer_new_req_def
      group_entries_def request_entry_def key_update_lsn_def key_new_def logged_entries_def active_memtable_size_def assms
      late_entry_def write_memtable_def)

lemma steady_schedule_enduring:
  "steady_schedule (x_crc x) sm ws s = Some (tr', s') \<Longrightarrow> enduring x sm s0 tr s \<Longrightarrow> enduring x sm s0 (tr @ tr') s'"
proof (induction ws arbitrary: s tr tr')
  case (Cons w ws)
  from Cons.prems(1) obtain s1 tr1 where st: "writer_step (x_crc x) sm calm w s = Some s1" "\<not> full s"
    and rest: "steady_schedule (x_crc x) sm ws s1 = Some (tr1, s')" and tr': "tr' = step_events w s s1 @ tr1"
    by (auto split: option.splits if_splits)
  have "wal_fault calm = None" "\<not> rotates w s" using st(2) by (simp_all add: calm_def rotates_def)
  from Cons.IH [OF rest enduring.writer [OF Cons.prems(2) st(1) this]] show ?case by (simp add: tr')
qed simp

text \<open>From the rotation to the return.\<close>

lemma return_after_rotation:
  fixes s :: "entry list sys"
  assumes "sys_phase s 0 = LeaderReleasingTicket (group0 (Some 3)) 0" "\<not> full s"
  shows "\<exists>tr s'. steady_schedule crc sm (replicate 5 0) s = Some (tr, s') \<and> sys_phase s' 0 = Returned (Inr 3) \<and> logs tr = [] \<and> apps tr = []
     \<and> db_current (sys_db s') = db_current (sys_db s) \<and> db_manifest (sys_db s') = db_manifest (sys_db s)
     \<and> request_entry (sys_reqs s' 0) = request_entry (sys_reqs s 0)"
  using assms by (simp add: numeral_eq_Suc) (simp add: full_def step_simps request_entry_def)

lemma late_run: "memtable_iter alist_skipmap (memtable_put_batch alist_skipmap [late_entry] sample_full) = sample_log @ [late_entry]"
  by (simp add: memtable_iter_put_batch memtable_iter_new sample_log_def late_entry_def key_less_iff)

lemma late_run_ok: "run_ok (sample_log @ [late_entry])"
  by (simp add: run_ok_def run_fits_def sample_log_def late_entry_def key_ok_def length_entry_encode val_payload_def key_less_iff)

abbreviation backlog_manifest :: manifest where "backlog_manifest \<equiv> sample_backlog\<lparr>version := 1\<rparr>"

lemma nearly_full_opened:
  "\<exists>f v. shows_store sample_ext alist_skipmap backlog_manifest f v sample_log [] []
     \<and> frozen_memtables v = replicate 4 sample_full \<and> mutable_memtable v = sample_full \<and> wal_id (mutable_wal v) = 4
     \<and> fs_lookup f (wal_name 5) = None"
proof -
  from sample_backlog_store obtain f v where s: "store_ok sample_ext alist_skipmap backlog_manifest f v sample_log [] []"
    "frozen_memtables v = replicate 4 sample_full" "fs_lookup f (wal_name 5) = None" by blast
  from s(1) have "mutable_memtable v = sample_full" "wals backlog_manifest \<noteq> [] \<and> wal_id (mutable_wal v) = last (wals backlog_manifest)"
    by (auto simp: store_ok_def durable_def wal_mirrors_def)
  moreover from this have "wal_id (mutable_wal v) = 4" by (simp add: sample_backlog_def)
  ultimately show ?thesis using s store_ok_iff by blast
qed

text \<open>The manifest with its sixth WAL has work for the worker, and room.\<close>

lemma backlog_ready:
  assumes "frozen_memtables v = replicate 4 sample_full @ [memtable_put_batch alist_skipmap [late_entry] sample_full]"
  defines "m \<equiv> backlog_manifest\<lparr>wals := wals backlog_manifest @ [next_wal_id backlog_manifest], version := version backlog_manifest + 1\<rparr>"
  shows "worker_decide False m = Flush" "tables x f m v T \<Longrightarrow> ids_free m T \<and> worker_ready alist_skipmap m v T"
proof -
  show a: "worker_decide False m = Flush" by (simp add: worker_decide_def m_def sample_backlog_def)
  assume "tables x f m v T"
  then have "T = []" by (simp add: tables_def level_files_def m_def sample_backlog_def manifest_new_def)
  then show "ids_free m T \<and> worker_ready alist_skipmap m v T"
    using late_run_ok unfolding worker_ready_def a
    by (simp add: ids_free_def assms(1) sample_log_run sample_log_run_ok late_run)
      (simp add: manifest_room_def manifest_ok_def m_def sample_backlog_def manifest_new_def manifest_body_def vec_encode_def)
qed

lemma nearly_full_fits:
  "rotation_fits s \<longleftrightarrow> fs_lookup (sys_fs s) (wal_name 5) = None" if "db_manifest (sys_db s) = backlog_manifest"
  by (simp add: rotation_fits_def that Let_def sample_backlog_def manifest_new_def manifest_ok_def manifest_body_def vec_encode_def)

lemma late_distinct: "distinct (map fst (sample_log @ [late_entry]))"
  by (simp add: sample_log_def late_entry_def)

lemma sample_rotated_run:
  assumes S: "shows_store sample_ext alist_skipmap backlog_manifest f v sample_log [] []"
    and v: "frozen_memtables v = replicate 4 sample_full" "mutable_memtable v = sample_full" "wal_id (mutable_wal v) = 4"
    and none: "fs_lookup f (wal_name 5) = None"
  defines "m \<equiv> backlog_manifest\<lparr>wals := wals backlog_manifest @ [next_wal_id backlog_manifest], version := version backlog_manifest + 1\<rparr>"
  shows "endures sample_ext alist_skipmap sample_log (stored_entries alist_skipmap v []) [] (nearly_full backlog_manifest f v)
    \<and> (\<exists>tr s. enduring sample_ext alist_skipmap (nearly_full backlog_manifest f v) tr s \<and> logged_entries tr = [late_entry]
        \<and> sys_phase s 0 = Returned (Inr 3) \<and> request_entry (sys_reqs s 0) = late_entry \<and> db_manifest (sys_db s) = m
        \<and> frozen_memtables (db_current (sys_db s)) = replicate 4 sample_full @ [memtable_put_batch alist_skipmap [late_entry] sample_full])"
proof -
  let ?s0 = "nearly_full backlog_manifest f v"
  have I0: "endures sample_ext alist_skipmap sample_log (stored_entries alist_skipmap v []) [] ?s0"
    using endures_start [of sample_ext alist_skipmap ?s0 sample_log "[]"] S v(3)
    by (simp add: nearly_full_def sample_backlog_def entry_of_def request_entry_def db_put_def writer_new_req_def key_new_def key_ok_def)
  obtain tr s where sch: "steady_schedule (x_crc sample_ext) alist_skipmap (replicate 10 0) ?s0 = Some (tr, s)"
    and p: "sys_phase s 0 = LeaderApplied (group0 (Some 3)) 0" "apps tr = logs tr" "logged_entries tr = [late_entry]" "full s"
      "db_current (sys_db s) = write_memtable alist_skipmap [late_entry] v" "db_manifest (sys_db s) = backlog_manifest"
      "max_memtable_size (sys_db s) = Suc (memtable_size sample_full)" "\<forall>nm. fs_lookup (sys_fs s) nm = fs_lookup f nm"
      "request_entry (sys_reqs s 0) = late_entry"
    using write_until_full [OF v(2), of "x_crc sample_ext" backlog_manifest f] by blast
  from steady_schedule_enduring [OF sch enduring.start] have e1: "enduring sample_ext alist_skipmap ?s0 tr s" by simp
  have "distinct (map fst (sample_log @ logged_entries tr))" unfolding p(3) by (rule late_distinct)
  from enduring_endures [OF e1 I0 alist_skipmap_ok sample_ext_ok this]
  have I: "endures sample_ext alist_skipmap sample_log (stored_entries alist_skipmap v []) tr s" .
  have fits: "rotation_fits s" unfolding nearly_full_fits [OF p(6)] using p(8) none by simp
  from rotation_result [OF I p(2) fits] obtain f' w where
    rot: "rotate_memtable (x_crc sample_ext) alist_skipmap alone (db_manifest (sys_db s), sys_fs s, db_current (sys_db s))
      = (Inr (), m, f', rotate_install alist_skipmap w (db_current (sys_db s)))" unfolding p(6) m_def by blast
  let ?s1 = "goto 0 (LeaderReleasingTicket (group0 (Some 3)) 0)
    (s\<lparr>sys_db := (sys_db s)\<lparr>db_manifest := m, db_current := rotate_install alist_skipmap w (db_current (sys_db s))\<rparr>, sys_fs := f'\<rparr>)"
  have st: "writer_step (x_crc sample_ext) alist_skipmap calm 0 s = Some ?s1"
    using p(4) by (simp add: writer_step_def p(1) step_rotate_def Let_def calm_def rot full_def)
  have rt: "rotates 0 s" using p(1,4) by (simp add: rotates_def)
  have cl: "wal_fault calm = None" "interference calm = alone" by (simp_all add: calm_def)
  have ev: "step_events 0 s ?s1 = []" by (simp add: step_events_def p(1))
  from enduring.rotation [OF e1 st cl(1) rt cl(2) fits p(2)] have e2: "enduring sample_ext alist_skipmap ?s0 tr ?s1" by (simp add: ev)
  have "sys_phase ?s1 0 = LeaderReleasingTicket (group0 (Some 3)) 0" by simp
  moreover have "\<not> full ?s1"
    using nearly_full_sizes(3) by (simp add: full_def p(7) active_memtable_size_def rotate_install_def)
  ultimately obtain tr2 s2 where sch2: "steady_schedule (x_crc sample_ext) alist_skipmap (replicate 5 0) ?s1 = Some (tr2, s2)"
    and q: "sys_phase s2 0 = Returned (Inr 3)" "logs tr2 = []" "db_current (sys_db s2) = db_current (sys_db ?s1)"
      "db_manifest (sys_db s2) = db_manifest (sys_db ?s1)" "request_entry (sys_reqs s2 0) = request_entry (sys_reqs ?s1 0)"
    using return_after_rotation [of ?s1 "x_crc sample_ext" alist_skipmap] by blast
  from steady_schedule_enduring [OF sch2 e2] have "enduring sample_ext alist_skipmap ?s0 (tr @ tr2) s2" .
  moreover have "logged_entries (tr @ tr2) = [late_entry]" using p(3) q(2) by (simp add: logged_entries_def)
  moreover have "frozen_memtables (db_current (sys_db s2)) = replicate 4 sample_full @ [memtable_put_batch alist_skipmap [late_entry] sample_full]"
    unfolding q(3) by (simp add: rotate_install_def p(5) write_memtable_def v(1,2))
  ultimately show ?thesis using I0 q(1,4,5) p(9) by (intro conjI exI [of _ "tr @ tr2"] exI [of _ s2]) simp_all
qed

theorem acknowledged_endures_witness:
  "\<exists>f v tr s1 s db T. enduring sample_ext alist_skipmap (nearly_full backlog_manifest f v) tr s \<and> background sample_ext alist_skipmap s1 s
     \<and> worker_decide False (db_manifest (sys_db s1)) = Flush \<and> sys_phase s 0 = Returned (Inr 3)
     \<and> db_new sample_ext alist_skipmap True (write_wal (db_current (sys_db s)) [] (sys_fs s))
         = (Inr db, write_wal (db_current (sys_db s)) [] (sys_fs s))
     \<and> held_entries alist_skipmap (db_current db) T = repeat_mset 5 (mset sample_log) + {#late_entry#}"
proof -
  from nearly_full_opened obtain f v where S: "shows_store sample_ext alist_skipmap backlog_manifest f v sample_log [] []"
    and v: "frozen_memtables v = replicate 4 sample_full" "mutable_memtable v = sample_full" "wal_id (mutable_wal v) = 4"
      "fs_lookup f (wal_name 5) = None" by blast
  let ?s0 = "nearly_full backlog_manifest f v"
  from sample_rotated_run [OF S v] obtain tr s1 where I0: "endures sample_ext alist_skipmap sample_log (stored_entries alist_skipmap v []) [] ?s0"
    and e: "enduring sample_ext alist_skipmap ?s0 tr s1" and p: "logged_entries tr = [late_entry]" "sys_phase s1 0 = Returned (Inr 3)"
      "request_entry (sys_reqs s1 0) = late_entry"
      "db_manifest (sys_db s1) = backlog_manifest\<lparr>wals := wals backlog_manifest @ [next_wal_id backlog_manifest], version := version backlog_manifest + 1\<rparr>"
      "frozen_memtables (db_current (sys_db s1)) = replicate 4 sample_full @ [memtable_put_batch alist_skipmap [late_entry] sample_full]"
    by blast
  have dist: "distinct (map fst (sample_log @ logged_entries tr))" unfolding p(1) by (rule late_distinct)
  note ready = backlog_ready [OF p(5), folded p(4)]
  from enduring_endures [OF e I0 alist_skipmap_ok sample_ext_ok dist] have "\<exists>s. background sample_ext alist_skipmap s1 s"
    by (rule background_possible [OF _ sample_ext_ok]) (use ready in \<open>simp_all\<close>)
  then obtain s where bg: "background sample_ext alist_skipmap s1 s" by blast
  from enduring.worker [OF e bg] have e2: "enduring sample_ext alist_skipmap ?s0 tr s" .
  have ph: "sys_phase s 0 = Returned (Inr 3)" using bg p(2) by (auto simp: background_def Let_def)
  have dur: "shows_store sample_ext alist_skipmap (db_manifest (sys_db ?s0)) (sys_fs ?s0) (db_current (sys_db ?s0)) sample_log [] []"
    using S by (simp add: nearly_full_def)
  have own: "wal_id (mutable_wal (db_current (sys_db ?s0))) \<notin> set (butlast (wals (db_manifest (sys_db ?s0))))"
    using v(3) by (simp add: nearly_full_def sample_backlog_def)
  have ok: "\<forall>r. entry_ok (request_entry (sys_reqs ?s0 r))"
    by (simp add: nearly_full_def request_entry_def db_put_def writer_new_req_def key_new_def key_ok_def)
  have base: "distinct (map fst sample_log)" "\<forall>e \<in> set sample_log. lsn (fst e) < 3" by (simp_all add: sample_log_def)
  have room: "unat (3 :: u64) + length (logged_entries tr) \<le> 2 ^ 64" by (simp add: p(1))
  have none: "wal_next (x_crc sample_ext) [] = None" using dur by (simp add: shows_store_def durable_def wal_mirrors_def)
  have "held_entries alist_skipmap (db_current (sys_db ?s0)) [] = repeat_mset 5 (mset sample_log)"
    by (simp add: held_entries_def stored_entries_def nearly_full_def v(1,2) sample_log_run numeral_eq_Suc)
  with acknowledged_endures [OF e2 idle_nearly_full alist_skipmap_ok sample_ext_ok dur own ok base room none] e2 bg ready(1) ph
  show ?thesis by (simp only: p(1)) force
qed

end
