(* ===== verification/Swap.thy ===== *)
theory Swap
  imports Worker
begin

text \<open>
  The swap of the current version. A rotation and the end of a flush both load the version,
  build the next one from it and store it, under no common lock: the manifest is committed
  before, the version is swapped after. Here the two loads and the two stores are steps of
  their own. If both load before either stores, the second store undoes the first; when it
  undoes a flush, the version keeps memtables whose WALs are gone from the manifest, and no
  later flush can succeed. A flush also reserves its table number in the shared manifest without a new version,
  so a rotation that is committing meanwhile puts the old counter back.
\<close>

subsection \<open>Loads and stores\<close>

record 'm swapping =
  sw_current :: "'m db_version"
  sw_rotating :: "'m db_version option"
  sw_flushing :: "'m db_version option"

datatype swap = RotateLoad | RotateStore | FlushLoad | FlushStore

fun swap_step :: "'m skipmap \<Rightarrow> wal \<Rightarrow> nat \<Rightarrow> sstable list \<Rightarrow> swap \<Rightarrow> 'm swapping \<Rightarrow> 'm swapping option" where
  "swap_step sm new_wal n objs RotateLoad s = Some (s\<lparr>sw_rotating := Some (sw_current s)\<rparr>)"
| "swap_step sm new_wal n objs RotateStore s =
     map_option (\<lambda>current. s\<lparr>sw_current := rotate_install sm new_wal current, sw_rotating := None\<rparr>) (sw_rotating s)"
| "swap_step sm new_wal n objs FlushLoad s = Some (s\<lparr>sw_flushing := Some (sw_current s)\<rparr>)"
| "swap_step sm new_wal n objs FlushStore s =
     map_option (\<lambda>current. s\<lparr>sw_current := flush_install n objs current, sw_flushing := None\<rparr>) (sw_flushing s)"

fun swaps :: "'m skipmap \<Rightarrow> wal \<Rightarrow> nat \<Rightarrow> sstable list \<Rightarrow> swap list \<Rightarrow> 'm swapping \<Rightarrow> 'm swapping option" where
  "swaps sm new_wal n objs [] s = Some s"
| "swaps sm new_wal n objs (a # as) s = Option.bind (swap_step sm new_wal n objs a s) (swaps sm new_wal n objs as)"

definition swapping_of :: "'m db_version \<Rightarrow> 'm swapping" where
  "swapping_of v = \<lparr>sw_current = v, sw_rotating = None, sw_flushing = None\<rparr>"

lemma install_commutes:
  "n \<le> length (frozen_memtables v) \<Longrightarrow> flush_install n objs (rotate_install sm w v) = rotate_install sm w (flush_install n objs v)"
  by (simp add: flush_install_def rotate_install_def Let_def)

text \<open>Of the six orders of the four steps, two have both effects, and four only that of the last store.\<close>

lemma swap_outcomes:
  assumes "order \<in> shuffles [RotateLoad, RotateStore] [FlushLoad, FlushStore]" "n \<le> length (frozen_memtables v)"
  shows "\<exists>s. swaps sm w n objs order (swapping_of v) = Some s \<and> sw_current s =
     (if order = [RotateLoad, RotateStore, FlushLoad, FlushStore] \<or> order = [FlushLoad, FlushStore, RotateLoad, RotateStore]
      then rotate_install sm w (flush_install n objs v)
      else if last order = RotateStore then rotate_install sm w v else flush_install n objs v)"
  using assms by (auto simp: swapping_of_def install_commutes)

subsection \<open>Later rotations and flushes\<close>

lemma update_alone_result:
  "apply_atomic_update crc mutator alone (m, f) = (Inr r, m', f') \<Longrightarrow> \<exists>c f1. mutator m f = (Inr c, f1) \<and> m' = c\<lparr>version := version c + 1\<rparr>"
  by (auto simp: apply_atomic_update_def numeral_3_eq_3 alone_def Let_def split: prod.splits sum.splits)

inductive rotations :: "(bytes \<Rightarrow> u32) \<Rightarrow> 'm skipmap \<Rightarrow> manifest \<times> fs \<times> 'm db_version \<Rightarrow> manifest \<times> fs \<times> 'm db_version \<Rightarrow> bool"
  for crc sm st where
  none: "rotations crc sm st st"
| more: "rotations crc sm st st' \<Longrightarrow> rotate_memtable crc sm alone st' = (Inr (), st'') \<Longrightarrow> rotations crc sm st st''"

definition jammed :: "manifest \<Rightarrow> 'm db_version \<Rightarrow> bool" where
  "jammed m v \<longleftrightarrow> length (wals m) < length (frozen_memtables v)"

lemma rotation_jammed:
  assumes "rotate_memtable crc sm alone (m, f, v) = (Inr (), m', f', v')" "jammed m v"
  shows "jammed m' v'"
proof -
  from assms(1) have "\<exists>r. apply_atomic_update crc rotate_mutator alone (m, f) = (Inr r, m', snd (snd (apply_atomic_update crc rotate_mutator alone (m, f))))"
    and v': "\<exists>w. v' = rotate_install sm w v"
    by (auto simp: rotate_memtable_def rotate_manifest_def split: prod.splits sum.splits if_splits)
  then obtain c f1 where c: "rotate_mutator m f = (Inr c, f1)" "m' = c\<lparr>version := version c + 1\<rparr>"
    using update_alone_result by metis
  have "wals c = wals m @ [next_wal_id m]" using c(1) by (auto simp: rotate_mutator_def Let_def split: prod.splits sum.splits)
  with c(2) v' assms(2) show ?thesis by (auto simp: jammed_def rotate_install_def)
qed

lemma rotations_jammed:
  assumes "rotations crc sm (m, f, v) (m', f', v')" "jammed m v"
  shows "jammed m' v'"
proof -
  have "(case st' of (m', f', v') \<Rightarrow> jammed m' v')" if "rotations crc sm (m, f, v) st'" for st'
    using that
  proof (induction rule: rotations.induct)
    case (more st' st'')
    then show ?case using rotation_jammed by (auto split: prod.splits)
  qed (use assms(2) in simp)
  from this [OF assms(1)] show ?thesis by simp
qed

lemma jammed_flush:
  "jammed m v \<Longrightarrow> flush_memtables x sm others (m, f, v)
     = Some (Inl (DataCorrupted ''CRITICAL ERROR: WAL len mismatch Memtable len''), m\<lparr>next_sstable_id := next_sstable_id m + 1\<rparr>, f, v)"
  by (auto simp: jammed_def flush_memtables_def flush_prepare_def Let_def)

subsection \<open>The property\<close>

lemma rotate_manifest_of:
  "rotate_memtable crc sm others (m, f, v) = (Inr (), m', f', u) \<Longrightarrow> \<exists>w. rotate_manifest crc others (m, f) = (Inr w, m', f')"
  by (auto simp: rotate_memtable_def split: prod.splits sum.splits)

subsection \<open>A flush that begins during a rotation\<close>

text \<open>Between snapshot and commit of the first attempt at an update, a flush of version \<open>v\<close> reserves its number.\<close>

definition flush_begins :: "'m db_version \<Rightarrow> nat \<Rightarrow> manifest \<times> fs \<Rightarrow> manifest \<times> fs" where
  "flush_begins v k st = (if k = 2 then (snd (flush_prepare (fst st) v), snd st) else st)"

lemma flush_reserves:
  "flush_prepare m v = (Inr (Some job), g) \<Longrightarrow> fj_sst_id job = next_sstable_id m \<and> g = m\<lparr>next_sstable_id := next_sstable_id m + 1\<rparr>"
  by (auto simp: flush_prepare_def Let_def split: if_splits)

lemma rotate_keeps_next_id:
  "rotate_manifest crc alone (m, f) = (Inr w, m', f') \<Longrightarrow> next_sstable_id m' = next_sstable_id m"
  by (auto simp: rotate_manifest_def rotate_mutator_def Let_def dest!: update_alone_result split: prod.splits sum.splits if_splits)

lemma rotate_not_disturbed:
  assumes "rotate_manifest crc alone (m, f) = (Inr w, m', f')" "version (snd (flush_prepare m v)) = version m"
  shows "rotate_manifest crc (flush_begins v) (m, f) = (Inr w, m', f')"
proof -
  obtain r m1 f1 where u: "apply_atomic_update crc rotate_mutator alone (m, f) = (r, m1, f1)" by (metis prod.exhaust)
  with assms(1) obtain c where r: "r = Inr c" by (cases r) (simp_all add: rotate_manifest_def)
  have "apply_atomic_update crc rotate_mutator (flush_begins v) (m, f) = (Inr c, m1, f1)"
    by (rule update_not_disturbed [OF u [unfolded r] _ assms(2)]) (simp add: flush_begins_def)
  with assms(1) u r show ?thesis by (simp add: rotate_manifest_def)
qed

text \<open>C30: The table number a flush reserves can be handed out twice: if the flush takes it between the snapshot and
  the commit of a rotation that would succeed alone, the version of the manifest is unchanged, so the rotation
  commits, and leaves the very manifest it would have left alone, with the old counter. The next flush that begins
  from that manifest is given the number the first one is still writing its table under.\<close>

theorem rotation_forgets_reserved_id:
  fixes v :: "'m db_version"
  assumes "rotate_manifest crc alone (m, f) = (Inr w, m', f')" "flush_prepare m v = (Inr (Some job), g)"
  shows "(\<forall>f0. flush_begins v 2 (m, f0) = (g, f0)) \<and> next_sstable_id g = next_sstable_id m + 1
    \<and> rotate_manifest crc (flush_begins v) (m, f) = (Inr w, m', f') \<and> next_sstable_id m' = next_sstable_id m
    \<and> (\<forall>(v' :: 'm db_version) job' g'. flush_prepare m' v' = (Inr (Some job'), g') \<longrightarrow> fj_sst_id job' = fj_sst_id job)"
proof -
  from flush_reserves [OF assms(2)] have job: "fj_sst_id job = next_sstable_id m" and g: "g = m\<lparr>next_sstable_id := next_sstable_id m + 1\<rparr>"
    by blast+
  have "rotate_manifest crc (flush_begins v) (m, f) = (Inr w, m', f')"
    by (rule rotate_not_disturbed [OF assms(1)]) (simp add: assms(2) g)
  moreover have "next_sstable_id m' = next_sstable_id m" by (rule rotate_keeps_next_id [OF assms(1)])
  moreover have "fj_sst_id job' = next_sstable_id m'" if "flush_prepare m' v' = (Inr (Some job'), g')" for v' :: "'m db_version" and job' g'
    using flush_reserves [OF that] by simp
  ultimately show ?thesis using job g assms(2) by (simp add: flush_begins_def)
qed

theorem rotation_forgets_reserved_id_witness:
  "\<exists>f (v :: entry list db_version) w m' f' job g (v' :: entry list db_version) job' g'. rotate_manifest (x_crc sample_ext) (flush_begins v) (sample_backlog\<lparr>version := 1\<rparr>, f) = (Inr w, m', f')
    \<and> flush_prepare (sample_backlog\<lparr>version := 1\<rparr>) v = (Inr (Some job), g) \<and> length (fj_memtables job) = 4
    \<and> flush_prepare m' v' = (Inr (Some job'), g') \<and> length (fj_memtables job') = 5 \<and> fj_sst_id job' = fj_sst_id job"
proof -
  let ?m = "sample_backlog\<lparr>version := 1\<rparr>"
  from sample_backlog_store obtain f v where s: "store_ok sample_ext alist_skipmap ?m f v sample_log [] []"
    "frozen_memtables v = replicate 4 sample_full" "fs_lookup f (wal_name 5) = None" by blast
  have "durable sample_ext alist_skipmap ?m f v sample_log []" using s(1) by (simp add: store_ok_def)
  moreover have "fs_lookup f (wal_name (unat (next_wal_id ?m))) = None" using s(3) by (simp add: sample_backlog_def)
  moreover have "unat (version ?m) + 1 < 2 ^ 32" "manifest_ok (?m\<lparr>wals := wals ?m @ [next_wal_id ?m]\<rparr>)"
    by (simp_all add: manifest_ok_def sample_backlog_def manifest_new_def manifest_body_def vec_encode_def)
  ultimately obtain m' f' w where
    r: "rotate_memtable (x_crc sample_ext) alist_skipmap alone (?m, f, v) = (Inr (), m', f', rotate_install alist_skipmap w v)"
    and m': "m' = ?m\<lparr>wals := wals ?m @ [next_wal_id ?m], version := version ?m + 1\<rparr>"
    using rotate_fresh by blast
  from rotate_manifest_of [OF r] obtain w' where
    a: "rotate_manifest (x_crc sample_ext) alone (?m, f) = (Inr w', m', f')" by blast
  have p: "flush_prepare ?m v = (Inr (Some \<lparr>fj_memtables = replicate 4 sample_full, fj_sst_id = 0, fj_wals = [0, 1, 2, 3]\<rparr>),
      ?m\<lparr>next_sstable_id := 1\<rparr>)"
    by (simp add: flush_prepare_def s(2) sample_backlog_def manifest_new_def)
  obtain job' g' where q: "flush_prepare m' (rotate_install alist_skipmap w v) = (Inr (Some job'), g')" "length (fj_memtables job') = 5"
    by (simp add: flush_prepare_def s(2) m' sample_backlog_def manifest_new_def rotate_install_def)
  note t = rotation_forgets_reserved_id [OF a p]
  from t have t1: "rotate_manifest (x_crc sample_ext) (flush_begins v) (?m, f) = (Inr w', m', f')" by blast
  from t q(1) have t2: "fj_sst_id job' = 0" by fastforce
  show ?thesis
    by (intro exI [of _ f] exI [of _ v] exI [of _ w'] exI [of _ m'] exI [of _ f'] exI conjI, rule t1, rule p, simp,
        rule q(1), rule q(2)) (simp add: t2)
qed

text \<open>A rotation commits its manifest right after a flush has committed its own.\<close>

lemma commits_in_turn:
  assumes "flushable x sm m f v es torn" "ext_ok x" "tables x f m v T"
    and "frozen_memtables v \<noteq> []" "unat (version m) + 2 < 2 ^ 32"
    and ids: "\<forall>t \<in> set (concat T). t_id t < next_sstable_id m" "unat (next_sstable_id m) + length (frozen_memtables v) \<le> 2 ^ 32"
    and "manifest_room m (length (frozen_memtables v))" and runs: "\<forall>mt \<in> set (frozen_memtables v). run_ok (memtable_iter sm mt)"
    and meta: "\<forall>t \<in> set (concat T). file_meta_ok (t_meta t)"
    and small: "20 + 4 * length T + 131098 * (length (concat T) + length (frozen_memtables v)) < 2 ^ 32"
    and none: "fs_lookup f (wal_name (unat (next_wal_id m))) = None"
  shows "\<exists>objs m2 f2 w m3 f3. flush_commit x sm alone (m, f, v) = Some (Inr (Some (length (frozen_memtables v), objs)), m2, f2)
    \<and> wals m2 = [wal_id (mutable_wal v)] \<and> rotate_manifest (x_crc x) alone (m2, f2) = (Inr w, m3, f3)
    \<and> wals m3 = [wal_id (mutable_wal v), next_wal_id m]"
proof -
  let ?n = "length (frozen_memtables v)"
  have ver: "unat (version m) + 1 < 2 ^ 32" using assms(5) by simp
  from flush_commit_ok [OF assms(1-4) ver assms(6-9)] obtain m2 f2 ts where
    c: "flush_commit x sm alone (m, f, v) = Some (Inr (Some (length ts, map t_sst ts)), m2, f2)"
    and lf: "level_files m2 = map (map t_meta) (add_first ts T)" and ok: "\<forall>t \<in> set (concat (add_first ts T)). table_ok x f2 t"
    and d: "durable x sm m2 f2 (v\<lparr>frozen_memtables := [], sstables := map (map t_sst) (add_first ts T)\<rparr>) es torn"
    and r: "map t_run ts = map (memtable_iter sm) (frozen_memtables v)" "next_wal_id m2 = next_wal_id m"
      "wals m2 = [wal_id (mutable_wal v)]" "version m2 = version m + 1"
    and fr: "fs_frame (sst_names (next_sstable_id m) ?n \<union> {mf_tmp_name (unat (version m2)), mf_name (unat (version m2))}) f f2"
    by blast
  have len: "length ts = ?n" using arg_cong [OF r(1), of length] by simp
  have "list_all entry_ok (t_run t)" if "t \<in> set ts" for t
  proof -
    have "t_run t \<in> set (map t_run ts)" using that by simp
    then show ?thesis using runs unfolding r(1) by (auto simp: run_ok_def run_fits_def)
  qed
  then have "\<forall>t \<in> set (concat (add_first ts T)). file_meta_ok (t_meta t)"
    using ok meta table_meta_ok unfolding set_add_first by blast
  moreover have "length (add_first ts T) \<le> Suc (length T)" "length (concat (add_first ts T)) = length (concat T) + ?n"
    using len by (simp_all add: add_first_def split: list.split)
  ultimately have "manifest_ok (m2\<lparr>wals := wals m2 @ [next_wal_id m2]\<rparr>)"
    using small lf by (intro tables_manifest_ok [of _ "add_first ts T"]) (simp_all add: level_files_def r(3))
  moreover have "unat (version m2) + 1 < 2 ^ 32" using assms(5) by (simp add: r(4) unat_add_small [of "version m" 1, simplified])
  moreover have "wal_name (unat (next_wal_id m)) \<notin> sst_names (next_sstable_id m) ?n \<union> {mf_tmp_name (unat (version m2)), mf_name (unat (version m2))}"
    by (auto simp: sst_names_def)
  then have "fs_lookup f2 (wal_name (unat (next_wal_id m2))) = None" using fr none by (simp add: fs_frame_def r(2))
  ultimately obtain m3 f3 w where
    "rotate_memtable (x_crc x) sm alone (m2, f2, v\<lparr>frozen_memtables := [], sstables := map (map t_sst) (add_first ts T)\<rparr>)
      = (Inr (), m3, f3, rotate_install sm w (v\<lparr>frozen_memtables := [], sstables := map (map t_sst) (add_first ts T)\<rparr>))"
    and m3: "m3 = m2\<lparr>wals := wals m2 @ [next_wal_id m2], version := version m2 + 1\<rparr>"
    using rotate_fresh [OF d] by blast
  from rotate_manifest_of [OF this(1)] show ?thesis
    using c len r(2,3) m3 by auto
qed

text \<open>C12: A rotation can undo a flush for good: when the rotation commits its manifest after the flush of two or more memtables has
  committed its own, and loads the version before the flush has swapped it but stores after, every step succeeds and
  the version has the flushed memtables still frozen and none of the new tables; from then on, after any number of
  further rotations, every flush ends in the error of a mismatch, and changes neither files nor
  version, so that with more than four WALs no turn of the worker gets anything done.\<close>

theorem rotation_undoes_flush:
  assumes "flushable x sm m f v es torn" "ext_ok x" "tables x f m v T"
    and "2 \<le> length (frozen_memtables v)" "unat (version m) + 2 < 2 ^ 32"
    and "\<forall>t \<in> set (concat T). t_id t < next_sstable_id m" "unat (next_sstable_id m) + length (frozen_memtables v) \<le> 2 ^ 32"
    and "manifest_room m (length (frozen_memtables v))" "\<forall>mt \<in> set (frozen_memtables v). run_ok (memtable_iter sm mt)"
    and "\<forall>t \<in> set (concat T). file_meta_ok (t_meta t)"
    and "20 + 4 * length T + 131098 * (length (concat T) + length (frozen_memtables v)) < 2 ^ 32"
    and "fs_lookup f (wal_name (unat (next_wal_id m))) = None"
  shows "\<exists>n objs m2 f2 w m3 f3 s. flush_commit x sm alone (m, f, v) = Some (Inr (Some (n, objs)), m2, f2)
    \<and> rotate_manifest (x_crc x) alone (m2, f2) = (Inr w, m3, f3)
    \<and> swaps sm w n objs [RotateLoad, FlushLoad, FlushStore, RotateStore] (swapping_of v) = Some s
    \<and> frozen_memtables (sw_current s) = frozen_memtables v @ [mutable_memtable v] \<and> sstables (sw_current s) = sstables v
    \<and> (\<forall>m' f' v'. rotations (x_crc x) sm (m3, f3, sw_current s) (m', f', v') \<longrightarrow>
         (let m'' = m'\<lparr>next_sstable_id := next_sstable_id m' + 1\<rparr> in
            (\<exists>msg. flush_memtables x sm alone (m', f', v') = Some (Inl (DataCorrupted msg), m'', f', v'))
            \<and> (4 < length (wals m') \<longrightarrow> worker_turn x sm alone False (m', f', v') = Some (Flush, m'', f', v'))))"
proof -
  have "frozen_memtables v \<noteq> []" using assms(4) by auto
  from commits_in_turn [OF assms(1-3) this assms(5-12)] obtain objs m2 f2 w m3 f3 where
    c: "flush_commit x sm alone (m, f, v) = Some (Inr (Some (length (frozen_memtables v), objs)), m2, f2)"
      "rotate_manifest (x_crc x) alone (m2, f2) = (Inr w, m3, f3)" "length (wals m3) = 2"
    by (auto simp del: fs_wf_def)
  let ?s = "\<lparr>sw_current = rotate_install sm w v, sw_rotating = None, sw_flushing = None\<rparr>"
  have s: "swaps sm w (length (frozen_memtables v)) objs [RotateLoad, FlushLoad, FlushStore, RotateStore] (swapping_of v) = Some ?s"
    by (simp add: swapping_of_def)
  have j: "jammed m3 (rotate_install sm w v)" using c(3) assms(4) by (simp add: jammed_def rotate_install_def)
  have "flush_memtables x sm alone (m', f', v')
        = Some (Inl (DataCorrupted ''CRITICAL ERROR: WAL len mismatch Memtable len''), m'\<lparr>next_sstable_id := next_sstable_id m' + 1\<rparr>, f', v')"
    if "rotations (x_crc x) sm (m3, f3, sw_current ?s) (m', f', v')" for m' f' v'
    by (rule jammed_flush) (use rotations_jammed [OF that] j in simp)
  then have "let m'' = m'\<lparr>next_sstable_id := next_sstable_id m' + 1\<rparr> in
            (\<exists>msg. flush_memtables x sm alone (m', f', v') = Some (Inl (DataCorrupted msg), m'', f', v'))
            \<and> (4 < length (wals m') \<longrightarrow> worker_turn x sm alone False (m', f', v') = Some (Flush, m'', f', v'))"
    if "rotations (x_crc x) sm (m3, f3, sw_current ?s) (m', f', v')" for m' f' v'
    using that by (simp add: Let_def worker_turn_def worker_decide_def)
  with c(1,2) s show ?thesis
    by (intro exI [of _ "length (frozen_memtables v)"] exI [of _ objs] exI [of _ m2] exI [of _ f2] exI [of _ w] exI [of _ m3]
        exI [of _ f3] exI [of _ ?s]) (simp add: rotate_install_def)
qed

theorem rotation_undoes_flush_witness:
  "\<exists>f v n objs m2 f2 w m3 f3 s. flush_commit sample_ext alist_skipmap alone (sample_backlog\<lparr>version := 1\<rparr>, f, v) = Some (Inr (Some (n, objs)), m2, f2)
    \<and> rotate_manifest (x_crc sample_ext) alone (m2, f2) = (Inr w, m3, f3)
    \<and> swaps alist_skipmap w n objs [RotateLoad, FlushLoad, FlushStore, RotateStore] (swapping_of v) = Some s
    \<and> (\<exists>msg m4. flush_memtables sample_ext alist_skipmap alone (m3, f3, sw_current s) = Some (Inl (DataCorrupted msg), m4, f3, sw_current s))"
proof -
  let ?m = "sample_backlog\<lparr>version := 1\<rparr>"
  from sample_backlog_store obtain f v where s: "store_ok sample_ext alist_skipmap ?m f v sample_log [] []"
    "frozen_memtables v = replicate 4 sample_full" "fs_lookup f (wal_name 5) = None" by blast
  have fl: "flushable sample_ext alist_skipmap ?m f v sample_log []" and tb: "tables sample_ext f ?m v []"
    using s(1) durable_flushable by (auto simp: store_ok_def)
  have room: "manifest_room ?m (length (frozen_memtables v))"
    by (simp add: s(2) manifest_room_def manifest_ok_def sample_backlog_def manifest_new_def manifest_body_def vec_encode_def)
  have runs: "\<forall>mt \<in> set (frozen_memtables v). run_ok (memtable_iter alist_skipmap mt)"
    by (simp add: s(2) sample_log_run sample_log_run_ok)
  have none: "fs_lookup f (wal_name (unat (next_wal_id ?m))) = None" using s(3) by (simp add: sample_backlog_def)
  have two: "2 \<le> length (frozen_memtables v)" and ver: "unat (version ?m) + 2 < 2 ^ 32"
    and ids: "\<forall>t \<in> set (concat []). t_id t < next_sstable_id ?m" "unat (next_sstable_id ?m) + length (frozen_memtables v) \<le> 2 ^ 32"
    and meta: "\<forall>t \<in> set (concat []). file_meta_ok (t_meta t)"
    and small: "20 + 4 * length ([] :: table list list) + 131098 * (length (concat ([] :: table list list)) + length (frozen_memtables v)) < 2 ^ 32"
    by (simp_all add: s(2) sample_backlog_def manifest_new_def)
  from rotation_undoes_flush [OF fl sample_ext_ok tb two ver ids room runs meta small none]
  show ?thesis using rotations.none unfolding Let_def by blast
qed

end
