(* ===== verification/Spec2Isabelle.thy ===== *)
theory Spec2Isabelle
  imports Endurance Swap
begin

text \<open>
  \<^bold>\<open>easy-lsm, a log-structured merge tree\<close>

  A database is a directory. A write goes to the write-ahead log (WAL) and then to the mutable
  memtable; a full memtable is frozen and a new WAL begun; a background worker writes frozen
  memtables to SSTables of level 0, merges levels, and deletes files nobody refers to; the
  manifest, one file per version, lists the live WALs and SSTables and decides what a restart
  finds. The theories follow these parts; all paths are below \<open>src/src/\<close>.

  \<^bold>\<open>Data and files\<close>

  \<^item> \<^theory_text>\<open>Prelude\<close>: \<open>err.rs\<close> as datatypes, sequencing of results, little-endian bytes.
  \<^item> \<^theory_text>\<open>Loggable\<close>: \<open>data_stores/mod.rs\<close>; a locale of codecs, interpreted on every encoded type.
  \<^item> \<^theory_text>\<open>Keys\<close>, \<^theory_text>\<open>Values\<close>: \<open>key.rs\<close> and \<open>value.rs\<close>. Keys are an instance of \<open>linorder\<close>, with the
    newest version of a user key first.
  \<^item> \<^theory_text>\<open>Bloom\<close>: \<open>bloom_filter.rs\<close>; a locale of approximate sets with no false negatives.
  \<^item> \<^theory_text>\<open>Files\<close>: the part of \<open>std::fs\<close> and \<open>std::path\<close> the program uses, and its file names. A
    directory maps names to inodes, so that an open file survives a rename or a removal.
  \<^item> \<^theory_text>\<open>Wal\<close>: \<open>wal.rs\<close>: what is replayed, torn and corrupted entries.
  \<^item> \<^theory_text>\<open>Entries\<close>: sorted runs of entries, and a locale of versioned stores.
  \<^item> \<^theory_text>\<open>Memtable\<close>: \<open>memtable.rs\<close>, over a parameter for the skip list.
  \<^item> \<^theory_text>\<open>Manifest\<close>: \<open>manifest.rs\<close>: codec, choice of the newest manifest, atomic update with
    interference at every retry.
  \<^item> \<^theory_text>\<open>Sstable\<close>: \<open>sstable.rs\<close>: builder, writer, reader, lookup, iterators; a locale relates an
    iterator to the sorted sequence it yields.
  \<^item> \<^theory_text>\<open>Merge\<close>: the merging iterator of \<open>compact.rs\<close>, for any iterators of that locale.

  \<^bold>\<open>The database\<close>

  \<^item> \<^theory_text>\<open>Version\<close>: \<open>DbVersion\<close> and \<open>Db::get\<close> of \<open>lib.rs\<close>. \<open>version_holds\<close> says which runs of entries
    a version holds; lookups are specified on those.
  \<^item> \<^theory_text>\<open>Compact\<close>: \<open>flush_memtables\<close>, \<open>prepare_gc_snapshot\<close> and \<open>garbage_collect\<close> of \<open>compact.rs\<close>.
  \<^item> \<^theory_text>\<open>Database\<close>: opening, recovery and rotation of \<open>lib.rs\<close>. \<open>durable\<close> says that the directory
    alone determines the version; recovery is proved to restore it, rotation to keep it.
  \<^item> \<^theory_text>\<open>Compaction\<close>: \<open>compact_l0\<close>, \<open>compact_ln\<close>, \<open>execute_compaction\<close>. The specification is on
    tables: the manifest's entry, the open SSTable and the run it holds.
  \<^item> \<^theory_text>\<open>Levels\<close>: \<open>store_ok\<close>, the invariant of a store with sorted levels. Compactions keep it, and
    neither they nor a flush lose an entry or the match with the directory; lookups in a store
    compacted to one sorted level return the newest version; a flush of several memtables
    loses the uniqueness of SSTable numbers.
  \<^item> \<^theory_text>\<open>Worker\<close>: the loop \<open>run\<close> of \<open>compact.rs\<close>, one turn at a time, the restart of its thread and
    shutting down (\<open>lib.rs\<close>). The backlog of the worker decreases with every undisturbed busy turn that begins
    with fresh SSTable numbers.

  \<^bold>\<open>Concurrent writers\<close>

  \<^item> \<^theory_text>\<open>Writers\<close>: \<open>write_req.rs\<close> and \<open>Db::write\<close>: every writer is a state machine, one step for each
    critical section. The control part of a step is refined to an abstract protocol
    (\<open>ctl\<close>); invariants are proved of the protocol once and carried to all runs by the
    locale \<open>protocol_invariant\<close>. A run has a trace of what went to the log and the memtable; \<open>happens\<close> ties
    each event to the moment of the run at which the file and the memtable changed.
  \<^item> \<^theory_text>\<open>Liveness\<close>: a measure that bounds the number of steps, freedom from deadlock, and the
    well-formedness of the control state.

  \<^bold>\<open>The parts together\<close>

  \<^item> \<^theory_text>\<open>Durability\<close>: writers, log and recovery in runs without rotations: what was acknowledged
    survives a crash.
  \<^item> \<^theory_text>\<open>Stranded\<close>: why rotations are another matter: a group between the log and the memtable when an
    earlier group rotates is lost with the old WAL, after it was acknowledged.
  \<^item> \<^theory_text>\<open>Endurance\<close>: writers, rotations and the worker in runs (\<open>enduring\<close>) that keep clear of this and of
    the two reuses of numbers (\<open>second_rotation_reuses_wal\<close>, \<open>flush_leaves_id_in_use\<close>): after
    every step a restart finds exactly the entries that were there and those that were logged. Rotations and
    turns of the worker are single steps there, so crashes inside them are not covered.

  \<^item> \<^theory_text>\<open>Swap\<close>: the loads and stores of the current version (\<open>ArcSwap\<close>) by a rotation and a flush as
    steps of their own: in four of six orders one undoes the other, and a flush that is undone
    makes every later one fail; and the number a flush reserves while a rotation updates the manifest, which is
    handed out again.

  \<^bold>\<open>Parameters\<close>

  The record \<open>ext\<close> has what comes from other packages: the CRC, SipHash, and the serialisation of
  the Bloom filter; \<open>ext_ok\<close> has what is relied on: a filter is read back from its bytes, and these are
  not much longer than its bitmap. The skip
  list is the record \<open>skipmap\<close> with the laws \<open>skipmap_ok\<close> of a sorted map. Witnesses instantiate
  both with functions that compute. A binary heap is a list whose greatest element is removed;
  mutual exclusion is the unit of interleaving.

  \<^bold>\<open>Bounds and loops\<close>

  Machine integers keep their width (\<open>u8\<close> to \<open>u64\<close> are words) and wrap as in a release build; lengths and
  the counters of tickets, which are \<open>usize\<close> or cannot wrap in practice, are natural numbers.
  Loops over files and bytes are structural or decrease the input. The loop of
  \<open>apply_atomic_update\<close> counts down the attempts the code allows. The loop of a compaction is a
  partial function, proved to return on the iterators of readable SSTables; its sizes are
  bounded by \<open>can_compact\<close>. \<open>worker_run\<close> takes one element of a list for each turn. \<open>None\<close> is a panic or an endless loop, \<open>Inl\<close> an error that is
  returned.

  \<^bold>\<open>Concurrency\<close>

  The background worker is interleaved with writers as arbitrary changes of the manifest, the directory,
  the frozen memtables and the SSTables between their steps (\<open>worker_change\<close>), and with the update of the
  manifest as a function applied between its two critical sections. \<open>alone\<close> is the case that
  nobody else changes the manifest meanwhile. In \<^theory_text>\<open>Endurance\<close> a turn of the worker is one
  undisturbed step. A condition variable is the condition that is
  waited for, except for shutting down, where the lost notification is the point. A rotation
  is one step of a writer, except in \<^theory_text>\<open>Swap\<close>, where the loads and stores of the version are steps.

  \<^bold>\<open>Not modelled\<close>

  I/O errors except those of the log, of missing files and of what is found in files; the bytes a
  buffered WAL writer keeps after a failed flush; pauses and messages; poisoned locks; the texts of messages that quote
  another error; the serde and hash instances of
  keys; test constructors. \<open>block.rs\<close> has no code.
\<close>

end
